theory Spec2Isabelle
  imports Complex_Main "HOL-Library.Word" "HOL-Library.AList" "HOL-Library.Product_Lexorder"
begin

unbundle bit_operations_syntax

section \<open>Common types (global.h)\<close>

text \<open>
  \<^verbatim>\<open>using KeyType = uint64_t; using ValueType = std::string;\<close>
  Keys are 64-bit words, compared unsigned; values are byte strings.
\<close>

type_synonym KeyType = "64 word"
type_synonym ValueType = string

definition TOMBSTONE_VALUE :: ValueType where
  "TOMBSTONE_VALUE = ''%%__TOMBSTONE__%%''"

text \<open>
  \<^verbatim>\<open>tbb::concurrent_hash_map<KeyType, ValueType>\<close> is modelled as an association list
  with distinct keys. \<^verbatim>\<open>insert(acc, k); acc->second = v\<close> is \<open>AList.update k v\<close>
  (overwrite in place, or a new entry), \<^verbatim>\<open>find\<close> is \<open>map_of\<close>, \<^verbatim>\<open>erase\<close> is
  \<open>AList.delete\<close>, \<^verbatim>\<open>size\<close> is \<open>length\<close>, and iterating the map walks the list.
  The iteration order of the hash map is unspecified in the source; no result below
  depends on which order the list has.
\<close>

type_synonym MemTable = "(KeyType \<times> ValueType) list"

section \<open>Register-blocked Bloom filter (RegisterBlockedBloomFilter.h)\<close>

record RegisterBlockedBloomFilter =
  num_blocks :: nat
  num_hashes :: nat
  blocks :: "64 word list"

text \<open>The constructor: \<^verbatim>\<open>blocks_(num_blocks, 0)\<close>.\<close>

definition new_bloom :: "nat \<Rightarrow> nat \<Rightarrow> RegisterBlockedBloomFilter" where
  "new_bloom nb nh =
     \<lparr>num_blocks = nb, num_hashes = nh, blocks = replicate nb 0\<rparr>"

text \<open>
  \<^verbatim>\<open>std::hash<uint64_t>\<close> is implementation-defined; it is the parameter \<open>H\<close> of every
  function below. \<^verbatim>\<open>ComputeHash(key, i) = std::hash<uint64_t>{}(key ^ (0x9e3779b9 * i))\<close>,
  the product taken in \<^verbatim>\<open>size_t\<close>, that is modulo \<open>2 ^ 64\<close>.
\<close>

definition ComputeHash :: "(64 word \<Rightarrow> 64 word) \<Rightarrow> 64 word \<Rightarrow> nat \<Rightarrow> 64 word" where
  "ComputeHash H key i = H (key XOR (0x9e3779b9 * word_of_nat i))"

text \<open>
  \<^verbatim>\<open>GetBlock\<close>: the block index \<^verbatim>\<open>ComputeHash(hash, 0) % num_blocks\<close>. With no block
  the source divides by zero; the model returns \<open>None\<close> there.
\<close>

definition GetBlock :: "(64 word \<Rightarrow> 64 word) \<Rightarrow> RegisterBlockedBloomFilter \<Rightarrow> 64 word \<Rightarrow> nat option" where
  "GetBlock H f hash =
     (if num_blocks f = 0 then None
      else Some (unat (ComputeHash H hash 0) mod num_blocks f))"

text \<open>\<^verbatim>\<open>ConstructMask\<close>: the loop \<^verbatim>\<open>for (i = 1; i < num_hashes; ++i) mask |= 1ull << bit_pos\<close>.\<close>

definition ConstructMask :: "(64 word \<Rightarrow> 64 word) \<Rightarrow> RegisterBlockedBloomFilter \<Rightarrow> 64 word \<Rightarrow> 64 word" where
  "ConstructMask H f hash =
     fold (\<lambda>i mask. mask OR push_bit (unat (ComputeHash H hash i mod 64)) 1)
          [1 ..< num_hashes f] 0"

definition Insert :: "(64 word \<Rightarrow> 64 word) \<Rightarrow> RegisterBlockedBloomFilter \<Rightarrow> 64 word
    \<Rightarrow> RegisterBlockedBloomFilter option" where
  "Insert H f key =
     (let hash = H key in
      case GetBlock H f hash of
        None \<Rightarrow> None
      | Some block_idx \<Rightarrow>
          Some (f\<lparr>blocks := (blocks f)[block_idx := (blocks f ! block_idx) OR ConstructMask H f hash]\<rparr>))"

definition Query :: "(64 word \<Rightarrow> 64 word) \<Rightarrow> RegisterBlockedBloomFilter \<Rightarrow> 64 word \<Rightarrow> bool option" where
  "Query H f key =
     (let hash = H key in
      case GetBlock H f hash of
        None \<Rightarrow> None
      | Some block_idx \<Rightarrow>
          (let mask = ConstructMask H f hash
           in Some ((blocks f ! block_idx) AND mask = mask)))"

text \<open>A sequence of \<^verbatim>\<open>Insert\<close> calls on one filter, in order.\<close>

fun insert_all :: "(64 word \<Rightarrow> 64 word) \<Rightarrow> RegisterBlockedBloomFilter \<Rightarrow> 64 word list
    \<Rightarrow> RegisterBlockedBloomFilter option" where
  "insert_all H f [] = Some f"
| "insert_all H f (k # ks) =
     (case Insert H f k of None \<Rightarrow> None | Some f' \<Rightarrow> insert_all H f' ks)"

text \<open>A filter is well formed when it has at least one block and the block vector has that length.\<close>

definition bloom_ok :: "RegisterBlockedBloomFilter \<Rightarrow> bool" where
  "bloom_ok f \<longleftrightarrow> 0 < num_blocks f \<and> length (blocks f) = num_blocks f"

section \<open>SSTable (src/lsm/SSTables.h and src/old_implementation/lsm/SSTables.h)\<close>

text \<open>
  The SSTable of \<^verbatim>\<open>src/lsm/SSTables.h\<close>: \<^verbatim>\<open>{id, min_key, max_key, data, entry_count}\<close>.
  The field \<^verbatim>\<open>id\<close> is called \<open>sst_id\<close> here.
\<close>

record SSTable_lsm =
  sst_id :: "64 word"
  min_key :: KeyType
  max_key :: KeyType
  data :: MemTable
  entry_count :: nat

text \<open>
  The SSTable of \<^verbatim>\<open>src/old_implementation/lsm/SSTables.h\<close> has the same fields and a
  Bloom filter. (\<^verbatim>\<open>ENABLE_LEARNED_INDEX\<close> is 0 in global.h, so the learned index is
  compiled out.)
\<close>

record SSTable = SSTable_lsm +
  bloom :: RegisterBlockedBloomFilter

text \<open>
  \<^verbatim>\<open>src/lsm/SSTables.h\<close>, constructor and \<^verbatim>\<open>find_key\<close>: a lookup in the map; a
  tombstone is reported as not found.
\<close>

definition new_SSTable_lsm :: "64 word \<Rightarrow> KeyType \<Rightarrow> KeyType \<Rightarrow> MemTable \<Rightarrow> SSTable_lsm" where
  "new_SSTable_lsm i min_k max_k d =
     \<lparr>sst_id = i, min_key = min_k, max_key = max_k, data = d, entry_count = length d\<rparr>"

definition find_key_lsm :: "SSTable_lsm \<Rightarrow> KeyType \<Rightarrow> ValueType option" where
  "find_key_lsm sst key =
     (case map_of (data sst) key of
        Some v \<Rightarrow> if v = TOMBSTONE_VALUE then None else Some v
      | None \<Rightarrow> None)"

text \<open>
  \<^verbatim>\<open>src/lsm/SSTables.h\<close>, \<^verbatim>\<open>create_from_memtable\<close>: copy the entries, then scan the
  copy for the smallest and the largest key, starting from
  \<^verbatim>\<open>numeric_limits<KeyType>::max()\<close> and \<^verbatim>\<open>::min()\<close>. \<open>None\<close> is the null pointer.
\<close>

definition copy_entries :: "MemTable \<Rightarrow> MemTable" where
  "copy_entries m = fold (\<lambda>kv tbbmap. AList.update (fst kv) (snd kv) tbbmap) m []"

definition scan_min_max :: "MemTable \<Rightarrow> KeyType \<times> KeyType" where
  "scan_min_max tbbmap =
     fold (\<lambda>kv (min_k, max_k).
             (if fst kv < min_k then fst kv else min_k,
              if fst kv > max_k then fst kv else max_k))
          tbbmap (- 1, 0)"

definition create_from_memtable_lsm :: "MemTable \<Rightarrow> 64 word \<Rightarrow> SSTable_lsm option" where
  "create_from_memtable_lsm memtable_data_to_copy sstable_id =
     (if memtable_data_to_copy = [] then None
      else let tbbmap = copy_entries memtable_data_to_copy;
               (min_k, max_k) = scan_min_max tbbmap
           in Some (new_SSTable_lsm sstable_id min_k max_k tbbmap))"

text \<open>
  \<^verbatim>\<open>src/old_implementation/lsm/SSTables.h\<close>, constructor: \<^verbatim>\<open>bloom(512, 7)\<close>, then every
  key of the data is inserted into the filter. With 512 blocks \<^verbatim>\<open>Insert\<close> cannot
  fail (lemma \<open>insert_all_ok\<close>), so the \<open>None\<close> branch is never taken.
\<close>

definition new_SSTable :: "(64 word \<Rightarrow> 64 word) \<Rightarrow> 64 word \<Rightarrow> KeyType \<Rightarrow> KeyType \<Rightarrow> MemTable \<Rightarrow> SSTable" where
  "new_SSTable H i min_k max_k d =
     \<lparr>sst_id = i, min_key = min_k, max_key = max_k, data = d, entry_count = length d,
      bloom = (case insert_all H (new_bloom 512 7) (map fst d) of
                 Some b \<Rightarrow> b
               | None \<Rightarrow> new_bloom 512 7)\<rparr>"

text \<open>
  \<^verbatim>\<open>find_key\<close>: reject a key outside \<^verbatim>\<open>[min_key, max_key]\<close>, then a key the Bloom filter
  does not know, then look the key up; a tombstone is reported as not found.
\<close>

definition find_key :: "(64 word \<Rightarrow> 64 word) \<Rightarrow> SSTable \<Rightarrow> KeyType \<Rightarrow> ValueType option" where
  "find_key H sst key =
     (if key < min_key sst \<or> key > max_key sst then None
      else if Query H (bloom sst) key \<noteq> Some True then None
      else case map_of (data sst) key of
             Some v \<Rightarrow> if v = TOMBSTONE_VALUE then None else Some v
           | None \<Rightarrow> None)"

text \<open>
  \<^verbatim>\<open>create_from_memtable\<close>: one pass that copies each entry and tracks the smallest and
  the largest key, the first key initialising both. The loop state is
  \<^verbatim>\<open>(tbbmap, min_k, max_k, first_key)\<close>.
\<close>

fun create_step :: "KeyType \<times> ValueType \<Rightarrow> MemTable \<times> KeyType \<times> KeyType \<times> bool
    \<Rightarrow> MemTable \<times> KeyType \<times> KeyType \<times> bool" where
  "create_step kv (tbbmap, min_k, max_k, first_key) =
     (AList.update (fst kv) (snd kv) tbbmap,
      if first_key then fst kv else min min_k (fst kv),
      if first_key then fst kv else max max_k (fst kv),
      False)"

definition create_from_memtable :: "(64 word \<Rightarrow> 64 word) \<Rightarrow> MemTable \<Rightarrow> 64 word \<Rightarrow> SSTable option" where
  "create_from_memtable H memtable_data_to_copy sstable_id =
     (if memtable_data_to_copy = [] then None
      else case fold create_step memtable_data_to_copy ([], - 1, 0, True) of
             (tbbmap, min_k, max_k, first_key) \<Rightarrow>
               if tbbmap = [] then None
               else Some (new_SSTable H sstable_id min_k max_k tbbmap))"

text \<open>The key range of an SSTable bounds every key of its data.\<close>

definition sst_bounded :: "'a SSTable_lsm_scheme \<Rightarrow> bool" where
  "sst_bounded sst \<longleftrightarrow> (\<forall>k \<in> fst ` set (data sst). min_key sst \<le> k \<and> k \<le> max_key sst)"

section \<open>Learned index (learned_index.h, learned_index.cpp)\<close>

definition LEARNED_INDEX_TARGET_KEYS_PER_SEGMENT :: nat where
  "LEARNED_INDEX_TARGET_KEYS_PER_SEGMENT = 256"

definition LEARNED_INDEX_MIN_KEYS_FOR_MULTISEGMENT :: nat where
  "LEARNED_INDEX_MIN_KEYS_FOR_MULTISEGMENT = LEARNED_INDEX_TARGET_KEYS_PER_SEGMENT * 2"

text \<open>
  A segment: its first key, the fitted line, the global index of its first key and the
  number of keys it was trained on. The line \<^verbatim>\<open>(slope, intercept, max_abs_error)\<close> is
  computed in floating point by \<^verbatim>\<open>train_linear_model\<close>; the computation is the
  parameter \<open>F\<close> below and its result has the type \<open>'m\<close>.
\<close>

record 'm SegmentModel =
  first_key :: KeyType
  model :: 'm
  start_index_global :: nat
  num_keys_in_segment :: nat

record 'm LearnedIndex =
  segments :: "'m SegmentModel list"
  model_trained :: bool
  min_overall_key :: KeyType
  max_overall_key :: KeyType
  total_keys_trained_on :: nat

text \<open>
  \<^verbatim>\<open>train_linear_model\<close> returns false exactly when it is given no key; otherwise it
  returns the fitted line.
\<close>

definition train_linear_model :: "(KeyType list \<Rightarrow> nat list \<Rightarrow> 'm) \<Rightarrow> KeyType list \<Rightarrow> nat list \<Rightarrow> 'm option" where
  "train_linear_model F keys global_indices =
     (if keys = [] then None else Some (F keys global_indices))"

text \<open>
  The number of segments chosen by \<^verbatim>\<open>train\<close>. The arithmetic is \<^verbatim>\<open>size_t\<close>.
\<close>

definition num_segments_for :: "nat \<Rightarrow> nat" where
  "num_segments_for num_total_keys =
     (if num_total_keys < LEARNED_INDEX_MIN_KEYS_FOR_MULTISEGMENT then 1
      else max 1 ((num_total_keys + LEARNED_INDEX_TARGET_KEYS_PER_SEGMENT - 1) mod 2 ^ 64
                  div LEARNED_INDEX_TARGET_KEYS_PER_SEGMENT))"

text \<open>
  One round of the loop over the segments: the offsets
  \<^verbatim>\<open>(i * num_total_keys) / num_segments\<close> and \<^verbatim>\<open>((i + 1) * num_total_keys) / num_segments\<close>
  (products modulo \<open>2 ^ 64\<close>), the last segment running to the end; an empty segment is
  skipped; the model is trained on the slice of the keys and of their global indices.
\<close>

definition train_segment :: "(KeyType list \<Rightarrow> nat list \<Rightarrow> 'm) \<Rightarrow> KeyType list \<Rightarrow> nat list \<Rightarrow> nat
    \<Rightarrow> nat \<Rightarrow> 'm SegmentModel list \<Rightarrow> 'm SegmentModel list" where
  "train_segment F sorted_keys global_indices num_segments i segs =
     (let num_total_keys = length sorted_keys;
          segment_start_offset = (i * num_total_keys) mod 2 ^ 64 div num_segments;
          segment_end_offset =
            (if i = num_segments - 1 then num_total_keys
             else ((i + 1) * num_total_keys) mod 2 ^ 64 div num_segments);
          current_segment_num_keys =
            (segment_end_offset + 2 ^ 64 - segment_start_offset) mod 2 ^ 64
      in if current_segment_num_keys = 0 then segs
         else case train_linear_model F
                     (take current_segment_num_keys (drop segment_start_offset sorted_keys))
                     (take current_segment_num_keys (drop segment_start_offset global_indices)) of
                Some m \<Rightarrow>
                  segs @ [\<lparr>first_key = sorted_keys ! segment_start_offset,
                           model = m,
                           start_index_global = global_indices ! segment_start_offset,
                           num_keys_in_segment = current_segment_num_keys\<rparr>]
              | None \<Rightarrow> segs)"

definition train :: "(KeyType list \<Rightarrow> nat list \<Rightarrow> 'm) \<Rightarrow> 'm LearnedIndex \<Rightarrow> KeyType list \<Rightarrow> 'm LearnedIndex" where
  "train F li sorted_keys =
     (let li1 = li\<lparr>model_trained := False, segments := [],
                    total_keys_trained_on := length sorted_keys\<rparr>
      in if sorted_keys = [] then li1
         else let num_total_keys = length sorted_keys;
                  global_indices = [0 ..< num_total_keys];
                  num_segments = num_segments_for num_total_keys;
                  segs = fold (train_segment F sorted_keys global_indices num_segments)
                              [0 ..< num_segments] []
              in li1\<lparr>min_overall_key := hd sorted_keys,
                      max_overall_key := last sorted_keys,
                      segments := segs,
                      model_trained := (segs \<noteq> [])\<rparr>)"

text \<open>The constructor \<^verbatim>\<open>LearnedIndex()\<close>.\<close>

definition new_LearnedIndex :: "'m LearnedIndex" where
  "new_LearnedIndex =
     \<lparr>segments = [], model_trained = False, min_overall_key = 0, max_overall_key = - 1,
      total_keys_trained_on = 0\<rparr>"

text \<open>The slice of the keys that segment \<open>i\<close> of \<open>S\<close> covers: offset and length.\<close>

definition seg_start :: "nat \<Rightarrow> nat \<Rightarrow> nat \<Rightarrow> nat" where
  "seg_start N S i = i * N div S"

definition seg_len :: "nat \<Rightarrow> nat \<Rightarrow> nat \<Rightarrow> nat" where
  "seg_len N S i = seg_start N S (i + 1) - seg_start N S i"

text \<open>
  The segment that is fitted on slice \<open>i\<close> of \<open>S\<close>: the slice's first key, the line
  fitted on the slice and on its global indices, the global index of the slice's start
  and the slice's length.
\<close>

definition seg_of :: "(KeyType list \<Rightarrow> nat list \<Rightarrow> 'm) \<Rightarrow> KeyType list \<Rightarrow> nat \<Rightarrow> nat \<Rightarrow> 'm SegmentModel" where
  "seg_of F keys S i =
     (let N = length keys; st = seg_start N S i; len = seg_len N S i
      in \<lparr>first_key = keys ! st,
          model = F (take len (drop st keys)) [st ..< st + len],
          start_index_global = st,
          num_keys_in_segment = len\<rparr>)"

text \<open>A fitting function that keeps nothing of the line; it serves concrete evaluations only.\<close>

definition unit_fit :: "KeyType list \<Rightarrow> nat list \<Rightarrow> unit" where
  "unit_fit ks js = ()"

section \<open>Learned index: the fitted line and the prediction (learned_index.cpp)\<close>

text \<open>
  Floating point. A finite floating-point value is a rational number, and an operation
  computes the exact result and rounds it to the nearest value with a significand of \<open>p\<close>
  bits, a tie going to the even significand (the IEEE 754 default). \<^verbatim>\<open>double\<close> has
  \<open>p = 53\<close>; \<^verbatim>\<open>long double\<close> is the extended format of the x86-64 ABI, \<open>p = 64\<close>. Every
  operation rounds on its own (no fused multiply-add). The exponent range is not
  modelled: there is no overflow, no underflow and no NaN.

  \<open>pow2 e\<close> is \<open>2\<^sup>e\<close>, \<open>bit_length n\<close> the number of binary digits of \<open>n\<close>, and
  \<open>floor_log2 x\<close>, for a positive \<open>x\<close>, the exponent \<open>e\<close> with \<open>2\<^sup>e \<le> x < 2\<^sup>e\<^sup>+\<^sup>1\<close>.
\<close>

definition pow2 :: "int \<Rightarrow> rat" where
  "pow2 e = (if 0 \<le> e then 2 ^ nat e else 1 / 2 ^ nat (- e))"

fun bit_length :: "nat \<Rightarrow> nat" where
  "bit_length n = (if n = 0 then 0 else Suc (bit_length (n div 2)))"

declare bit_length.simps [simp del]

definition floor_log2 :: "rat \<Rightarrow> int" where
  "floor_log2 x =
     (if 1 \<le> x then int (bit_length (nat \<lfloor>x\<rfloor>)) - 1
      else - int (bit_length (nat (\<lceil>1 / x\<rceil> - 1))))"

text \<open>The nearest integer, a tie going to the even one.\<close>

definition round_half_even :: "rat \<Rightarrow> int" where
  "round_half_even t =
     (let m = \<lfloor>t\<rfloor>; r = t - of_int m
      in if 1 / 2 < r \<or> (r = 1 / 2 \<and> odd m) then m + 1 else m)"

text \<open>
  Rounding to \<open>p\<close> significant bits: scale \<open>x\<close> so that its integer part has \<open>p\<close> bits,
  round to the nearest integer, scale back.
\<close>

definition round_to :: "nat \<Rightarrow> rat \<Rightarrow> rat" where
  "round_to p x =
     (if x = 0 then 0
      else let q = floor_log2 \<bar>x\<bar> - (int p - 1)
           in of_int (round_half_even (x / pow2 q)) * pow2 q)"

definition to_double :: "rat \<Rightarrow> rat" where
  "to_double = round_to 53"

definition to_long_double :: "rat \<Rightarrow> rat" where
  "to_long_double = round_to 64"

text \<open>
  The line of a segment: the fields \<^verbatim>\<open>slope\<close>, \<^verbatim>\<open>intercept\<close> and \<^verbatim>\<open>max_abs_error\<close> of
  \<^verbatim>\<open>SegmentModel\<close>, all \<^verbatim>\<open>double\<close>.
\<close>

record LinearModel =
  slope :: rat
  intercept :: rat
  max_abs_error :: rat

definition LEARNED_INDEX_MIN_KEYS_PER_SEGMENT_TRAINING :: nat where
  "LEARNED_INDEX_MIN_KEYS_PER_SEGMENT_TRAINING = 5"

text \<open>
  The conversions \<^verbatim>\<open>static_cast<double>\<close> and \<^verbatim>\<open>static_cast<long double>\<close> of a key and of
  a \<^verbatim>\<open>size_t\<close>.
\<close>

definition key_double :: "KeyType \<Rightarrow> rat" where
  "key_double k = to_double (of_nat (unat k))"

definition key_long_double :: "KeyType \<Rightarrow> rat" where
  "key_long_double k = to_long_double (of_nat (unat k))"

definition size_double :: "nat \<Rightarrow> rat" where
  "size_double n = to_double (of_nat n)"

definition size_long_double :: "nat \<Rightarrow> rat" where
  "size_long_double n = to_long_double (of_nat n)"

text \<open>
  \<^verbatim>\<open>train_linear_model\<close>, last loop: the largest absolute residual
  \<^verbatim>\<open>std::abs(predicted_idx - static_cast<double>(global_indices[i]))\<close> with
  \<^verbatim>\<open>predicted_idx = out_slope * static_cast<double>(keys[i]) + out_intercept\<close>, in
  \<^verbatim>\<open>double\<close>.
\<close>

definition residual_max :: "rat \<Rightarrow> rat \<Rightarrow> KeyType list \<Rightarrow> nat list \<Rightarrow> rat" where
  "residual_max out_slope out_intercept ks global_indices =
     fold (\<lambda>(k, gi) out_max_abs_error.
             let predicted_idx = to_double (to_double (out_slope * key_double k) + out_intercept)
             in max out_max_abs_error \<bar>to_double (predicted_idx - size_double gi)\<bar>)
          (zip ks global_indices) 0"

text \<open>
  \<^verbatim>\<open>train_linear_model\<close>, the loop that accumulates \<^verbatim>\<open>sum_x\<close>, \<^verbatim>\<open>sum_y\<close>, \<^verbatim>\<open>sum_xy\<close> and
  \<^verbatim>\<open>sum_x_sq\<close> in \<^verbatim>\<open>long double\<close>.
\<close>

definition accumulate_sums :: "KeyType list \<Rightarrow> nat list \<Rightarrow> rat \<times> rat \<times> rat \<times> rat" where
  "accumulate_sums ks global_indices =
     fold (\<lambda>(k, gi) (sum_x, sum_y, sum_xy, sum_x_sq).
             (to_long_double (sum_x + key_long_double k),
              to_long_double (sum_y + size_long_double gi),
              to_long_double (sum_xy + to_long_double (key_long_double k * size_long_double gi)),
              to_long_double (sum_x_sq + to_long_double (key_long_double k * key_long_double k))))
          (zip ks global_indices) (0, 0, 0, 0)"

text \<open>
  \<^verbatim>\<open>train_linear_model\<close> for \<^verbatim>\<open>num_keys > 0\<close> (for no key it returns false, see
  \<open>train_linear_model\<close> above, whose parameter \<open>F\<close> this function instantiates): a single
  key gives a constant; equal first and last keys give the mean of the indices; otherwise
  the least-squares line, with a horizontal line when the denominator is below
  \<^verbatim>\<open>1e-12\<close>.
\<close>

definition train_linear_model_fit :: "KeyType list \<Rightarrow> nat list \<Rightarrow> LinearModel" where
  "train_linear_model_fit ks global_indices =
     (let num_keys = length ks in
      if num_keys < LEARNED_INDEX_MIN_KEYS_PER_SEGMENT_TRAINING \<and> 0 < num_keys \<and> num_keys = 1 then
        \<lparr>slope = 0, intercept = size_double (global_indices ! 0), max_abs_error = 0\<rparr>
      else if num_keys = 1 \<or> hd ks = last ks then
        let sum_global_indices =
              fold (\<lambda>gi s. to_long_double (s + size_long_double gi)) global_indices 0;
            out_intercept =
              to_double (to_long_double (sum_global_indices / size_long_double num_keys))
        in \<lparr>slope = 0, intercept = out_intercept,
            max_abs_error =
              fold (\<lambda>gi e. max e \<bar>to_double (out_intercept - size_double gi)\<bar>) global_indices 0\<rparr>
      else
        case accumulate_sums ks global_indices of
          (sum_x, sum_y, sum_xy, sum_x_sq) \<Rightarrow>
            let N_ld = size_long_double num_keys;
                slope_denominator =
                  to_long_double (to_long_double (N_ld * sum_x_sq) - to_long_double (sum_x * sum_x));
                out_slope =
                  (if \<bar>slope_denominator\<bar> < to_long_double (to_double (1 / 10 ^ 12)) then 0
                   else to_double (to_long_double
                          (to_long_double (to_long_double (N_ld * sum_xy) - to_long_double (sum_x * sum_y))
                           / slope_denominator)));
                out_intercept =
                  (if \<bar>slope_denominator\<bar> < to_long_double (to_double (1 / 10 ^ 12))
                   then to_double (to_long_double (sum_y / N_ld))
                   else to_double (to_long_double
                          (to_long_double (sum_y - to_long_double (to_long_double out_slope * sum_x))
                           / N_ld)))
            in \<lparr>slope = out_slope, intercept = out_intercept,
                max_abs_error = residual_max out_slope out_intercept ks global_indices\<rparr>)"

text \<open>
  \<^verbatim>\<open>std::upper_bound\<close> over the segments with the comparison
  \<^verbatim>\<open>k_val < seg_model.first_key\<close>: the position of the first segment whose first key is
  greater than the key (the segments are ordered by first key when \<^verbatim>\<open>train\<close> was given
  sorted keys).
\<close>

definition upper_bound_segments :: "LinearModel SegmentModel list \<Rightarrow> KeyType \<Rightarrow> nat" where
  "upper_bound_segments segs key = length (takeWhile (\<lambda>seg. \<not> key < first_key seg) segs)"

text \<open>
  \<^verbatim>\<open>static_cast<int>\<close> of a \<^verbatim>\<open>double\<close> truncates; a value outside the range of \<^verbatim>\<open>int\<close>
  is undefined behaviour, here \<open>None\<close>. \<^verbatim>\<open>static_cast<int>\<close> of a \<^verbatim>\<open>size_t\<close> keeps the low
  32 bits.
\<close>

definition double_to_int :: "rat \<Rightarrow> int option" where
  "double_to_int x =
     (let n = (if 0 \<le> x then \<lfloor>x\<rfloor> else \<lceil>x\<rceil>)
      in if - (2 ^ 31) \<le> n \<and> n < 2 ^ 31 then Some n else None)"

definition size_to_int :: "nat \<Rightarrow> int" where
  "size_to_int n = sint (word_of_nat n :: 32 word)"

text \<open>
  \<^verbatim>\<open>predict_index_range\<close>: the result is the returned flag with \<^verbatim>\<open>effective_min_idx\<close> and
  \<^verbatim>\<open>effective_max_idx\<close>.
\<close>

definition predict_index_range :: "LinearModel LearnedIndex \<Rightarrow> KeyType \<Rightarrow> (bool \<times> int \<times> int) option" where
  "predict_index_range li key =
     (if \<not> model_trained li \<or> segments li = [] \<or> total_keys_trained_on li = 0 then
        Some (False, 0,
              size_to_int (if 0 < total_keys_trained_on li then total_keys_trained_on li - 1 else 0))
      else if key < min_overall_key li \<or> max_overall_key li < key then Some (True, 1, 0)
      else
        let it = upper_bound_segments (segments li) key;
            chosen_segment = (if it = 0 then hd (segments li) else segments li ! (it - 1));
            predicted_idx_double =
              to_double (to_double (slope (model chosen_segment) * key_double key)
                         + intercept (model chosen_segment));
            error_bound = max_abs_error (model chosen_segment);
            lower_bound_on_i = to_double (predicted_idx_double - error_bound);
            upper_bound_on_i = to_double (predicted_idx_double + error_bound)
        in case (double_to_int (of_int \<lceil>max 0 lower_bound_on_i\<rceil>),
                 double_to_int (of_int \<lfloor>min (size_double (total_keys_trained_on li - 1))
                                           upper_bound_on_i\<rfloor>)) of
             (Some effective_min_idx, Some effective_max_idx) \<Rightarrow>
               Some (True, effective_min_idx, effective_max_idx)
           | _ \<Rightarrow> None)"

text \<open>Eleven sorted keys for a concrete evaluation.\<close>

definition fit_keys :: "KeyType list" where
  "fit_keys = [2, 3, 17, 21, 24, 25, 31, 32, 34, 39, 42]"

section \<open>LSM tree (src/old_implementation/lsm/lsm_tree.h)\<close>

text \<open>
  The state of \<^verbatim>\<open>LSMTree\<close>. The active memtable is a nullable pointer; \<^verbatim>\<open>levels_\<close> is
  resized to \<^verbatim>\<open>max_levels_\<close> by the constructor and keeps that length. The locks, the
  condition variables and the two worker threads are not part of the state: each
  operation and each round of a worker is one atomic step of the model.
  \<^verbatim>\<open>level_entry_multiplier_\<close> is a \<^verbatim>\<open>double\<close>; the only place that uses it,
  \<^verbatim>\<open>static_cast<size_t>(max_entries * level_entry_multiplier_)\<close>, is the field
  \<open>level_entry_multiplier\<close> as a function on sizes.
\<close>

record LSMTree =
  active_memtable :: "MemTable option"
  immutable_memtables :: "MemTable list"
  levels :: "SSTable list list"
  next_sstable_id :: "64 word"
  memtable_max_size_entries :: nat
  max_level0_sstables :: nat
  max_levels :: nat
  level_entry_multiplier :: "nat \<Rightarrow> nat"
  sstable_target_entry_count :: nat

definition new_LSMTree :: "nat \<Rightarrow> nat \<Rightarrow> nat \<Rightarrow> (nat \<Rightarrow> nat) \<Rightarrow> nat \<Rightarrow> LSMTree" where
  "new_LSMTree memtable_max_entries l0_max_sstables num_levels level_size_ratio sstable_target_entries =
     \<lparr>active_memtable = Some [],
      immutable_memtables = [],
      levels = replicate num_levels [],
      next_sstable_id = 0,
      memtable_max_size_entries = memtable_max_entries,
      max_level0_sstables = l0_max_sstables,
      max_levels = num_levels,
      level_entry_multiplier = level_size_ratio,
      sstable_target_entry_count = sstable_target_entries\<rparr>"

subsection \<open>Read path\<close>

text \<open>A memtable lookup of \<^verbatim>\<open>get\<close>: \<open>None\<close> is a miss, \<open>Some None\<close> a tombstone.\<close>

definition memtable_lookup :: "MemTable \<Rightarrow> KeyType \<Rightarrow> ValueType option option" where
  "memtable_lookup mt key =
     (case map_of mt key of
        None \<Rightarrow> None
      | Some v \<Rightarrow> if v = TOMBSTONE_VALUE then Some None else Some (Some v))"

text \<open>Step 2 of \<^verbatim>\<open>get\<close>: the immutable memtables, newest (last) first.\<close>

fun scan_memtables :: "MemTable list \<Rightarrow> KeyType \<Rightarrow> ValueType option option" where
  "scan_memtables [] key = None"
| "scan_memtables (mt # mts) key =
     (case memtable_lookup mt key of
        Some r \<Rightarrow> Some r
      | None \<Rightarrow> scan_memtables mts key)"

text \<open>
  Step 3 of \<^verbatim>\<open>get\<close>, the loop over level 0 (the argument is the level reversed, newest
  first): only \<^verbatim>\<open>find_key\<close> returning true ends the scan.
\<close>

fun scan_level0 :: "(64 word \<Rightarrow> 64 word) \<Rightarrow> SSTable list \<Rightarrow> KeyType \<Rightarrow> ValueType option" where
  "scan_level0 H [] key = None"
| "scan_level0 H (sstable # rest) key =
     (if key \<ge> min_key sstable \<and> key \<le> max_key sstable then
        (case find_key H sstable key of
           Some v \<Rightarrow> Some v
         | None \<Rightarrow> scan_level0 H rest key)
      else scan_level0 H rest key)"

text \<open>
  The inner loop over one level \<open>i \<ge> 1\<close>. The flag says whether the SSTable is
  \<^verbatim>\<open>current_level_sstables.front()\<close>. \<open>None\<close> is the end of the loop or its \<^verbatim>\<open>break\<close>.
\<close>

fun scan_level :: "(64 word \<Rightarrow> 64 word) \<Rightarrow> SSTable list \<Rightarrow> bool \<Rightarrow> KeyType \<Rightarrow> ValueType option" where
  "scan_level H [] is_front key = None"
| "scan_level H (sstable # rest) is_front key =
     (if key \<ge> min_key sstable \<and> key \<le> max_key sstable then
        (case find_key H sstable key of
           Some v \<Rightarrow> Some v
         | None \<Rightarrow> scan_level H rest False key)
      else if min_key sstable > key \<and> is_front then scan_level H rest False key
      else if min_key sstable > key then None
      else scan_level H rest False key)"

fun scan_levels :: "(64 word \<Rightarrow> 64 word) \<Rightarrow> SSTable list list \<Rightarrow> KeyType \<Rightarrow> ValueType option" where
  "scan_levels H [] key = None"
| "scan_levels H (current_level_sstables # deeper) key =
     (case scan_level H current_level_sstables True key of
        Some v \<Rightarrow> Some v
      | None \<Rightarrow> scan_levels H deeper key)"

text \<open>\<^verbatim>\<open>get\<close>: \<open>Some v\<close> is \<^verbatim>\<open>true\<close> with the value \<open>v\<close>, \<open>None\<close> is \<^verbatim>\<open>false\<close>.\<close>

definition get :: "(64 word \<Rightarrow> 64 word) \<Rightarrow> LSMTree \<Rightarrow> KeyType \<Rightarrow> ValueType option" where
  "get H t key =
     (case (case active_memtable t of
              None \<Rightarrow> None
            | Some mt \<Rightarrow> memtable_lookup mt key) of
        Some r \<Rightarrow> r
      | None \<Rightarrow>
          (case scan_memtables (rev (immutable_memtables t)) key of
             Some r \<Rightarrow> r
           | None \<Rightarrow>
               (case (if levels t \<noteq> [] then scan_level0 H (rev (hd (levels t))) key else None) of
                  Some v \<Rightarrow> Some v
                | None \<Rightarrow> scan_levels H (tl (levels t)) key)))"

subsection \<open>Write path\<close>

definition schedule_flush_active_memtable :: "LSMTree \<Rightarrow> LSMTree" where
  "schedule_flush_active_memtable t =
     (case active_memtable t of
        Some mt \<Rightarrow>
          if length mt \<ge> memtable_max_size_entries t
          then t\<lparr>active_memtable := Some [],
                 immutable_memtables := immutable_memtables t @ [mt]\<rparr>
          else t
      | None \<Rightarrow> t)"

definition put :: "LSMTree \<Rightarrow> KeyType \<Rightarrow> ValueType \<Rightarrow> LSMTree" where
  "put t key val =
     (let mt = (case active_memtable t of None \<Rightarrow> [] | Some mt \<Rightarrow> mt);
          mt' = AList.update key val mt;
          t' = t\<lparr>active_memtable := Some mt'\<rparr>
      in if length mt' \<ge> memtable_max_size_entries t
         then schedule_flush_active_memtable t'
         else t')"

definition del :: "LSMTree \<Rightarrow> KeyType \<Rightarrow> LSMTree" where
  "del t key = put t key TOMBSTONE_VALUE"

subsection \<open>Flush worker\<close>

text \<open>
  \<^verbatim>\<open>flush_memtable_to_l0\<close>. \<^verbatim>\<open>levels_[0]\<close> does not exist when \<^verbatim>\<open>max_levels_\<close> is 0: the
  model returns \<open>None\<close> for that access. \<^verbatim>\<open>std::sort\<close> by id is \<open>sort_key sst_id\<close>.
\<close>

definition flush_memtable_to_l0 :: "(64 word \<Rightarrow> 64 word) \<Rightarrow> LSMTree \<Rightarrow> MemTable \<Rightarrow> LSMTree option" where
  "flush_memtable_to_l0 H t memtable_data =
     (if memtable_data = [] then Some t
      else let current_sstable_id = next_sstable_id t;
               t' = t\<lparr>next_sstable_id := next_sstable_id t + 1\<rparr>
           in case create_from_memtable H memtable_data current_sstable_id of
                None \<Rightarrow> Some t'
              | Some new_sstable \<Rightarrow>
                  if levels t' = [] then None
                  else Some (t'\<lparr>levels := (levels t')[0 := sort_key sst_id (levels t' ! 0 @ [new_sstable])]\<rparr>))"

text \<open>One round of \<^verbatim>\<open>flush_worker_loop\<close>: the front of the queue is taken and flushed.\<close>

definition flush_worker_step :: "(64 word \<Rightarrow> 64 word) \<Rightarrow> LSMTree \<Rightarrow> LSMTree option" where
  "flush_worker_step H t =
     (case immutable_memtables t of
        [] \<Rightarrow> Some t
      | memtable_to_flush # rest \<Rightarrow>
          flush_memtable_to_l0 H (t\<lparr>immutable_memtables := rest\<rparr>) memtable_to_flush)"

subsection \<open>Compaction worker\<close>

definition get_level_total_entries :: "LSMTree \<Rightarrow> nat \<Rightarrow> nat" where
  "get_level_total_entries t level_idx =
     (if level_idx \<ge> length (levels t) then 0
      else fold (\<lambda>sst total_entries. (total_entries + entry_count sst) mod 2 ^ 64)
                (levels t ! level_idx) 0)"

definition get_max_entries_for_level :: "LSMTree \<Rightarrow> nat \<Rightarrow> nat" where
  "get_max_entries_for_level t level_idx =
     (let max_l0_entries = (max_level0_sstables t * sstable_target_entry_count t) mod 2 ^ 64
      in if level_idx = 0 then max_l0_entries
         else fold (\<lambda>i max_entries. level_entry_multiplier t max_entries) [0 ..< level_idx]
                   max_l0_entries)"

definition find_overlapping_sstables_nolock :: "LSMTree \<Rightarrow> SSTable list \<Rightarrow> nat \<Rightarrow> SSTable list" where
  "find_overlapping_sstables_nolock t source_ssts target_level_idx =
     (if source_ssts = [] \<or> target_level_idx \<ge> max_levels t then []
      else let overall_min_key =
                 fold (\<lambda>sst m. if min_key sst < m then min_key sst else m)
                      source_ssts (min_key (hd source_ssts));
               overall_max_key =
                 fold (\<lambda>sst m. if max_key sst > m then max_key sst else m)
                      source_ssts (max_key (hd source_ssts))
           in filter (\<lambda>sst. min_key sst \<le> overall_max_key \<and> max_key sst \<ge> overall_min_key)
                     (levels t ! target_level_idx))"

text \<open>\<^verbatim>\<open>load_map_from_sst_list\<close>: every entry of every SSTable, in order, into the map.\<close>

definition load_map_from_sst_list :: "SSTable list \<Rightarrow> MemTable \<Rightarrow> MemTable" where
  "load_map_from_sst_list sst_list_to_load merged_data_map =
     fold (\<lambda>sst m. fold (\<lambda>kv m'. AList.update (fst kv) (snd kv) m') (data sst) m)
          sst_list_to_load merged_data_map"

text \<open>The tombstones are collected and erased from the merged map.\<close>

definition erase_tombstones :: "MemTable \<Rightarrow> MemTable" where
  "erase_tombstones merged_data_map =
     (let keys_to_erase = map fst (filter (\<lambda>kv. snd kv = TOMBSTONE_VALUE) merged_data_map)
      in fold AList.delete keys_to_erase merged_data_map)"

text \<open>
  The partition loop: entries are added to \<^verbatim>\<open>current_sstable_build_data\<close>; when it has
  \<^verbatim>\<open>sstable_target_entry_count_\<close> entries an SSTable is created from it with the next id
  and it is cleared. The state is (build data, new SSTables, next id).
\<close>

fun partition_step :: "(64 word \<Rightarrow> 64 word) \<Rightarrow> nat \<Rightarrow> KeyType \<times> ValueType
    \<Rightarrow> MemTable \<times> SSTable list \<times> 64 word \<Rightarrow> MemTable \<times> SSTable list \<times> 64 word" where
  "partition_step H target_count kv (build, new_ssts, next_id) =
     (let build' = AList.update (fst kv) (snd kv) build
      in if length build' \<ge> target_count
         then (case create_from_memtable H build' next_id of
                 Some new_sst \<Rightarrow> ([], new_ssts @ [new_sst], next_id + 1)
               | None \<Rightarrow> ([], new_ssts, next_id + 1))
         else (build', new_ssts, next_id))"

definition build_new_ssts :: "(64 word \<Rightarrow> 64 word) \<Rightarrow> nat \<Rightarrow> MemTable \<Rightarrow> 64 word \<Rightarrow> SSTable list \<times> 64 word" where
  "build_new_ssts H target_count merged_data_map next_id =
     (if merged_data_map = [] then ([], next_id)
      else case fold (partition_step H target_count) merged_data_map ([], [], next_id) of
             (build, new_ssts, next_id') \<Rightarrow>
               if build \<noteq> [] then
                 (case create_from_memtable H build next_id' of
                    Some new_sst \<Rightarrow> (new_ssts @ [new_sst], next_id' + 1)
                  | None \<Rightarrow> (new_ssts, next_id' + 1))
               else (new_ssts, next_id'))"

text \<open>\<^verbatim>\<open>remove_compacted_ssts\<close>: drop the SSTables whose id is the id of a compacted one.\<close>

definition remove_compacted_ssts :: "SSTable list \<Rightarrow> SSTable list \<Rightarrow> SSTable list" where
  "remove_compacted_ssts level_vec compacted_ssts =
     filter (\<lambda>sst_in_level. \<not> (\<exists>sst_to_remove \<in> set compacted_ssts. sst_id sst_to_remove = sst_id sst_in_level))
            level_vec"

definition compact_sstables :: "(64 word \<Rightarrow> 64 word) \<Rightarrow> LSMTree \<Rightarrow> nat \<Rightarrow> SSTable list \<Rightarrow> SSTable list \<Rightarrow> LSMTree" where
  "compact_sstables H t source_level_idx ssts_from_source ssts_from_target_overlap =
     (if ssts_from_source = [] then t
      else let target_level_idx = source_level_idx + 1
           in if target_level_idx \<ge> max_levels t then t
              else let merged_data_map =
                         erase_tombstones
                           (load_map_from_sst_list ssts_from_source
                              (load_map_from_sst_list ssts_from_target_overlap []));
                       (new_ssts_for_target, next_id') =
                         build_new_ssts H (sstable_target_entry_count t) merged_data_map
                                        (next_sstable_id t);
                       levels1 = (levels t)[source_level_idx :=
                                   remove_compacted_ssts (levels t ! source_level_idx) ssts_from_source];
                       levels2 = levels1[target_level_idx :=
                                   sort_key (\<lambda>sst. (min_key sst, sst_id sst))
                                     (remove_compacted_ssts (levels1 ! target_level_idx)
                                                            ssts_from_target_overlap
                                      @ new_ssts_for_target)]
                   in t\<lparr>next_sstable_id := next_id', levels := levels2\<rparr>)"

text \<open>
  \<^verbatim>\<open>perform_compaction_check\<close>: level 0 is compacted when it has too many SSTables;
  otherwise the first level whose entries exceed its capacity is compacted. \<open>None\<close> is
  the access to \<^verbatim>\<open>levels_[0]\<close> when there is no level.
\<close>

definition perform_compaction_check :: "(64 word \<Rightarrow> 64 word) \<Rightarrow> LSMTree \<Rightarrow> LSMTree option" where
  "perform_compaction_check H t =
     (if levels t = [] then None
      else if length (levels t ! 0) > max_level0_sstables t then
        (let l0_ssts = levels t ! 0;
             l1_overlap_ssts =
               (if max_levels t > 1 then find_overlapping_sstables_nolock t l0_ssts 1 else [])
         in Some (compact_sstables H t 0 l0_ssts l1_overlap_ssts))
      else
        (case find (\<lambda>i. get_level_total_entries t i > get_max_entries_for_level t i)
                   [0 ..< max_levels t - 1] of
           Some i \<Rightarrow>
             (let li_ssts = levels t ! i;
                  li_plus_1_overlap_ssts = find_overlapping_sstables_nolock t li_ssts (i + 1)
              in Some (compact_sstables H t i li_ssts li_plus_1_overlap_ssts))
         | None \<Rightarrow> Some t))"

text \<open>A map without tombstones.\<close>

definition tombstone_free :: "MemTable \<Rightarrow> bool" where
  "tombstone_free m \<longleftrightarrow> (\<forall>kv \<in> set m. snd kv \<noteq> TOMBSTONE_VALUE)"

text \<open>
  An SSTable as its constructor leaves it: the key range bounds the data and the Bloom
  filter knows every key of the data.
\<close>

definition sst_ok :: "(64 word \<Rightarrow> 64 word) \<Rightarrow> SSTable \<Rightarrow> bool" where
  "sst_ok H sst \<longleftrightarrow>
     sst_bounded sst \<and> (\<forall>k \<in> fst ` set (data sst). Query H (bloom sst) k = Some True)"

text \<open>
  A concrete tree for evaluations: level 0 holds one SSTable with a tombstone for key 7
  and a value for key 8; level 1 is empty.
\<close>

definition tomb_sst :: SSTable where
  "tomb_sst = new_SSTable (\<lambda>x. x) 0 7 8 [(7, TOMBSTONE_VALUE), (8, ''y'')]"

definition tomb_tree :: LSMTree where
  "tomb_tree = (new_LSMTree 1 1 2 (\<lambda>n. n * 10) 256)\<lparr>levels := [[tomb_sst], []], next_sstable_id := 1\<rparr>"

text \<open>The value a map shows for a key: a tombstone shows as not found.\<close>

definition lookup_value :: "MemTable \<Rightarrow> KeyType \<Rightarrow> ValueType option" where
  "lookup_value m key =
     (case map_of m key of
        Some v \<Rightarrow> if v = TOMBSTONE_VALUE then None else Some v
      | None \<Rightarrow> None)"

text \<open>
  Scenario S4 with \<^verbatim>\<open>memtable_max_entries = 1\<close>: \<^verbatim>\<open>put(7, "x")\<close> rotates the memtable, the
  flush worker flushes it, \<^verbatim>\<open>del(7)\<close> rotates again and the flush worker flushes the
  tombstone.
\<close>

definition s4_state :: "(64 word \<Rightarrow> 64 word) \<Rightarrow> LSMTree option" where
  "s4_state H =
     (case flush_worker_step H (put (new_LSMTree 1 4 4 (\<lambda>n. n * 10) 256) 7 ''x'') of
        None \<Rightarrow> None
      | Some t \<Rightarrow> flush_worker_step H (del t 7))"

section \<open>B+ tree (src/btree/btree.h)\<close>

definition MAX_KEYS_INTERNAL :: nat where
  "MAX_KEYS_INTERNAL = 120"

definition MAX_KEYS_LEAF :: nat where
  "MAX_KEYS_LEAF = 30"

text \<open>
  The in-memory nodes. \<^verbatim>\<open>InternalNode\<close> and \<^verbatim>\<open>LeafNode\<close> both start with
  \<^verbatim>\<open>numKeys\<close> and the key array; the arrays have a fixed length and only their first
  \<^verbatim>\<open>numKeys\<close> slots are in use. A node reference is an index into the arena
  \<^verbatim>\<open>nodes_\<close>; the null reference \<^verbatim>\<open>SIZE_MAX\<close> is \<open>None\<close>. The field \<^verbatim>\<open>values\<close> is
  called \<open>vals\<close> here. The node mutexes are not part of the model: the operations are
  taken one at a time.
\<close>

record NodeHeader =
  numKeys :: nat
  keys :: "KeyType list"

record InternalNode = NodeHeader +
  childIndices :: "nat option list"

record LeafNode = NodeHeader +
  vals :: "ValueType list"
  nextLeaf :: "nat option"

datatype Node = Internal InternalNode | Leaf LeafNode

definition new_InternalNode :: InternalNode where
  "new_InternalNode =
     \<lparr>numKeys = 0, keys = replicate MAX_KEYS_INTERNAL 0,
      childIndices = replicate (MAX_KEYS_INTERNAL + 1) None\<rparr>"

definition new_LeafNode :: LeafNode where
  "new_LeafNode =
     \<lparr>numKeys = 0, keys = replicate MAX_KEYS_LEAF 0, vals = replicate MAX_KEYS_LEAF [],
      nextLeaf = None\<rparr>"

record InsertResult =
  splitted :: bool
  newChildOffset :: nat
  promotedKey :: KeyType

definition no_split :: InsertResult where
  "no_split = \<lparr>splitted = False, newChildOffset = 0, promotedKey = 0\<rparr>"

record BPlusTree =
  rootIndex :: "nat option"
  nodes :: "Node list"

text \<open>The constructor: the root is a fresh leaf. \<^verbatim>\<open>allocateLeaf\<close> appends to the arena.\<close>

definition new_BPlusTree :: BPlusTree where
  "new_BPlusTree = \<lparr>rootIndex = Some 0, nodes = [Leaf new_LeafNode]\<rparr>"

subsection \<open>Search\<close>

text \<open>
  The child selection loop \<^verbatim>\<open>while (i < numKeys && key >= keys[i]) i++\<close>: the number
  of leading keys that are at most the key.
\<close>

definition child_index :: "InternalNode \<Rightarrow> KeyType \<Rightarrow> nat" where
  "child_index internal key =
     length (takeWhile (\<lambda>k. key \<ge> k) (take (numKeys internal) (keys internal)))"

text \<open>
  \<^verbatim>\<open>searchKey\<close>. The outer \<open>None\<close> of a result says that the call does not return a
  value: it does not terminate, or it reads outside the arena or follows a null child.
  \<open>Some None\<close> is \<^verbatim>\<open>false\<close>, \<open>Some (Some v)\<close> is \<^verbatim>\<open>true\<close> with the value.
\<close>

definition leaf_search :: "LeafNode \<Rightarrow> KeyType \<Rightarrow> ValueType option" where
  "leaf_search leaf key =
     (case find (\<lambda>i. keys leaf ! i = key) [0 ..< numKeys leaf] of
        Some i \<Rightarrow> Some (vals leaf ! i)
      | None \<Rightarrow> None)"

partial_function (option) searchKey :: "Node list \<Rightarrow> nat option \<Rightarrow> KeyType \<Rightarrow> ValueType option option" where
  "searchKey ns nodeOffset key =
     (case nodeOffset of
        None \<Rightarrow> Some None
      | Some off \<Rightarrow>
          if off \<ge> length ns then None
          else (case ns ! off of
                  Leaf leaf \<Rightarrow> Some (leaf_search leaf key)
                | Internal internal \<Rightarrow>
                    (let i = child_index internal key
                     in if i \<ge> length (childIndices internal) then None
                        else searchKey ns (childIndices internal ! i) key)))"

declare searchKey.simps [code]

partial_function (option) findLeafForKey :: "Node list \<Rightarrow> nat option \<Rightarrow> KeyType \<Rightarrow> nat option option" where
  "findLeafForKey ns nodeOffset key =
     (case nodeOffset of
        None \<Rightarrow> Some None
      | Some off \<Rightarrow>
          if off \<ge> length ns then None
          else (case ns ! off of
                  Leaf leaf \<Rightarrow> Some (Some off)
                | Internal internal \<Rightarrow>
                    (let i = child_index internal key
                     in if i \<ge> length (childIndices internal) then None
                        else findLeafForKey ns (childIndices internal ! i) key)))"

declare findLeafForKey.simps [code]

definition get_bt :: "BPlusTree \<Rightarrow> KeyType \<Rightarrow> ValueType option option" where
  "get_bt t key =
     (if rootIndex t = None then Some None
      else searchKey (nodes t) (rootIndex t) key)"

subsection \<open>Insertion into a leaf\<close>

text \<open>
  The copy loops \<^verbatim>\<open>for (i = 0; i < n; i++) dst[i] = src[off + i]\<close>.
\<close>

definition copy_into :: "'a list \<Rightarrow> 'a list \<Rightarrow> nat \<Rightarrow> nat \<Rightarrow> 'a list" where
  "copy_into dst src off n = fold (\<lambda>i d. d[i := src ! (off + i)]) [0 ..< n] dst"

text \<open>
  The shift loop of \<^verbatim>\<open>insertLeaf\<close>:
  \<^verbatim>\<open>while (pos > 0 && keys[pos - 1] > key) { keys[pos] = keys[pos - 1]; ...; pos--; }\<close>.
\<close>

fun shift_leaf :: "KeyType \<Rightarrow> nat \<Rightarrow> KeyType list \<Rightarrow> ValueType list
    \<Rightarrow> nat \<times> KeyType list \<times> ValueType list" where
  "shift_leaf key 0 ks vs = (0, ks, vs)"
| "shift_leaf key (Suc p) ks vs =
     (if ks ! p > key
      then shift_leaf key p (ks[Suc p := ks ! p]) (vs[Suc p := vs ! p])
      else (Suc p, ks, vs))"

text \<open>
  \<^verbatim>\<open>splitLeaf\<close>: the keys in use and the new key, in order; the lower half stays in the
  leaf, the upper half goes to a leaf appended to the arena; the siblings are linked.
\<close>

definition splitLeaf :: "BPlusTree \<Rightarrow> nat \<Rightarrow> LeafNode \<Rightarrow> KeyType \<Rightarrow> ValueType \<Rightarrow> BPlusTree \<times> InsertResult" where
  "splitLeaf t leafOffset leaf key val =
     (let tmpKeys0 = take (numKeys leaf) (keys leaf);
          tmpValues0 = take (numKeys leaf) (vals leaf);
          pos = (case find (\<lambda>i. key < tmpKeys0 ! i) [0 ..< length tmpKeys0] of
                   Some i \<Rightarrow> i
                 | None \<Rightarrow> length tmpKeys0);
          tmpKeys = take pos tmpKeys0 @ [key] @ drop pos tmpKeys0;
          tmpValues = take pos tmpValues0 @ [val] @ drop pos tmpValues0;
          newLeafOffset = length (nodes t);
          split = length tmpKeys div 2;
          newLeaf = new_LeafNode
            \<lparr>numKeys := length tmpKeys - split,
             keys := copy_into (keys new_LeafNode) tmpKeys split (length tmpKeys - split),
             vals := copy_into (vals new_LeafNode) tmpValues split (length tmpKeys - split),
             nextLeaf := nextLeaf leaf\<rparr>;
          leaf' = leaf
            \<lparr>numKeys := split,
             keys := copy_into (keys leaf) tmpKeys 0 split,
             vals := copy_into (vals leaf) tmpValues 0 split,
             nextLeaf := Some newLeafOffset\<rparr>
      in (t\<lparr>nodes := (nodes t @ [Leaf newLeaf])[leafOffset := Leaf leaf']\<rparr>,
          \<lparr>splitted = True, newChildOffset = newLeafOffset, promotedKey = keys newLeaf ! 0\<rparr>))"

definition insertLeaf :: "BPlusTree \<Rightarrow> nat \<Rightarrow> LeafNode \<Rightarrow> KeyType \<Rightarrow> ValueType \<Rightarrow> BPlusTree \<times> InsertResult" where
  "insertLeaf t leafOffset leaf key val =
     (case find (\<lambda>i. keys leaf ! i = key) [0 ..< numKeys leaf] of
        Some i \<Rightarrow>
          (t\<lparr>nodes := (nodes t)[leafOffset := Leaf (leaf\<lparr>vals := (vals leaf)[i := val]\<rparr>)]\<rparr>,
           no_split)
      | None \<Rightarrow>
          if numKeys leaf < MAX_KEYS_LEAF then
            (case shift_leaf key (numKeys leaf) (keys leaf) (vals leaf) of
               (pos, ks, vs) \<Rightarrow>
                 (t\<lparr>nodes := (nodes t)[leafOffset :=
                       Leaf (leaf\<lparr>keys := ks[pos := key], vals := vs[pos := val],
                                   numKeys := numKeys leaf + 1\<rparr>)]\<rparr>,
                  no_split))
          else splitLeaf t leafOffset leaf key val)"

subsection \<open>Insertion into an internal node\<close>

text \<open>
  The shift loop \<^verbatim>\<open>for (j = numKeys; j > i; j--) { keys[j] = keys[j - 1];
  childIndices[j + 1] = childIndices[j]; }\<close>.
\<close>

definition shift_internal :: "nat \<Rightarrow> nat \<Rightarrow> KeyType list \<times> nat option list \<Rightarrow> KeyType list \<times> nat option list" where
  "shift_internal i n kc =
     fold (\<lambda>j (ks, cs). (ks[j := ks ! (j - 1)], cs[j + 1 := cs ! j])) (rev [i + 1 ..< n + 1]) kc"

definition splitInternal :: "BPlusTree \<Rightarrow> nat \<Rightarrow> InternalNode \<Rightarrow> nat \<Rightarrow> InsertResult \<Rightarrow> BPlusTree \<times> InsertResult" where
  "splitInternal t nodeOffset node childIndex cRes =
     (let tmpKeys0 = take (numKeys node) (keys node);
          tmpChildIndices0 = take (numKeys node + 1) (childIndices node);
          tmpKeys = take childIndex tmpKeys0 @ [promotedKey cRes] @ drop childIndex tmpKeys0;
          tmpChildIndices = take (childIndex + 1) tmpChildIndices0 @ [Some (newChildOffset cRes)]
                            @ drop (childIndex + 1) tmpChildIndices0;
          totalKeys = length tmpKeys;
          midIndex = totalKeys div 2;
          promoted = tmpKeys ! midIndex;
          leftCount = midIndex;
          rightCount = totalKeys - (leftCount + 1);
          node' = node
            \<lparr>numKeys := leftCount,
             keys := copy_into (keys node) tmpKeys 0 leftCount,
             childIndices := (copy_into (childIndices node) tmpChildIndices 0 leftCount)
                               [leftCount := tmpChildIndices ! leftCount]\<rparr>;
          newOffset = length (nodes t);
          newNode = new_InternalNode
            \<lparr>numKeys := rightCount,
             keys := copy_into (keys new_InternalNode) tmpKeys (midIndex + 1) rightCount,
             childIndices :=
               (copy_into (childIndices new_InternalNode) tmpChildIndices (midIndex + 1) rightCount)
                 [rightCount := tmpChildIndices ! (midIndex + 1 + rightCount)]\<rparr>
      in (t\<lparr>nodes := ((nodes t)[nodeOffset := Internal node']) @ [Internal newNode]\<rparr>,
          \<lparr>splitted = True, newChildOffset = newOffset, promotedKey = promoted\<rparr>))"

text \<open>
  The part of \<^verbatim>\<open>insertIntoInternal\<close> after the recursive call into child \<open>i\<close>: nothing
  to do when the child did not split; otherwise the promoted key and the new child go
  into the node, which is split when it is full.
\<close>

definition insertIntoInternal_after :: "BPlusTree \<Rightarrow> nat \<Rightarrow> InternalNode \<Rightarrow> nat \<Rightarrow> InsertResult \<Rightarrow> BPlusTree \<times> InsertResult" where
  "insertIntoInternal_after t nodeOffset internal i cRes =
     (if \<not> splitted cRes then (t, no_split)
      else if numKeys internal < MAX_KEYS_INTERNAL then
        (case shift_internal i (numKeys internal) (keys internal, childIndices internal) of
           (ks, cs) \<Rightarrow>
             (t\<lparr>nodes := (nodes t)[nodeOffset :=
                   Internal (internal\<lparr>keys := ks[i := promotedKey cRes],
                                       childIndices := cs[i + 1 := Some (newChildOffset cRes)],
                                       numKeys := numKeys internal + 1\<rparr>)]\<rparr>,
              no_split))
      else splitInternal t nodeOffset internal i cRes)"

text \<open>
  \<^verbatim>\<open>insertInternal\<close>, with the recursion of \<^verbatim>\<open>insertIntoInternal\<close> through the child.
  After the recursive call the internal node is read again from the arena, as the
  source does through its pointer.
\<close>

partial_function (option) insertInternal :: "BPlusTree \<Rightarrow> nat option \<Rightarrow> KeyType \<Rightarrow> ValueType
    \<Rightarrow> (BPlusTree \<times> InsertResult) option" where
  "insertInternal t nodeOffset key val =
     (case nodeOffset of
        None \<Rightarrow>
          Some (t\<lparr>rootIndex := Some (length (nodes t)),
                  nodes := nodes t @ [Leaf (new_LeafNode\<lparr>keys := (keys new_LeafNode)[0 := key],
                                                       vals := (vals new_LeafNode)[0 := val],
                                                       numKeys := 1\<rparr>)]\<rparr>,
                no_split)
      | Some off \<Rightarrow>
          if off \<ge> length (nodes t) then None
          else (case nodes t ! off of
                  Leaf leaf \<Rightarrow> Some (insertLeaf t off leaf key val)
                | Internal internal \<Rightarrow>
                    (let i = child_index internal key
                     in if i \<ge> length (childIndices internal) then None
                        else Option.bind (insertInternal t (childIndices internal ! i) key val)
                               (\<lambda>r. case nodes (fst r) ! off of
                                       Internal internal' \<Rightarrow>
                                         Some (insertIntoInternal_after (fst r) off internal' i (snd r))
                                     | Leaf leaf' \<Rightarrow> None))))"

declare insertInternal.simps [code]

text \<open>\<^verbatim>\<open>put\<close>: when the root was split, a new internal root is allocated.\<close>

definition put_bt :: "BPlusTree \<Rightarrow> KeyType \<Rightarrow> ValueType \<Rightarrow> BPlusTree option" where
  "put_bt t key val =
     (if rootIndex t = None then
        Some (t\<lparr>rootIndex := Some (length (nodes t)),
                nodes := nodes t @ [Leaf (new_LeafNode\<lparr>keys := (keys new_LeafNode)[0 := key],
                                                     vals := (vals new_LeafNode)[0 := val],
                                                     numKeys := 1\<rparr>)]\<rparr>)
      else Option.bind (insertInternal t (rootIndex t) key val)
             (\<lambda>r. if splitted (snd r) then
                     (let t' = fst r; newRoot = length (nodes t')
                      in Some (t'\<lparr>rootIndex := Some newRoot,
                                  nodes := nodes t' @
                                    [Internal (new_InternalNode
                                       \<lparr>keys := (keys new_InternalNode)[0 := promotedKey (snd r)],
                                        childIndices := (childIndices new_InternalNode)
                                           [0 := rootIndex t', 1 := Some (newChildOffset (snd r))],
                                        numKeys := 1\<rparr>)]\<rparr>))
                   else Some (fst r)))"

text \<open>A sequence of \<^verbatim>\<open>put\<close> calls, in order.\<close>

fun puts_bt :: "BPlusTree \<Rightarrow> (KeyType \<times> ValueType) list \<Rightarrow> BPlusTree option" where
  "puts_bt t [] = Some t"
| "puts_bt t (kv # kvs) =
     (case put_bt t (fst kv) (snd kv) of None \<Rightarrow> None | Some t' \<Rightarrow> puts_bt t' kvs)"

subsection \<open>Range query\<close>

text \<open>
  The inner loop of \<^verbatim>\<open>rangeQuery\<close> over the records in use of one leaf. The flag of the
  result says that a key above \<^verbatim>\<open>high\<close> was met, where the source returns at once.
\<close>

fun scan_leaf :: "(KeyType \<times> ValueType) list \<Rightarrow> KeyType \<Rightarrow> KeyType \<Rightarrow> nat
    \<Rightarrow> (KeyType \<times> ValueType) list \<Rightarrow> (KeyType \<times> ValueType) list \<times> bool" where
  "scan_leaf [] low high max_results out = (out, False)"
| "scan_leaf (kv # rest) low high max_results out =
     (if \<not> length out < max_results then (out, False)
      else if fst kv < low then scan_leaf rest low high max_results out
      else if fst kv > high then (out, True)
      else scan_leaf rest low high max_results (out @ [kv]))"

definition leaf_records :: "LeafNode \<Rightarrow> (KeyType \<times> ValueType) list" where
  "leaf_records leaf = zip (take (numKeys leaf) (keys leaf)) (take (numKeys leaf) (vals leaf))"

partial_function (option) range_walk :: "Node list \<Rightarrow> nat option \<Rightarrow> KeyType \<Rightarrow> KeyType \<Rightarrow> nat
    \<Rightarrow> (KeyType \<times> ValueType) list \<Rightarrow> (KeyType \<times> ValueType) list option" where
  "range_walk ns leafOff low high max_results out =
     (case leafOff of
        None \<Rightarrow> Some out
      | Some off \<Rightarrow>
          if \<not> length out < max_results then Some out
          else if off \<ge> length ns then None
          else (case ns ! off of
                  Internal internal \<Rightarrow> None
                | Leaf leaf \<Rightarrow>
                    (case scan_leaf (leaf_records leaf) low high max_results out of
                       (out', done) \<Rightarrow>
                         if done then Some out'
                         else range_walk ns (nextLeaf leaf) low high max_results out')))"

declare range_walk.simps [code]

definition rangeQuery :: "BPlusTree \<Rightarrow> KeyType \<Rightarrow> KeyType \<Rightarrow> nat \<Rightarrow> (KeyType \<times> ValueType) list option" where
  "rangeQuery t low high max_results =
     (if rootIndex t = None \<or> low > high then Some []
      else Option.bind (findLeafForKey (nodes t) (rootIndex t) low)
             (\<lambda>leafOff. range_walk (nodes t) leafOff low high max_results []))"

text \<open>The keys and values in use of a node.\<close>

definition lkeys :: "'a NodeHeader_scheme \<Rightarrow> KeyType list" where
  "lkeys n = take (numKeys n) (keys n)"

definition lvals :: "LeafNode \<Rightarrow> ValueType list" where
  "lvals l = take (numKeys l) (vals l)"

text \<open>Insertion of one element at a position of a list.\<close>

definition ins_at :: "nat \<Rightarrow> 'a \<Rightarrow> 'a list \<Rightarrow> 'a list" where
  "ins_at pos x xs = take pos xs @ [x] @ drop pos xs"

text \<open>
  A leaf is well formed when its arrays have their fixed length, at most that many slots are
  in use and the keys in use are strictly increasing.
\<close>

definition leaf_ok :: "LeafNode \<Rightarrow> bool" where
  "leaf_ok l \<longleftrightarrow>
     numKeys l \<le> MAX_KEYS_LEAF \<and> length (keys l) = MAX_KEYS_LEAF
     \<and> length (vals l) = MAX_KEYS_LEAF \<and> sorted_wrt (<) (lkeys l)"

text \<open>The content of a map after a key is set to a value, as a set of pairs.\<close>

definition upd_set :: "KeyType \<Rightarrow> ValueType \<Rightarrow> (KeyType \<times> ValueType) set \<Rightarrow> (KeyType \<times> ValueType) set" where
  "upd_set key val S = insert (key, val) {e \<in> S. fst e \<noteq> key}"

text \<open>A full leaf for evaluations: the keys 0, 2, \<dots>, 58, all with the value \<open>v\<close>.\<close>

definition full_leaf :: LeafNode where
  "full_leaf =
     \<lparr>numKeys = 30,
      keys = [0, 2, 4, 6, 8, 10, 12, 14, 16, 18, 20, 22, 24, 26, 28, 30, 32, 34, 36, 38,
              40, 42, 44, 46, 48, 50, 52, 54, 56, 58],
      vals = replicate 30 ''v'',
      nextLeaf = None\<rparr>"

definition full_leaf_tree :: BPlusTree where
  "full_leaf_tree = \<lparr>rootIndex = Some 0, nodes = [Leaf full_leaf]\<rparr>"

text \<open>
  Key ranges. A subtree is responsible for the keys from a lower bound (inclusive) up to an
  upper bound (exclusive); \<open>None\<close> is no bound.
\<close>

definition in_lo :: "KeyType option \<Rightarrow> KeyType \<Rightarrow> bool" where
  "in_lo lo k = (case lo of None \<Rightarrow> True | Some b \<Rightarrow> b \<le> k)"

definition in_hi :: "KeyType option \<Rightarrow> KeyType \<Rightarrow> bool" where
  "in_hi hi k = (case hi of None \<Rightarrow> True | Some b \<Rightarrow> k < b)"

definition in_hi_le :: "KeyType option \<Rightarrow> KeyType \<Rightarrow> bool" where
  "in_hi_le hi k = (case hi of None \<Rightarrow> True | Some b \<Rightarrow> k \<le> b)"

text \<open>The bounds of child \<open>j\<close> of a node with the separator keys \<open>ks\<close>.\<close>

definition blo :: "KeyType option \<Rightarrow> KeyType list \<Rightarrow> nat \<Rightarrow> KeyType option" where
  "blo lo ks j = (if j = 0 then lo else Some (ks ! (j - 1)))"

definition bhi :: "KeyType option \<Rightarrow> KeyType list \<Rightarrow> nat \<Rightarrow> KeyType option" where
  "bhi hi ks j = (if j < length ks then Some (ks ! j) else hi)"

text \<open>
  The children of a node, given as the separator keys \<open>ks\<close> and the child references
  \<open>cs\<close>: one child more than keys, the keys in order and within the node's range, every
  child a subtree for its range (\<open>P\<close>), and the node sets of the children (\<open>T\<close>) disjoint.
\<close>

definition kids :: "(nat \<Rightarrow> KeyType option \<Rightarrow> KeyType option \<Rightarrow> bool) \<Rightarrow> (nat \<Rightarrow> nat set)
    \<Rightarrow> KeyType option \<Rightarrow> KeyType option \<Rightarrow> KeyType list \<Rightarrow> nat list \<Rightarrow> bool" where
  "kids P T lo hi ks cs \<longleftrightarrow>
     length cs = length ks + 1 \<and> sorted ks
     \<and> (\<forall>k \<in> set ks. in_lo lo k \<and> in_hi_le hi k)
     \<and> (\<forall>j < length cs. P (cs ! j) (blo lo ks j) (bhi hi ks j))
     \<and> (\<forall>i j. i < j \<and> j < length cs \<longrightarrow> T (cs ! i) \<inter> T (cs ! j) = {})"

definition internal_ok :: "InternalNode \<Rightarrow> bool" where
  "internal_ok n \<longleftrightarrow>
     numKeys n \<le> MAX_KEYS_INTERNAL \<and> length (keys n) = MAX_KEYS_INTERNAL
     \<and> length (childIndices n) = MAX_KEYS_INTERNAL + 1
     \<and> None \<notin> set (take (numKeys n + 1) (childIndices n))"

definition ichildren :: "InternalNode \<Rightarrow> nat list" where
  "ichildren n = map the (take (numKeys n + 1) (childIndices n))"

text \<open>The nodes, the leaves in order and the records in order of the subtree of height \<open>h\<close> at an offset.\<close>

primrec tnodes :: "Node list \<Rightarrow> nat \<Rightarrow> nat \<Rightarrow> nat set" where
  "tnodes ns 0 = (\<lambda>off. {off})"
| "tnodes ns (Suc h) = (\<lambda>off.
     insert off (case ns ! off of
                   Internal n \<Rightarrow> (\<Union>c \<in> set (ichildren n). tnodes ns h c)
                 | Leaf l \<Rightarrow> {}))"

primrec tleaves :: "Node list \<Rightarrow> nat \<Rightarrow> nat \<Rightarrow> nat list" where
  "tleaves ns 0 = (\<lambda>off. [off])"
| "tleaves ns (Suc h) = (\<lambda>off.
     case ns ! off of
       Internal n \<Rightarrow> concat (map (tleaves ns h) (ichildren n))
     | Leaf l \<Rightarrow> [])"

primrec tentries :: "Node list \<Rightarrow> nat \<Rightarrow> nat \<Rightarrow> (KeyType \<times> ValueType) list" where
  "tentries ns 0 = (\<lambda>off. case ns ! off of Leaf l \<Rightarrow> leaf_records l | Internal n \<Rightarrow> [])"
| "tentries ns (Suc h) = (\<lambda>off.
     case ns ! off of
       Internal n \<Rightarrow> concat (map (tentries ns h) (ichildren n))
     | Leaf l \<Rightarrow> [])"

text \<open>
  The subtree of height \<open>h\<close> at an offset is a well-formed B+ tree for the key range from
  \<open>lo\<close> to \<open>hi\<close>: height 0 is a well-formed leaf with its keys in the range; a higher node is
  an internal node whose children are subtrees of the height below for their ranges, no
  node occurring twice.
\<close>

primrec subtree :: "Node list \<Rightarrow> nat \<Rightarrow> nat \<Rightarrow> KeyType option \<Rightarrow> KeyType option \<Rightarrow> bool" where
  "subtree ns 0 = (\<lambda>off lo hi.
     off < length ns \<and>
     (case ns ! off of
        Leaf l \<Rightarrow> leaf_ok l \<and> (\<forall>k \<in> set (lkeys l). in_lo lo k \<and> in_hi hi k)
      | Internal n \<Rightarrow> False))"
| "subtree ns (Suc h) = (\<lambda>off lo hi.
     off < length ns \<and>
     (case ns ! off of
        Leaf l \<Rightarrow> False
      | Internal n \<Rightarrow>
          internal_ok n \<and> kids (subtree ns h) (tnodes ns h) lo hi (lkeys n) (ichildren n)
          \<and> (\<forall>c \<in> set (ichildren n). off \<notin> tnodes ns h c)))"

text \<open>The leaf chain: every leaf of the list points to the next one, the last one to \<open>nxt\<close>.\<close>

definition next_of :: "Node list \<Rightarrow> nat \<Rightarrow> nat option" where
  "next_of ns off = (case ns ! off of Leaf l \<Rightarrow> nextLeaf l | Internal n \<Rightarrow> None)"

fun chain :: "Node list \<Rightarrow> nat list \<Rightarrow> nat option \<Rightarrow> bool" where
  "chain ns [] nxt = True"
| "chain ns [l] nxt = (next_of ns l = nxt)"
| "chain ns (l # l' # ls) nxt = (next_of ns l = Some l' \<and> chain ns (l' # ls) nxt)"

text \<open>
  The result of an insertion into the subtree at an offset, seen from the parent: the
  separator keys and the children that take the place of the subtree.
\<close>

definition res_keys :: "InsertResult \<Rightarrow> KeyType list" where
  "res_keys res = (if splitted res then [promotedKey res] else [])"

definition res_kids :: "nat \<Rightarrow> InsertResult \<Rightarrow> nat list" where
  "res_kids off res = (if splitted res then [off, newChildOffset res] else [off])"

text \<open>The fan-out bound of a node.\<close>

definition node_bounded :: "Node \<Rightarrow> bool" where
  "node_bounded nd =
     (case nd of
        Leaf l \<Rightarrow> numKeys l \<le> MAX_KEYS_LEAF
      | Internal n \<Rightarrow> numKeys n \<le> MAX_KEYS_INTERNAL)"

text \<open>
  The leaves of a subtree before (\<open>L\<close>) and after (\<open>L'\<close>) an insertion: either the same
  leaves with the same links, or the leaf at a position \<open>p\<close> was split, the new leaf is
  the first node appended to the arena and follows it in the list and in the links.
\<close>

definition leaves_post :: "Node list \<Rightarrow> nat list \<Rightarrow> Node list \<Rightarrow> nat list \<Rightarrow> bool" where
  "leaves_post ns L ns' L' \<longleftrightarrow>
     (L' = L \<and> (\<forall>l \<in> set L. next_of ns' l = next_of ns l))
     \<or> (\<exists>p < length L. L' = ins_at (Suc p) (length ns) L
           \<and> next_of ns' (L ! p) = Some (length ns)
           \<and> next_of ns' (length ns) = next_of ns (L ! p)
           \<and> (\<forall>l \<in> set L. l \<noteq> L ! p \<longrightarrow> next_of ns' l = next_of ns l))"

text \<open>
  The postcondition of \<^verbatim>\<open>insertInternal\<close> on the subtree of height \<open>h\<close> at \<open>off\<close>, from the
  arena \<open>ns\<close> to the arena \<open>ns'\<close> with the result \<open>res\<close>: the arena grows; the nodes outside
  the subtree are untouched; the resulting children are well-formed subtrees for the parts
  of the key range, made of nodes of the old subtree and of new nodes; their records are
  the old records with the key set to the value; the leaves are as described above; and
  the fan-out bound is kept.
\<close>

definition ins_post :: "Node list \<Rightarrow> nat \<Rightarrow> nat \<Rightarrow> KeyType option \<Rightarrow> KeyType option
    \<Rightarrow> KeyType \<Rightarrow> ValueType \<Rightarrow> Node list \<Rightarrow> InsertResult \<Rightarrow> bool" where
  "ins_post ns h off lo hi key val ns' res \<longleftrightarrow>
     length ns \<le> length ns'
     \<and> (\<forall>x < length ns. x \<notin> tnodes ns h off \<longrightarrow> ns' ! x = ns ! x)
     \<and> kids (subtree ns' h) (tnodes ns' h) lo hi (res_keys res) (res_kids off res)
     \<and> (\<forall>c \<in> set (res_kids off res). tnodes ns' h c \<subseteq> tnodes ns h off \<union> {length ns ..< length ns'})
     \<and> set (concat (map (tentries ns' h) (res_kids off res)))
         = upd_set key val (set (tentries ns h off))
     \<and> leaves_post ns (tleaves ns h off) ns' (concat (map (tleaves ns' h) (res_kids off res)))
     \<and> (list_all node_bounded ns \<longrightarrow> list_all node_bounded ns')"

text \<open>
  The invariant of a tree of height \<open>h\<close> with the root \<open>r\<close>: the root subtree is well formed
  for the whole key range, every node of the arena keeps the fan-out bound, and the leaves
  are linked in order, the last one having no successor.
\<close>

definition bt_inv :: "BPlusTree \<Rightarrow> nat \<Rightarrow> nat \<Rightarrow> bool" where
  "bt_inv t h r \<longleftrightarrow>
     rootIndex t = Some r \<and> subtree (nodes t) h r None None
     \<and> list_all node_bounded (nodes t)
     \<and> chain (nodes t) (tleaves (nodes t) h r) None"

section \<open>Bloom filter: no false negatives\<close>

lemma bloom_ok_new: "0 < nb \<Longrightarrow> bloom_ok (new_bloom nb nh)"
  by (simp add: bloom_ok_def new_bloom_def)

lemma GetBlock_ok:
  assumes "bloom_ok f"
  obtains i where "GetBlock H f h = Some i" "i < length (blocks f)"
  using assms by (simp add: bloom_ok_def GetBlock_def)

lemma Insert_ok:
  assumes "bloom_ok f"
  obtains f' where "Insert H f k = Some f'" "bloom_ok f'"
    "num_blocks f' = num_blocks f" "num_hashes f' = num_hashes f"
proof -
  obtain i where i: "GetBlock H f (H k) = Some i" "i < length (blocks f)"
    using assms by (rule GetBlock_ok)
  let ?f' = "f\<lparr>blocks := (blocks f)[i := (blocks f ! i) OR ConstructMask H f (H k)]\<rparr>"
  have "Insert H f k = Some ?f'"
    by (simp add: Insert_def i)
  moreover have "bloom_ok ?f'"
    using assms by (simp add: bloom_ok_def)
  ultimately show thesis
    by (rule that) simp_all
qed

lemma mask_or_keeps: "(b :: 64 word) AND m = m \<Longrightarrow> (b OR m') AND m = m"
  by (rule bit_word_eqI) (auto simp: bit_and_iff bit_or_iff bit_eq_iff)

lemma GetBlock_blocks_update [simp]: "GetBlock H (f\<lparr>blocks := b\<rparr>) h = GetBlock H f h"
  by (simp add: GetBlock_def)

lemma ConstructMask_blocks_update [simp]:
  "ConstructMask H (f\<lparr>blocks := b\<rparr>) h = ConstructMask H f h"
  by (simp add: ConstructMask_def)

lemma Query_after_Insert:
  assumes "bloom_ok f" and "Insert H f k = Some f'"
  shows "Query H f' k = Some True"
proof -
  obtain i where i: "GetBlock H f (H k) = Some i" "i < length (blocks f)"
    using assms(1) by (rule GetBlock_ok)
  have f': "f' = f\<lparr>blocks := (blocks f)[i := (blocks f ! i) OR ConstructMask H f (H k)]\<rparr>"
    using assms(2) by (simp add: Insert_def i)
  have "GetBlock H f' (H k) = Some i"
    by (simp add: f' i(1))
  moreover have "ConstructMask H f' (H k) = ConstructMask H f (H k)"
    by (simp add: f')
  ultimately show ?thesis
    using i(2) by (simp add: Query_def Let_def i(1) f' word_ao_absorbs)
qed

lemma Query_mono:
  assumes "bloom_ok f" and "Query H f k = Some True" and "Insert H f k' = Some f'"
  shows "Query H f' k = Some True"
proof -
  obtain i where i: "GetBlock H f (H k') = Some i" "i < length (blocks f)"
    using assms(1) by (rule GetBlock_ok)
  obtain j where j: "GetBlock H f (H k) = Some j" "j < length (blocks f)"
    using assms(1) by (rule GetBlock_ok)
  have f': "f' = f\<lparr>blocks := (blocks f)[i := (blocks f ! i) OR ConstructMask H f (H k')]\<rparr>"
    using assms(3) by (simp add: Insert_def i)
  have gj: "GetBlock H f' (H k) = Some j"
    by (simp add: f' j(1))
  have cm: "ConstructMask H f' (H k) = ConstructMask H f (H k)"
    by (simp add: f')
  have old: "(blocks f ! j) AND ConstructMask H f (H k) = ConstructMask H f (H k)"
    using assms(2) by (simp add: Query_def Let_def j)
  show ?thesis
  proof (cases "i = j")
    case True
    then show ?thesis
      using old j(2) by (simp add: Query_def Let_def j(1) f' mask_or_keeps)
  next
    case False
    then show ?thesis
      using old by (simp add: Query_def Let_def j(1) f')
  qed
qed

lemma insert_all_ok:
  assumes "bloom_ok f"
  obtains f' where "insert_all H f ks = Some f'" "bloom_ok f'"
    "num_blocks f' = num_blocks f" "num_hashes f' = num_hashes f"
  using assms
proof (induction ks arbitrary: f thesis)
  case Nil
  then show ?case by simp
next
  case (Cons k ks)
  obtain f1 where f1: "Insert H f k = Some f1" "bloom_ok f1"
    "num_blocks f1 = num_blocks f" "num_hashes f1 = num_hashes f"
    using Cons.prems(2) by (rule Insert_ok)
  obtain f2 where f2: "insert_all H f1 ks = Some f2" "bloom_ok f2"
    "num_blocks f2 = num_blocks f1" "num_hashes f2 = num_hashes f1"
    using Cons.IH [OF _ f1(2)] by blast
  show ?case
    by (rule Cons.prems(1) [of f2]) (simp_all add: f1 f2)
qed

lemma insert_all_keeps_Query:
  assumes "bloom_ok f" and "Query H f k = Some True" and "insert_all H f ks = Some f'"
  shows "Query H f' k = Some True"
  using assms
proof (induction ks arbitrary: f)
  case Nil
  then show ?case by simp
next
  case (Cons a ks)
  obtain f1 where f1: "Insert H f a = Some f1" "bloom_ok f1"
    "num_blocks f1 = num_blocks f" "num_hashes f1 = num_hashes f"
    using Cons.prems(1) by (rule Insert_ok)
  have "Query H f1 k = Some True"
    using Cons.prems(1,2) f1(1) by (rule Query_mono)
  moreover have "insert_all H f1 ks = Some f'"
    using Cons.prems(3) by (simp add: f1)
  ultimately show ?case
    using Cons.IH f1(2) by blast
qed

lemma insert_all_member_Query:
  assumes "bloom_ok f" and "k \<in> set ks" and "insert_all H f ks = Some f'"
  shows "Query H f' k = Some True"
  using assms
proof (induction ks arbitrary: f)
  case Nil
  then show ?case by simp
next
  case (Cons a ks)
  obtain f1 where f1: "Insert H f a = Some f1" "bloom_ok f1"
    "num_blocks f1 = num_blocks f" "num_hashes f1 = num_hashes f"
    using Cons.prems(1) by (rule Insert_ok)
  have rest: "insert_all H f1 ks = Some f'"
    using Cons.prems(3) by (simp add: f1)
  show ?case
  proof (cases "k = a")
    case True
    have "Query H f1 k = Some True"
      using Cons.prems(1) f1(1) unfolding True by (rule Query_after_Insert)
    then show ?thesis
      using f1(2) rest by (blast intro: insert_all_keeps_Query)
  next
    case False
    then have "k \<in> set ks"
      using Cons.prems(2) by simp
    then show ?thesis
      using Cons.IH f1(2) rest by blast
  qed
qed


text \<open>
  C7. Bloom filter has no false negatives: on a filter with at least one block, every
  sequence of \<^verbatim>\<open>Insert\<close> calls that includes \<^verbatim>\<open>Insert(k)\<close> succeeds, and a
  subsequent \<^verbatim>\<open>Query(k)\<close> on the resulting filter returns true.
\<close>

theorem bloom_no_false_negatives:
  assumes "0 < num_blocks f0" and "length (blocks f0) = num_blocks f0" and "k \<in> set ks"
  shows "\<exists>f. insert_all H f0 ks = Some f \<and> Query H f k = Some True"
proof -
  have ok: "bloom_ok f0"
    using assms(1,2) by (simp add: bloom_ok_def)
  then obtain f where f: "insert_all H f0 ks = Some f"
    by (rule insert_all_ok)
  have "Query H f k = Some True"
    using ok assms(3) f by (rule insert_all_member_Query)
  with f show ?thesis by blast
qed

theorem bloom_no_false_negatives_witness:
  "0 < num_blocks (new_bloom 512 7)
   \<and> length (blocks (new_bloom 512 7)) = num_blocks (new_bloom 512 7)
   \<and> (20 :: 64 word) \<in> set [10, 20, 30]
   \<and> (\<exists>f. insert_all (\<lambda>x. x) (new_bloom 512 7) [10, 20, 30] = Some f
          \<and> Query (\<lambda>x. x) f 20 = Some True)"
  using bloom_no_false_negatives [of "new_bloom 512 7" 20 "[10, 20, 30]" "\<lambda>x. x"]
  by (simp add: new_bloom_def)

section \<open>SSTable: the key range bounds the data\<close>

lemma fst_set_update: "fst ` set (AList.update k v al) = insert k (fst ` set al)"
  by (induction al) auto

lemma copy_fold_keys:
  "fst ` set (fold (\<lambda>kv t. AList.update (fst kv) (snd kv) t) m t0) = fst ` set m \<union> fst ` set t0"
  by (induction m arbitrary: t0) (auto simp: fst_set_update)

lemma copy_entries_keys: "fst ` set (copy_entries m) = fst ` set m"
  by (simp add: copy_entries_def copy_fold_keys)

lemma copy_entries_nonempty: "m \<noteq> [] \<Longrightarrow> copy_entries m \<noteq> []"
  using copy_entries_keys [of m] by (cases m) auto

lemma scan_fold_bounds:
  assumes "fold (\<lambda>kv (min_k, max_k).
             (if fst kv < min_k then fst kv else min_k,
              if fst kv > max_k then fst kv else max_k)) t (mn0, mx0) = (mn, mx)"
  shows "mn \<le> mn0 \<and> mx0 \<le> mx \<and> (\<forall>k \<in> fst ` set t. mn \<le> (k :: 64 word) \<and> k \<le> mx)"
  using assms
proof (induction t arbitrary: mn0 mx0)
  case Nil
  then show ?case by simp
next
  case (Cons kv t)
  let ?mn1 = "if fst kv < mn0 then fst kv else mn0"
  let ?mx1 = "if fst kv > mx0 then fst kv else mx0"
  have "fold (\<lambda>kv (min_k, max_k).
             (if fst kv < min_k then fst kv else min_k,
              if fst kv > max_k then fst kv else max_k)) t (?mn1, ?mx1) = (mn, mx)"
    using Cons.prems by simp
  from Cons.IH [OF this]
  have ih: "mn \<le> ?mn1" "?mx1 \<le> mx" "\<forall>k \<in> fst ` set t. mn \<le> k \<and> k \<le> mx"
    by blast+
  have a: "?mn1 \<le> mn0" "?mn1 \<le> fst kv" "mx0 \<le> ?mx1" "fst kv \<le> ?mx1"
    by auto
  have "mn \<le> mn0"
    using ih(1) a(1) by (rule order_trans)
  moreover have "mx0 \<le> mx"
    using a(3) ih(2) by (rule order_trans)
  moreover have "mn \<le> fst kv"
    using ih(1) a(2) by (rule order_trans)
  moreover have "fst kv \<le> mx"
    using a(4) ih(2) by (rule order_trans)
  ultimately show ?case
    using ih(3) by simp
qed

lemma scan_min_max_bounds:
  "scan_min_max t = (mn, mx) \<Longrightarrow> \<forall>k \<in> fst ` set t. mn \<le> k \<and> k \<le> mx"
  unfolding scan_min_max_def by (drule scan_fold_bounds) blast

lemma create_fold_state:
  assumes "fold create_step m (t0, mn0, mx0, fk0) = (t, mn, mx, fk)"
    and "\<not> fk0 \<Longrightarrow> \<forall>k \<in> fst ` set t0. mn0 \<le> k \<and> k \<le> mx0"
    and "fk0 \<Longrightarrow> t0 = []"
  shows "fst ` set t = fst ` set m \<union> fst ` set t0
         \<and> (\<forall>k \<in> fst ` set t. mn \<le> k \<and> k \<le> mx)"
  using assms
proof (induction m arbitrary: t0 mn0 mx0 fk0)
  case Nil
  then show ?case by (cases fk0) auto
next
  case (Cons kv m)
  let ?t1 = "AList.update (fst kv) (snd kv) t0"
  let ?mn1 = "if fk0 then fst kv else min mn0 (fst kv)"
  let ?mx1 = "if fk0 then fst kv else max mx0 (fst kv)"
  have step: "fold create_step m (?t1, ?mn1, ?mx1, False) = (t, mn, mx, fk)"
    using Cons.prems(1) by (cases fk0) simp_all
  have bnd: "\<forall>k \<in> fst ` set ?t1. ?mn1 \<le> k \<and> k \<le> ?mx1"
  proof (cases fk0)
    case True
    then show ?thesis
      using Cons.prems(3) by simp
  next
    case False
    then have old: "\<forall>k \<in> fst ` set t0. mn0 \<le> k \<and> k \<le> mx0"
      using Cons.prems(2) by simp
    have "min mn0 (fst kv) \<le> k \<and> k \<le> max mx0 (fst kv)" if "k \<in> fst ` set ?t1" for k
    proof -
      have "k = fst kv \<or> k \<in> fst ` set t0"
        using that by (simp add: fst_set_update)
      then show ?thesis
        using old by (auto simp: min_le_iff_disj le_max_iff_disj)
    qed
    then show ?thesis
      using False by simp
  qed
  have "fst ` set t = fst ` set m \<union> fst ` set ?t1
        \<and> (\<forall>k \<in> fst ` set t. mn \<le> k \<and> k \<le> mx)"
    using step bnd by (rule Cons.IH) simp
  then have A: "fst ` set t = fst ` set m \<union> fst ` set ?t1"
    and B: "\<forall>k \<in> fst ` set t. mn \<le> k \<and> k \<le> mx"
    by blast+
  have eq: "fst ` set m \<union> fst ` set ?t1 = fst ` set (kv # m) \<union> fst ` set t0"
    by (auto simp: fst_set_update)
  show ?case
  proof (intro conjI)
    show "fst ` set t = fst ` set (kv # m) \<union> fst ` set t0"
      by (simp only: A eq)
    show "\<forall>k \<in> fst ` set t. mn \<le> k \<and> k \<le> mx"
      by (rule B)
  qed
qed

lemma create_from_memtable_lsm_Some:
  assumes "m \<noteq> []"
  obtains sst where "create_from_memtable_lsm m i = Some sst" "sst_bounded sst"
    "data sst = copy_entries m" "sst_id sst = i"
proof -
  obtain mn mx where mm: "scan_min_max (copy_entries m) = (mn, mx)"
    by (cases "scan_min_max (copy_entries m)")
  let ?sst = "new_SSTable_lsm i mn mx (copy_entries m)"
  have "create_from_memtable_lsm m i = Some ?sst"
    using assms by (simp add: create_from_memtable_lsm_def mm)
  moreover have "sst_bounded ?sst"
    using scan_min_max_bounds [OF mm] by (simp add: sst_bounded_def new_SSTable_lsm_def)
  ultimately show thesis
    by (rule that) (simp_all add: new_SSTable_lsm_def)
qed

lemma create_fold_map:
  "fold create_step m (t0, mn0, mx0, fk0) = (t, mn, mx, fk)
   \<Longrightarrow> t = fold (\<lambda>kv t. AList.update (fst kv) (snd kv) t) m t0"
  by (induction m arbitrary: t0 mn0 mx0 fk0) auto

lemma create_from_memtable_Some:
  assumes "m \<noteq> []"
  obtains sst where "create_from_memtable H m i = Some sst" "sst_bounded sst"
    "data sst = copy_entries m" "sst_id sst = i"
    "bloom sst = (case insert_all H (new_bloom 512 7) (map fst (copy_entries m)) of
                    Some b \<Rightarrow> b | None \<Rightarrow> new_bloom 512 7)"
proof -
  obtain t mn mx fk where st: "fold create_step m ([], - 1, 0, True) = (t, mn, mx, fk)"
    by (cases "fold create_step m ([], - 1, 0, True)")
  have t: "t = copy_entries m"
    using create_fold_map [OF st] by (simp add: copy_entries_def)
  have "fst ` set t = fst ` set m \<union> fst ` set ([] :: MemTable)
        \<and> (\<forall>k \<in> fst ` set t. mn \<le> k \<and> k \<le> mx)"
    by (rule create_fold_state [OF st]) simp_all
  then have bnd: "\<forall>k \<in> fst ` set t. mn \<le> k \<and> k \<le> mx"
    by blast
  let ?sst = "new_SSTable H i mn mx t"
  have "t \<noteq> []"
    using assms by (simp add: t copy_entries_nonempty)
  then have "create_from_memtable H m i = Some ?sst"
    using assms by (simp add: create_from_memtable_def st)
  moreover have "sst_bounded ?sst"
    using bnd by (simp add: sst_bounded_def new_SSTable_def)
  ultimately show thesis
    by (rule that) (simp_all add: new_SSTable_def t)
qed

lemma sst_bounded_present:
  assumes "sst_bounded sst" and "map_of (data sst) k = Some v"
  shows "\<not> (k < min_key sst \<or> k > max_key sst)"
proof -
  have "k \<in> fst ` set (data sst)"
    using assms(2) by (metis domI dom_map_of_conv_image_fst)
  then have "min_key sst \<le> k \<and> k \<le> max_key sst"
    using assms(1) unfolding sst_bounded_def by blast
  then show ?thesis
    by (simp add: not_less)
qed

section \<open>Learned index: segmentation\<close>


lemma num_segments_for_small: "n < 512 \<Longrightarrow> num_segments_for n = 1"
  by (simp add: num_segments_for_def LEARNED_INDEX_MIN_KEYS_FOR_MULTISEGMENT_def
      LEARNED_INDEX_TARGET_KEYS_PER_SEGMENT_def)

lemma num_segments_for_large:
  assumes "512 \<le> n" and "n < 2 ^ 32"
  shows "num_segments_for n = (n + 255) div 256"
proof -
  have "n + 255 < (2 :: nat) ^ 64"
    using assms(2) by simp
  then have "(n + 255) mod 2 ^ 64 = n + 255"
    by simp
  moreover have "1 \<le> (n + 255) div 256"
    using assms(1) by simp
  ultimately show ?thesis
    using assms(1)
    by (simp add: num_segments_for_def LEARNED_INDEX_MIN_KEYS_FOR_MULTISEGMENT_def
        LEARNED_INDEX_TARGET_KEYS_PER_SEGMENT_def max_def add.commute)
qed

lemma num_segments_for_bounds:
  assumes "0 < n" and "n < 2 ^ 32"
  shows "0 < num_segments_for n" and "num_segments_for n \<le> n"
proof -
  show "0 < num_segments_for n"
    by (simp add: num_segments_for_def max_def)
  show "num_segments_for n \<le> n"
  proof (cases "n < 512")
    case True
    then show ?thesis
      using assms(1) by (simp add: num_segments_for_small)
  next
    case False
    then have "num_segments_for n = (n + 255) div 256"
      using assms(2) by (simp add: num_segments_for_large)
    also have "\<dots> \<le> n"
      using False by simp
    finally show ?thesis .
  qed
qed

lemma seg_start_step:
  assumes "0 < S" and "S \<le> N"
  shows "seg_start N S i < seg_start N S (i + 1)"
proof -
  have "(i * N + S) div S = i * N div S + 1"
    using assms(1) by (subst div_add_self2) simp_all
  then have "i * N div S + 1 = (i * N + S) div S"
    by simp
  also have "\<dots> \<le> (i * N + N) div S"
    using assms(2) by (intro div_le_mono) simp
  finally show ?thesis
    by (simp add: seg_start_def add.commute)
qed

lemma seg_start_mono:
  "i \<le> j \<Longrightarrow> seg_start N S i \<le> seg_start N S j"
  by (simp add: seg_start_def div_le_mono)

lemma seg_start_last: "0 < S \<Longrightarrow> seg_start N S S = N"
  by (simp add: seg_start_def)

lemma seg_start_0: "seg_start N S 0 = 0"
  by (simp add: seg_start_def)


lemma prod_small:
  assumes "a \<le> b" and "b < 2 ^ 32" and "N < 2 ^ 32"
  shows "a * N < (2 :: nat) ^ 64"
proof -
  have "a * N \<le> b * N"
    using assms(1) by (rule mult_le_mono1)
  also have "\<dots> < 2 ^ 32 * 2 ^ 32"
    using assms(2,3) by (intro mult_strict_mono) simp_all
  finally show ?thesis
    by simp
qed

lemma take_drop_upt: "st + len \<le> N \<Longrightarrow> take len (drop st [0 ..< N]) = [st ..< st + len]"
  by (simp add: take_upt drop_upt)

lemma train_segment_eq:
  assumes "0 < S" and "S \<le> length skeys" and "length skeys < 2 ^ 32" and "i < S"
  shows "train_segment F skeys [0 ..< length skeys] S i segs = segs @ [seg_of F skeys S i]"
proof -
  let ?N = "length skeys"
  let ?st = "seg_start ?N S i"
  let ?len = "seg_len ?N S i"
  have S32: "S < 2 ^ 32"
    using assms(2,3) by simp
  have p1: "(i * ?N) mod 2 ^ 64 = i * ?N"
    using prod_small [of i S ?N] assms(4) S32 assms(3) by simp
  have p2: "((i + 1) * ?N) mod 2 ^ 64 = (i + 1) * ?N"
    using prod_small [of "i + 1" S ?N] assms(4) S32 assms(3) by simp
  have lt: "?st < seg_start ?N S (i + 1)"
    using assms(1,2) by (rule seg_start_step)
  have le: "seg_start ?N S (i + 1) \<le> ?N"
    using seg_start_mono [of "i + 1" S ?N S] assms(1,4) by (simp add: seg_start_last)
  have endo: "(if i = S - 1 then ?N else ((i + 1) * ?N) mod 2 ^ 64 div S) = seg_start ?N S (i + 1)"
  proof (cases "i = S - 1")
    case True
    then have "i + 1 = S"
      using assms(1) by simp
    then show ?thesis
      using True assms(1) by (simp add: seg_start_last)
  next
    case False
    then show ?thesis
      using p2 by (simp add: seg_start_def)
  qed
  have cnt: "(seg_start ?N S (i + 1) + 2 ^ 64 - ?st) mod 2 ^ 64 = ?len"
  proof -
    have "seg_start ?N S (i + 1) + 2 ^ 64 - ?st = ?len + 2 ^ 64"
      using lt by (simp add: seg_len_def)
    moreover have "?len < 2 ^ 64"
    proof -
      have "?len \<le> ?N"
        using le by (simp add: seg_len_def)
      also have "\<dots> < 2 ^ 64"
        using assms(3) by (rule less_trans) simp
      finally show ?thesis .
    qed
    ultimately show ?thesis
      by simp
  qed
  have len0: "0 < ?len"
    using lt by (simp add: seg_len_def)
  have fits: "?st + ?len \<le> ?N"
    using lt le by (simp add: seg_len_def)
  have ne: "take ?len (drop ?st skeys) \<noteq> []"
    using len0 fits by simp
  have gi: "[0 ..< ?N] ! ?st = ?st"
    using len0 fits by simp
  have sl: "take ?len (drop ?st [0 ..< ?N]) = [?st ..< ?st + ?len]"
    using fits by (rule take_drop_upt)
  have st: "(i * ?N) mod 2 ^ 64 div S = ?st"
    using p1 by (simp add: seg_start_def)
  show ?thesis
    unfolding train_segment_def Let_def st endo cnt
    using len0 ne gi sl
    by (simp add: train_linear_model_def seg_of_def Let_def)
qed

lemma train_fold_eq:
  assumes "0 < S" and "S \<le> length skeys" and "length skeys < 2 ^ 32" and "k \<le> S"
  shows "fold (train_segment F skeys [0 ..< length skeys] S) [0 ..< k] segs
         = segs @ map (seg_of F skeys S) [0 ..< k]"
  using assms(4)
proof (induction k)
  case 0
  then show ?case by simp
next
  case (Suc k)
  then have "k < S" "k \<le> S"
    by simp_all
  then show ?case
    using Suc.IH train_segment_eq [OF assms(1,2,3), of k F]
    by simp
qed

lemma slices_concat:
  assumes "\<And>i. i < k \<Longrightarrow> b i \<le> b (i + 1)" and "b 0 = 0"
  shows "concat (map (\<lambda>i. take (b (i + 1) - b i) (drop (b i) xs)) [0 ..< k]) = take (b k) xs"
  using assms(1)
proof (induction k)
  case 0
  then show ?case by (simp add: assms(2))
next
  case (Suc k)
  have "b k \<le> b (k + 1)"
    using Suc.prems by simp
  then have "take (b (k + 1)) xs = take (b k) xs @ take (b (k + 1) - b k) (drop (b k) xs)"
    by (metis le_add_diff_inverse take_add)
  then show ?case
    using Suc by simp
qed


lemma train_segments_eq:
  assumes "skeys \<noteq> []" and "length skeys < 2 ^ 32"
  shows "segments (train F li skeys)
         = map (seg_of F skeys (num_segments_for (length skeys))) [0 ..< num_segments_for (length skeys)]"
    and "model_trained (train F li skeys)"
proof -
  let ?S = "num_segments_for (length skeys)"
  have N: "0 < length skeys"
    using assms(1) by simp
  have S: "0 < ?S" "?S \<le> length skeys"
    using num_segments_for_bounds [OF N assms(2)] by simp_all
  have fold_eq: "fold (train_segment F skeys [0 ..< length skeys] ?S) [0 ..< ?S] []
                 = map (seg_of F skeys ?S) [0 ..< ?S]"
    using train_fold_eq [OF S assms(2), of ?S F "[]"] by simp
  show "segments (train F li skeys) = map (seg_of F skeys ?S) [0 ..< ?S]"
    using assms(1) by (simp add: train_def Let_def fold_eq)
  have "map (seg_of F skeys ?S) [0 ..< ?S] \<noteq> []"
    using S(1) by simp
  then show "model_trained (train F li skeys)"
    using assms(1) by (simp add: train_def Let_def fold_eq)
qed

text \<open>
  C9 as amended. For every non-empty key vector of \<open>N < 2 ^ 32\<close> skeys, \<^verbatim>\<open>train\<close> forms
  \<open>S\<close> segments, where \<open>S = 1\<close> when \<open>N < 512\<close>
  (\<^verbatim>\<open>LEARNED_INDEX_MIN_KEYS_FOR_MULTISEGMENT\<close>) and \<open>S = \<lceil>N / 256\<rceil>\<close> otherwise; \<open>S\<close> is at
  least 1; segment \<open>i\<close> is fitted on the non-empty contiguous slice of the skeys that
  starts at \<open>i * N div S\<close> and ends before \<open>(i + 1) * N div S\<close>, and the slices together are
  the whole vector.
\<close>

theorem train_segmentation:
  assumes "skeys \<noteq> []" and "length skeys < 2 ^ 32"
  shows "let N = length skeys;
             S = (if N < 512 then 1 else (N + 255) div 256)
         in length (segments (train F li skeys)) = S
            \<and> 1 \<le> S
            \<and> (\<forall>i < S. segments (train F li skeys) ! i = seg_of F skeys S i \<and> 0 < seg_len N S i)
            \<and> concat (map (\<lambda>i. take (seg_len N S i) (drop (seg_start N S i) skeys)) [0 ..< S]) = skeys"
proof -
  let ?N = "length skeys"
  let ?S = "num_segments_for ?N"
  have N: "0 < ?N"
    using assms(1) by simp
  have S: "0 < ?S" "?S \<le> ?N"
    using num_segments_for_bounds [OF N assms(2)] by simp_all
  have Seq: "?S = (if ?N < 512 then 1 else (?N + 255) div 256)"
    using assms(2) by (simp add: num_segments_for_small num_segments_for_large)
  have segs: "segments (train F li skeys) = map (seg_of F skeys ?S) [0 ..< ?S]"
    using assms by (rule train_segments_eq)
  have len: "length (segments (train F li skeys)) = ?S"
    by (simp add: segs)
  have nth: "segments (train F li skeys) ! i = seg_of F skeys ?S i \<and> 0 < seg_len ?N ?S i" if "i < ?S" for i
    using that seg_start_step [OF S, of i] by (simp add: segs seg_len_def)
  have "concat (map (\<lambda>i. take (seg_start ?N ?S (i + 1) - seg_start ?N ?S i)
                              (drop (seg_start ?N ?S i) skeys)) [0 ..< ?S])
        = take (seg_start ?N ?S ?S) skeys"
    by (rule slices_concat) (simp_all add: seg_start_mono seg_start_0)
  then have cc: "concat (map (\<lambda>i. take (seg_len ?N ?S i) (drop (seg_start ?N ?S i) skeys)) [0 ..< ?S]) = skeys"
    using S(1) by (simp add: seg_len_def seg_start_last)
  have "length (segments (train F li skeys)) = ?S
        \<and> 1 \<le> ?S
        \<and> (\<forall>i < ?S. segments (train F li skeys) ! i = seg_of F skeys ?S i \<and> 0 < seg_len ?N ?S i)
        \<and> concat (map (\<lambda>i. take (seg_len ?N ?S i) (drop (seg_start ?N ?S i) skeys)) [0 ..< ?S]) = skeys"
    using len S(1) nth cc by simp
  then show ?thesis
    unfolding Let_def Seq [symmetric] .
qed

theorem train_segmentation_witness:
  "replicate 600 (0 :: KeyType) \<noteq> []
   \<and> length (replicate 600 (0 :: KeyType)) < 2 ^ 32
   \<and> length (segments (train unit_fit new_LearnedIndex (replicate 600 0))) = 3"
  using train_segmentation [of "replicate 600 0" unit_fit new_LearnedIndex]
  by (simp add: Let_def)

lemma sorted_keys_upto:
  assumes "n < 2 ^ 64"
  shows "sorted (map word_of_nat [0 ..< n] :: KeyType list)"
proof -
  have "take_bit 64 i \<le> take_bit 64 j" if "i < j" "j < n" for i j :: nat
  proof -
    have "i < 2 ^ 64" "j < 2 ^ 64"
      using that assms by simp_all
    then have "take_bit 64 i = i" "take_bit 64 j = j"
      by (simp_all add: take_bit_nat_eq_self)
    then show ?thesis
      using that(1) by simp
  qed
  then show ?thesis
    by (simp add: sorted_map sorted_wrt_iff_nth_less word_of_nat_less_eq_iff)
qed

text \<open>
  C9 as stated fails: 300 sorted skeys are trained as one segment, not as
  \<open>\<lceil>300 / 256\<rceil> = 2\<close>.
\<close>

theorem train_segmentation_counterexample:
  "map word_of_nat [0 ..< 300] \<noteq> ([] :: KeyType list)
   \<and> sorted (map word_of_nat [0 ..< 300] :: KeyType list)
   \<and> length (segments (train unit_fit new_LearnedIndex (map word_of_nat [0 ..< 300]))) = 1
   \<and> (length (map word_of_nat [0 ..< 300] :: KeyType list) + 255) div 256 = 2"
proof -
  have "length (segments (train unit_fit new_LearnedIndex (map word_of_nat [0 ..< 300])))
        = num_segments_for 300"
    using train_segments_eq(1) [of "map word_of_nat [0 ..< 300]" unit_fit new_LearnedIndex] by simp
  moreover have "sorted (map word_of_nat [0 ..< 300] :: KeyType list)"
    by (rule sorted_keys_upto) simp
  ultimately show ?thesis
    by (simp add: num_segments_for_small)
qed

section \<open>Learned index: evaluation of the fit in floating point\<close>

text \<open>Evaluation rules for the rounding, restricted to literals.\<close>

lemma floor_rat_numeral:
  "\<lfloor>numeral a / numeral b :: rat\<rfloor> = numeral a div numeral b"
  "\<lfloor>- (numeral a / numeral b) :: rat\<rfloor> = - numeral a div numeral b"
  using floor_divide_of_int_eq [of "numeral a" "numeral b", where ?'a = rat]
    floor_divide_of_int_eq [of "- numeral a" "numeral b", where ?'a = rat]
  by simp_all

lemma ceiling_rat_numeral:
  "\<lceil>numeral a / numeral b :: rat\<rceil> = - (- numeral a div numeral b)"
  "\<lceil>- (numeral a / numeral b) :: rat\<rceil> = - (numeral a div numeral b)"
  by (simp_all add: ceiling_def floor_rat_numeral)

lemma bit_length_numeral:
  "bit_length 0 = 0"
  "bit_length (Suc 0) = 1"
  "bit_length 1 = 1"
  "bit_length (numeral Num.One) = 1"
  "bit_length (numeral (Num.Bit0 n)) = 1 + bit_length (numeral n)"
  "bit_length (numeral (Num.Bit1 n)) = 1 + bit_length (numeral n)"
proof -
  show "bit_length 0 = 0"
    by (simp add: bit_length.simps)
  have "bit_length (Suc 0) = Suc (bit_length 0)"
    by (subst bit_length.simps) simp
  then show "bit_length (Suc 0) = 1"
    by (simp add: bit_length.simps [of 0])
  then show "bit_length 1 = 1" "bit_length (numeral Num.One) = 1"
    by simp_all
  have "numeral (Num.Bit0 n) div 2 = (numeral n :: nat)"
    by simp
  then show "bit_length (numeral (Num.Bit0 n)) = 1 + bit_length (numeral n)"
    by (subst bit_length.simps) simp
  have "numeral (Num.Bit1 n) div 2 = (numeral n :: nat)"
    by simp
  then show "bit_length (numeral (Num.Bit1 n)) = 1 + bit_length (numeral n)"
    by (subst bit_length.simps) simp
qed

lemmas pow2_lit = pow2_def [of 0] pow2_def [of 1] pow2_def [of "numeral a"]
  pow2_def [of "- numeral a"] pow2_def [of "- 1"] for a

lemmas round_to_lit = round_to_def [of p 0] round_to_def [of p 1] round_to_def [of p "- 1"]
  round_to_def [of p "numeral a"] round_to_def [of p "- numeral a"]
  round_to_def [of p "numeral a / numeral b"] round_to_def [of p "- (numeral a / numeral b)"]
  round_to_def [of p "1 / numeral b"] round_to_def [of p "- (1 / numeral b)"] for p a b

lemmas floor_log2_lit = floor_log2_def [of 1] floor_log2_def [of "numeral a"]
  floor_log2_def [of "numeral a / numeral b"] floor_log2_def [of "1 / numeral b"] for a b

lemmas round_half_even_lit = round_half_even_def [of 0] round_half_even_def [of 1]
  round_half_even_def [of "- 1"]
  round_half_even_def [of "numeral a"] round_half_even_def [of "- numeral a"]
  round_half_even_def [of "numeral a / numeral b"]
  round_half_even_def [of "- (numeral a / numeral b)"]
  round_half_even_def [of "1 / numeral b"] round_half_even_def [of "- (1 / numeral b)"] for a b

lemmas fl_eval = round_to_lit floor_log2_lit round_half_even_lit pow2_lit bit_length_numeral
  Let_def floor_rat_numeral ceiling_rat_numeral

lemma round_to_tenth: "round_to 53 (1/10) = 3602879701896397 / 36028797018963968"
  by (simp add: fl_eval)

lemma round_to_negative: "round_to 53 (- 10 / 3) = - (7505999378950827 / 2251799813685248)"
  by (simp add: fl_eval)

lemma round_to_ties: "round_to 53 (2 ^ 53 + 1) = 2 ^ 53" "round_to 53 (2 ^ 53 + 3) = 2 ^ 53 + 4"
  by (simp_all add: fl_eval)

lemmas fp_defs = to_double_def to_long_double_def key_double_def key_long_double_def
  size_double_def size_long_double_def

lemma upt11: "[0 ..< 11] = [0, 1, 2, 3, 4, 5, 6, 7, 8, 9, 10 :: nat]"
  by (simp add: upt_rec)

lemma sums_value: "accumulate_sums fit_keys [0 ..< 11] = (270, 55, 1774, 8370)"
  unfolding upt11
  by (simp add: accumulate_sums_def fit_keys_def fp_defs fl_eval)

lemma residual_value:
  "residual_max (547855729318101 / 2251799813685248) (- (8753475332072229 / 9007199254740992))
      fit_keys [0 ..< 11] = 1398300729374501 / 1125899906842624"
  unfolding upt11
  by (simp add: residual_max_def fit_keys_def fp_defs fl_eval)

lemma fit_value:
  "train_linear_model_fit fit_keys [0 ..< 11]
   = \<lparr>slope = 547855729318101 / 2251799813685248,
      intercept = - (8753475332072229 / 9007199254740992),
      max_abs_error = 1398300729374501 / 1125899906842624\<rparr>"
proof -
  have len: "length fit_keys = 11" and ends: "hd fit_keys = 2" "last fit_keys = 42"
    by (simp_all add: fit_keys_def)
  show ?thesis
    unfolding train_linear_model_fit_def len ends sums_value
    by (simp add: LEARNED_INDEX_MIN_KEYS_PER_SEGMENT_TRAINING_def residual_value fp_defs fl_eval)
qed

lemma trained_value:
  "train train_linear_model_fit new_LearnedIndex fit_keys
   = \<lparr>segments =
        [\<lparr>first_key = 2,
          model = \<lparr>slope = 547855729318101 / 2251799813685248,
                    intercept = - (8753475332072229 / 9007199254740992),
                    max_abs_error = 1398300729374501 / 1125899906842624\<rparr>,
          start_index_global = 0, num_keys_in_segment = 11\<rparr>],
      model_trained = True, min_overall_key = 2, max_overall_key = 42,
      total_keys_trained_on = 11\<rparr>"
proof -
  have len: "length fit_keys = 11" and ends: "hd fit_keys = 2" "last fit_keys = 42"
    and ne: "fit_keys \<noteq> []" and fst: "fit_keys ! 0 = 2"
    by (simp_all add: fit_keys_def)
  have n1: "num_segments_for 11 = 1"
    by (rule num_segments_for_small) simp
  have seg: "train_segment train_linear_model_fit fit_keys [0 ..< 11] (Suc 0) 0 []
      = [\<lparr>first_key = 2,
          model = \<lparr>slope = 547855729318101 / 2251799813685248,
                    intercept = - (8753475332072229 / 9007199254740992),
                    max_abs_error = 1398300729374501 / 1125899906842624\<rparr>,
          start_index_global = 0, num_keys_in_segment = 11\<rparr>]"
    by (simp add: train_segment_def train_linear_model_def len ne fst fit_value)
  show ?thesis
    by (simp add: train_def len ne ends n1 seg new_LearnedIndex_def Let_def)
qed

text \<open>
  C8. The learned index does have a false negative on its training set. \<^verbatim>\<open>train\<close> on the
  eleven sorted keys 2, 3, 17, 21, 24, 25, 31, 32, 34, 39, 42 fits one segment; for the
  key 3, which is at position 1, \<^verbatim>\<open>predict_index_range\<close> returns true with the range
  \<open>[0, 0]\<close>. The error bound \<^verbatim>\<open>max_abs_error\<close> is the rounded residual of that very key,
  and the rounded sum \<^verbatim>\<open>predicted_idx_double + error_bound\<close> is just below 1, so the
  \<^verbatim>\<open>floor\<close> drops the position.
\<close>

theorem learned_index_false_negative:
  "sorted_wrt (<) fit_keys \<and> fit_keys ! 1 = 3
   \<and> predict_index_range (train train_linear_model_fit new_LearnedIndex fit_keys) 3
       = Some (True, 0, 0)"
proof (intro conjI)
  show "sorted_wrt (<) fit_keys" "fit_keys ! 1 = 3"
    by (simp_all add: fit_keys_def)
  show "predict_index_range (train train_linear_model_fit new_LearnedIndex fit_keys) 3
       = Some (True, 0, 0)"
    unfolding trained_value
    by (simp add: predict_index_range_def upper_bound_segments_def double_to_int_def
        fp_defs fl_eval)
qed

theorem learned_index_false_negative_witness:
  "\<exists>ks i lo hi. sorted_wrt (<) ks \<and> i < length ks
     \<and> predict_index_range (train train_linear_model_fit new_LearnedIndex ks) (ks ! i)
         = Some (True, lo, hi)
     \<and> \<not> (lo \<le> int i \<and> int i \<le> hi)"
proof -
  have "sorted_wrt (<) fit_keys \<and> 1 < length fit_keys
     \<and> predict_index_range (train train_linear_model_fit new_LearnedIndex fit_keys) (fit_keys ! 1)
         = Some (True, 0, 0)
     \<and> \<not> ((0 :: int) \<le> int 1 \<and> int 1 \<le> 0)"
    using learned_index_false_negative by (simp add: fit_keys_def)
  then show ?thesis
    by blast
qed

section \<open>LSM tree: compaction strips tombstones\<close>

lemma fold_delete_filter:
  "fold AList.delete ks m = filter (\<lambda>kv. fst kv \<notin> set ks) m"
proof (induction ks arbitrary: m)
  case Nil
  then show ?case by simp
next
  case (Cons k ks)
  have "AList.delete k m = filter (\<lambda>kv. fst kv \<noteq> k) m"
    by (induction m) auto
  then show ?case
    using Cons.IH [of "AList.delete k m"] by (simp add: conj_commute)
qed

lemma tombstone_free_Nil [simp]: "tombstone_free []"
  by (simp add: tombstone_free_def)

lemma erase_tombstones_free: "tombstone_free (erase_tombstones m)"
  unfolding tombstone_free_def erase_tombstones_def Let_def fold_delete_filter
  by force

lemma set_update_subset: "set (AList.update k v al) \<subseteq> insert (k, v) (set al)"
  by (induction al) auto

lemma tombstone_free_update:
  "tombstone_free m \<Longrightarrow> v \<noteq> TOMBSTONE_VALUE \<Longrightarrow> tombstone_free (AList.update k v m)"
  unfolding tombstone_free_def using set_update_subset [of k v m] by auto

lemma tombstone_free_copy_fold:
  "tombstone_free m \<Longrightarrow> tombstone_free t0
   \<Longrightarrow> tombstone_free (fold (\<lambda>kv t. AList.update (fst kv) (snd kv) t) m t0)"
proof (induction m arbitrary: t0)
  case Nil
  then show ?case by simp
next
  case (Cons kv m)
  have "tombstone_free (AList.update (fst kv) (snd kv) t0)"
    using Cons.prems by (intro tombstone_free_update) (simp_all add: tombstone_free_def)
  moreover have "tombstone_free m"
    using Cons.prems(1) by (simp add: tombstone_free_def)
  ultimately show ?case
    using Cons.IH by simp
qed

lemma tombstone_free_copy_entries: "tombstone_free m \<Longrightarrow> tombstone_free (copy_entries m)"
  unfolding copy_entries_def by (rule tombstone_free_copy_fold) (simp_all add: tombstone_free_def)

lemma create_from_memtable_data:
  assumes "create_from_memtable H m i = Some sst"
  shows "data sst = copy_entries m" and "sst_id sst = i" and "sst_bounded sst" and "m \<noteq> []"
proof -
  show ne: "m \<noteq> []"
    using assms by (auto simp: create_from_memtable_def)
  obtain sst' where s: "create_from_memtable H m i = Some sst'" "sst_bounded sst'"
    "data sst' = copy_entries m" "sst_id sst' = i"
    using ne by (rule create_from_memtable_Some)
  then have "sst' = sst"
    using assms by simp
  with s show "data sst = copy_entries m" "sst_id sst = i" "sst_bounded sst"
    by simp_all
qed

lemma partition_fold_free:
  assumes "fold (partition_step H c) m (b0, n0, i0) = (b, n, i)"
    and "tombstone_free m" and "tombstone_free b0" and "\<forall>sst \<in> set n0. tombstone_free (data sst)"
  shows "tombstone_free b \<and> (\<forall>sst \<in> set n. tombstone_free (data sst))"
  using assms
proof (induction m arbitrary: b0 n0 i0)
  case Nil
  then show ?case by simp
next
  case (Cons kv m)
  let ?b1 = "AList.update (fst kv) (snd kv) b0"
  have b1: "tombstone_free ?b1"
    using Cons.prems(2,3) by (intro tombstone_free_update) (simp_all add: tombstone_free_def)
  have m: "tombstone_free m"
    using Cons.prems(2) by (simp add: tombstone_free_def)
  obtain b' n' i' where st: "partition_step H c kv (b0, n0, i0) = (b', n', i')"
    by (cases "partition_step H c kv (b0, n0, i0)")
  have "tombstone_free b' \<and> (\<forall>sst \<in> set n'. tombstone_free (data sst))"
  proof (cases "length ?b1 \<ge> c")
    case False
    then show ?thesis
      using st b1 Cons.prems(4) by (auto simp: Let_def)
  next
    case True
    show ?thesis
    proof (cases "create_from_memtable H ?b1 i0")
      case None
      then show ?thesis
        using st True Cons.prems(4) by (auto simp: Let_def)
    next
      case (Some sst)
      have "tombstone_free (data sst)"
        using create_from_memtable_data(1) [OF Some] b1 by (simp add: tombstone_free_copy_entries)
      then show ?thesis
        using st True Some Cons.prems(4) by (auto simp: Let_def)
    qed
  qed
  moreover have "fold (partition_step H c) m (b', n', i') = (b, n, i)"
    using Cons.prems(1) st by simp
  ultimately show ?case
    using Cons.IH m by blast
qed

lemma build_new_ssts_free:
  assumes "build_new_ssts H c m i0 = (n, i)" and "tombstone_free m"
  shows "\<forall>sst \<in> set n. tombstone_free (data sst)"
proof (cases "m = []")
  case True
  then show ?thesis
    using assms(1) by (auto simp: build_new_ssts_def)
next
  case False
  obtain b1 n1 i1 where st: "fold (partition_step H c) m ([], [], i0) = (b1, n1, i1)"
    by (cases "fold (partition_step H c) m ([], [], i0)")
  have inv: "tombstone_free b1" "\<forall>sst \<in> set n1. tombstone_free (data sst)"
    using partition_fold_free [OF st assms(2)] by simp_all
  show ?thesis
  proof (cases "b1 \<noteq> []")
    case False
    then show ?thesis
      using assms(1) \<open>m \<noteq> []\<close> st inv by (auto simp: build_new_ssts_def)
  next
    case True
    show ?thesis
    proof (cases "create_from_memtable H b1 i1")
      case None
      then show ?thesis
        using assms(1) \<open>m \<noteq> []\<close> st inv True by (auto simp: build_new_ssts_def)
    next
      case (Some sst)
      have "tombstone_free (data sst)"
        using create_from_memtable_data(1) [OF Some] inv(1) by (simp add: tombstone_free_copy_entries)
      then show ?thesis
        using assms(1) \<open>m \<noteq> []\<close> st inv True Some by (auto simp: build_new_ssts_def)
    qed
  qed
qed

lemma set_sort_key_append: "set (sort_key f (xs @ ys)) = set xs \<union> set ys"
  by simp

lemma compact_target_level:
  assumes "length (levels t) = max_levels t" and "i + 1 < max_levels t" and "src \<noteq> []"
  shows "\<exists>news next'.
           build_new_ssts H (sstable_target_entry_count t)
             (erase_tombstones (load_map_from_sst_list src (load_map_from_sst_list tgt [])))
             (next_sstable_id t) = (news, next')
           \<and> levels (compact_sstables H t i src tgt) ! (i + 1)
               = sort_key (\<lambda>sst. (min_key sst, sst_id sst))
                   (remove_compacted_ssts (levels t ! (i + 1)) tgt @ news)"
proof -
  obtain news next' where b:
    "build_new_ssts H (sstable_target_entry_count t)
       (erase_tombstones (load_map_from_sst_list src (load_map_from_sst_list tgt [])))
       (next_sstable_id t) = (news, next')"
    by (cases "build_new_ssts H (sstable_target_entry_count t)
       (erase_tombstones (load_map_from_sst_list src (load_map_from_sst_list tgt [])))
       (next_sstable_id t)")
  have "levels (compact_sstables H t i src tgt) ! (i + 1)
        = sort_key (\<lambda>sst. (min_key sst, sst_id sst))
            (remove_compacted_ssts (levels t ! (i + 1)) tgt @ news)"
    using assms by (simp add: compact_sstables_def Let_def b)
  with b show ?thesis
    by blast
qed

text \<open>
  C2. Every compaction of level \<open>i\<close> into level \<open>i + 1\<close> (with \<open>i + 1 < max_levels\<close>)
  strips all tombstones before partitioning: every SSTable that \<^verbatim>\<open>compact_sstables\<close>
  leaves in level \<open>i + 1\<close> and that was not there before holds no entry whose value is
  the tombstone sentinel, whatever the target level is.
\<close>

theorem compaction_strips_tombstones:
  assumes "length (levels t) = max_levels t" and "i + 1 < max_levels t"
  shows "\<forall>sst \<in> set (levels (compact_sstables H t i src tgt) ! (i + 1)).
           sst \<in> set (levels t ! (i + 1)) \<or> (\<forall>kv \<in> set (data sst). snd kv \<noteq> TOMBSTONE_VALUE)"
proof (cases "src = []")
  case True
  then show ?thesis
    by (simp add: compact_sstables_def)
next
  case False
  obtain news next' where b:
    "build_new_ssts H (sstable_target_entry_count t)
       (erase_tombstones (load_map_from_sst_list src (load_map_from_sst_list tgt [])))
       (next_sstable_id t) = (news, next')"
    and lv: "levels (compact_sstables H t i src tgt) ! (i + 1)
               = sort_key (\<lambda>sst. (min_key sst, sst_id sst))
                   (remove_compacted_ssts (levels t ! (i + 1)) tgt @ news)"
    using compact_target_level [OF assms False] by blast
  have free: "\<forall>sst \<in> set news. tombstone_free (data sst)"
    using b erase_tombstones_free by (rule build_new_ssts_free)
  show ?thesis
  proof
    fix sst
    assume "sst \<in> set (levels (compact_sstables H t i src tgt) ! (i + 1))"
    then have "sst \<in> set (remove_compacted_ssts (levels t ! (i + 1)) tgt) \<or> sst \<in> set news"
      unfolding lv by simp
    then show "sst \<in> set (levels t ! (i + 1)) \<or> (\<forall>kv \<in> set (data sst). snd kv \<noteq> TOMBSTONE_VALUE)"
    proof
      assume "sst \<in> set (remove_compacted_ssts (levels t ! (i + 1)) tgt)"
      then show ?thesis
        by (simp add: remove_compacted_ssts_def)
    next
      assume "sst \<in> set news"
      then have "tombstone_free (data sst)"
        using free by blast
      then show ?thesis
        by (simp add: tombstone_free_def)
    qed
  qed
qed

theorem compaction_strips_tombstones_witness:
  "length (levels tomb_tree) = max_levels tomb_tree \<and> 0 + 1 < max_levels tomb_tree
   \<and> list_all (\<lambda>sst. sst \<in> set (levels tomb_tree ! (0 + 1))
                       \<or> list_all (\<lambda>kv. snd kv \<noteq> TOMBSTONE_VALUE) (data sst))
         (levels (compact_sstables (\<lambda>x. x) tomb_tree 0 [tomb_sst] []) ! (0 + 1))"
proof -
  have h: "length (levels tomb_tree) = max_levels tomb_tree" "0 + 1 < max_levels tomb_tree"
    by (simp_all add: tomb_tree_def new_LSMTree_def)
  show ?thesis
    using h compaction_strips_tombstones [OF h, of "\<lambda>x. x" "[tomb_sst]" "[]"]
    unfolding list_all_iff by blast
qed

lemma compaction_example:
  "map data (levels (compact_sstables (\<lambda>x. x) tomb_tree 0 [tomb_sst] []) ! 1) = [[(8, ''y'')]]"
  by (simp add: tomb_tree_def tomb_sst_def new_LSMTree_def compact_sstables_def Let_def
      load_map_from_sst_list_def erase_tombstones_def build_new_ssts_def new_SSTable_def
      remove_compacted_ssts_def create_from_memtable_def TOMBSTONE_VALUE_def)

section \<open>LSM tree: tombstones in SSTables on the read path\<close>

lemma find_key_sst_ok:
  assumes "sst_ok H sst"
  shows "find_key H sst key = lookup_value (data sst) key"
proof (cases "map_of (data sst) key")
  case None
  then show ?thesis
    by (simp add: find_key_def lookup_value_def)
next
  case (Some v)
  then have mem: "key \<in> fst ` set (data sst)"
    by (metis domI dom_map_of_conv_image_fst)
  have "\<not> (key < min_key sst \<or> key > max_key sst)"
    using assms Some by (intro sst_bounded_present) (simp_all add: sst_ok_def)
  moreover have "Query H (bloom sst) key = Some True"
    using assms mem unfolding sst_ok_def by blast
  ultimately show ?thesis
    by (simp add: find_key_def lookup_value_def)
qed

lemma new_SSTable_ok:
  assumes "\<forall>k \<in> fst ` set d. mn \<le> k \<and> k \<le> mx"
  shows "sst_ok H (new_SSTable H i mn mx d)"
proof -
  have ok0: "bloom_ok (new_bloom 512 7)"
    by (rule bloom_ok_new) simp
  obtain b where b: "insert_all H (new_bloom 512 7) (map fst d) = Some b"
    using ok0 by (rule insert_all_ok)
  have "Query H b k = Some True" if "k \<in> fst ` set d" for k
    using ok0 _ b by (rule insert_all_member_Query) (use that in simp)
  then show ?thesis
    using assms by (simp add: sst_ok_def sst_bounded_def new_SSTable_def b)
qed

lemma create_from_memtable_ok:
  assumes "create_from_memtable H m i = Some sst"
  shows "sst_ok H sst"
proof -
  have ne: "m \<noteq> []"
    using assms by (rule create_from_memtable_data(4))
  obtain sst' where s: "create_from_memtable H m i = Some sst'" "sst_bounded sst'"
    "data sst' = copy_entries m" "sst_id sst' = i"
    "bloom sst' = (case insert_all H (new_bloom 512 7) (map fst (copy_entries m)) of
                    Some b \<Rightarrow> b | None \<Rightarrow> new_bloom 512 7)"
    using ne by (rule create_from_memtable_Some)
  have eq: "sst' = sst"
    using assms s(1) by simp
  have ok0: "bloom_ok (new_bloom 512 7)"
    by (rule bloom_ok_new) simp
  obtain b where b: "insert_all H (new_bloom 512 7) (map fst (copy_entries m)) = Some b"
    using ok0 by (rule insert_all_ok)
  have "Query H b k = Some True" if "k \<in> fst ` set (copy_entries m)" for k
    using ok0 _ b by (rule insert_all_member_Query) (use that in simp)
  then show ?thesis
    using s(2,3,5) unfolding eq by (simp add: sst_ok_def b)
qed

lemma new_SSTable_sel [simp]:
  "data (new_SSTable H i mn mx d) = d"
  "sst_id (new_SSTable H i mn mx d) = i"
  "min_key (new_SSTable H i mn mx d) = mn"
  "max_key (new_SSTable H i mn mx d) = mx"
  "entry_count (new_SSTable H i mn mx d) = length d"
  by (simp_all add: new_SSTable_def)

lemma create_single:
  "create_from_memtable H [(k, v)] i = Some (new_SSTable H i k k [(k, v)])"
  by (simp add: create_from_memtable_def)

lemma s4_state_eq:
  "s4_state H =
     Some ((new_LSMTree 1 4 4 (\<lambda>n. n * 10) 256)
            \<lparr>levels := [[new_SSTable H 0 7 7 [(7, ''x'')],
                          new_SSTable H 1 7 7 [(7, TOMBSTONE_VALUE)]], [], [], []],
              next_sstable_id := 2\<rparr>)"
  by (simp add: s4_state_def new_LSMTree_def put_def del_def schedule_flush_active_memtable_def
      flush_worker_step_def flush_memtable_to_l0_def create_single Let_def
      numeral_eq_Suc)

text \<open>
  C1 says that \<^verbatim>\<open>get(7)\<close> returns not-found in the state of scenario S4, where the
  older SSTable of level 0 holds \<open>(7, x)\<close> and the newer one the tombstone for 7. The code
  returns the older value: \<^verbatim>\<open>find_key\<close> reports the tombstone as \<^verbatim>\<open>false\<close>, and the
  loop over level 0 then goes on to the older SSTable.
\<close>

theorem lsm_get_ignores_sstable_tombstone:
  "\<exists>t. s4_state H = Some t
       \<and> map data (hd (levels t)) = [[(7, ''x'')], [(7, TOMBSTONE_VALUE)]]
       \<and> get H t 7 = Some ''x''"
proof -
  have a: "find_key H (new_SSTable H 1 7 7 [(7, TOMBSTONE_VALUE)]) 7 = None"
    by (subst find_key_sst_ok) (simp_all add: new_SSTable_ok lookup_value_def)
  have b: "find_key H (new_SSTable H 0 7 7 [(7, ''x'')]) 7 = Some ''x''"
    by (subst find_key_sst_ok)
       (simp_all add: new_SSTable_ok lookup_value_def TOMBSTONE_VALUE_def)
  show ?thesis
    unfolding s4_state_eq
    by (simp add: get_def new_LSMTree_def memtable_lookup_def a b)
qed

section \<open>SSTable: the range check of find_key\<close>

text \<open>
  C10. SSTable key-range bound: \<^verbatim>\<open>create_from_memtable\<close> (both versions) turns every
  non-empty map into an SSTable that stores the keys of the map and whose \<^verbatim>\<open>min_key\<close> and
  \<^verbatim>\<open>max_key\<close> bound every stored key. Consequently \<^verbatim>\<open>find_key\<close> of
  \<^verbatim>\<open>src/old_implementation/lsm/SSTables.h\<close>, which first rejects a key with
  \<^verbatim>\<open>key < min_key || key > max_key\<close>, never discards a stored key: for every stored key it
  returns what the data holds for it, the value, or not found when the value is the
  tombstone. (\<^verbatim>\<open>find_key\<close> of \<^verbatim>\<open>src/lsm/SSTables.h\<close> has no range check.)
\<close>

theorem sstable_key_range_bound:
  assumes "m \<noteq> []"
  shows "(\<exists>sst. create_from_memtable H m i = Some sst
            \<and> fst ` set (data sst) = fst ` set m
            \<and> (\<forall>k \<in> fst ` set (data sst). min_key sst \<le> k \<and> k \<le> max_key sst)
            \<and> (\<forall>k v. map_of (data sst) k = Some v \<longrightarrow>
                  find_key H sst k = (if v = TOMBSTONE_VALUE then None else Some v)))
       \<and> (\<exists>sst. create_from_memtable_lsm m i = Some sst
            \<and> fst ` set (data sst) = fst ` set m
            \<and> (\<forall>k \<in> fst ` set (data sst). min_key sst \<le> k \<and> k \<le> max_key sst))"
proof
  obtain sst where sst: "create_from_memtable H m i = Some sst" "sst_bounded sst"
    "data sst = copy_entries m"
    using assms by (rule create_from_memtable_Some)
  have ok: "sst_ok H sst"
    using sst(1) by (rule create_from_memtable_ok)
  have ks: "fst ` set (data sst) = fst ` set m"
    by (simp only: sst(3) copy_entries_keys)
  have bnd: "\<forall>k \<in> fst ` set (data sst). min_key sst \<le> k \<and> k \<le> max_key sst"
    using sst(2) unfolding sst_bounded_def .
  have fk: "find_key H sst k = (if v = TOMBSTONE_VALUE then None else Some v)"
    if "map_of (data sst) k = Some v" for k v
    using that by (simp add: find_key_sst_ok [OF ok] lookup_value_def)
  show "\<exists>sst. create_from_memtable H m i = Some sst
            \<and> fst ` set (data sst) = fst ` set m
            \<and> (\<forall>k \<in> fst ` set (data sst). min_key sst \<le> k \<and> k \<le> max_key sst)
            \<and> (\<forall>k v. map_of (data sst) k = Some v \<longrightarrow>
                  find_key H sst k = (if v = TOMBSTONE_VALUE then None else Some v))"
    apply (rule exI [of _ sst])
    apply (intro conjI allI impI)
       apply (rule sst(1))
      apply (rule ks)
     apply (rule bnd)
    apply (erule fk)
    done
next
  obtain sst where sst: "create_from_memtable_lsm m i = Some sst" "sst_bounded sst"
    "data sst = copy_entries m"
    using assms by (rule create_from_memtable_lsm_Some)
  have ks: "fst ` set (data sst) = fst ` set m"
    by (simp only: sst(3) copy_entries_keys)
  have bnd: "\<forall>k \<in> fst ` set (data sst). min_key sst \<le> k \<and> k \<le> max_key sst"
    using sst(2) unfolding sst_bounded_def .
  show "\<exists>sst. create_from_memtable_lsm m i = Some sst
            \<and> fst ` set (data sst) = fst ` set m
            \<and> (\<forall>k \<in> fst ` set (data sst). min_key sst \<le> k \<and> k \<le> max_key sst)"
    apply (rule exI [of _ sst])
    apply (intro conjI)
      apply (rule sst(1))
     apply (rule ks)
    apply (rule bnd)
    done
qed

theorem sstable_key_range_bound_witness:
  "[(5 :: 64 word, ''a''), (3, ''b''), (9, ''c'')] \<noteq> []
   \<and> (\<exists>sst. create_from_memtable (\<lambda>x. x) [(5, ''a''), (3, ''b''), (9, ''c'')] 0 = Some sst
          \<and> fst ` set (data sst) = fst ` set [(5 :: 64 word, ''a''), (3, ''b''), (9, ''c'')]
          \<and> (\<forall>k \<in> fst ` set (data sst). min_key sst \<le> k \<and> k \<le> max_key sst)
          \<and> (\<forall>k v. map_of (data sst) k = Some v \<longrightarrow>
                find_key (\<lambda>x. x) sst k = (if v = TOMBSTONE_VALUE then None else Some v)))
   \<and> (\<exists>sst. create_from_memtable_lsm [(5, ''a''), (3, ''b''), (9, ''c'')] 0 = Some sst
          \<and> fst ` set (data sst) = fst ` set [(5 :: 64 word, ''a''), (3, ''b''), (9, ''c'')]
          \<and> (\<forall>k \<in> fst ` set (data sst). min_key sst \<le> k \<and> k \<le> max_key sst))"
  using sstable_key_range_bound [of "[(5 :: 64 word, ''a''), (3, ''b''), (9, ''c'')]" "\<lambda>x. x" 0]
  by simp

section \<open>B+ tree: array loops\<close>

lemma length_copy_into [simp]: "length (copy_into dst src off n) = length dst"
proof -
  have "length (fold (\<lambda>i d. d[i := src ! (off + i)]) is dst) = length dst" for "is"
    by (induction "is" arbitrary: dst) simp_all
  then show ?thesis
    by (simp add: copy_into_def)
qed

lemma copy_into_Suc:
  "copy_into dst src off (Suc n) = (copy_into dst src off n)[n := src ! (off + n)]"
  by (simp add: copy_into_def)

lemma take_copy_into:
  "n \<le> length dst \<Longrightarrow> take n (copy_into dst src off n) = map (\<lambda>i. src ! (off + i)) [0 ..< n]"
proof (induction n)
  case 0
  then show ?case by simp
next
  case (Suc n)
  then have n: "n < length dst" and ih: "take n (copy_into dst src off n) = map (\<lambda>i. src ! (off + i)) [0 ..< n]"
    by simp_all
  have "take (Suc n) (copy_into dst src off (Suc n))
        = take n (copy_into dst src off n) @ [src ! (off + n)]"
    using n by (simp add: copy_into_Suc take_Suc_conv_app_nth)
  then show ?case
    by (simp add: ih)
qed

lemma take_copy_into_slice:
  assumes "n \<le> length dst" and "off + n \<le> length src"
  shows "take n (copy_into dst src off n) = take n (drop off src)"
proof -
  have "map (\<lambda>i. src ! (off + i)) [0 ..< n] = take n (drop off src)"
    using assms(2) by (intro nth_equalityI) simp_all
  then show ?thesis
    using assms(1) by (simp add: take_copy_into)
qed

lemma copy_into_nth0:
  assumes "0 < n" and "n \<le> length dst"
  shows "copy_into dst src off n ! 0 = src ! off"
proof -
  have "take n (copy_into dst src off n) ! 0 = map (\<lambda>i. src ! (off + i)) [0 ..< n] ! 0"
    using assms(2) by (simp add: take_copy_into)
  then show ?thesis
    using assms(1) by simp
qed

text \<open>The first index that a loop over \<open>0, \<dots>, n - 1\<close> finds.\<close>

lemma find_upt_Some:
  "find P [0 ..< n] = Some i \<longleftrightarrow> i < n \<and> P i \<and> (\<forall>j < i. \<not> P j)"
proof -
  have "find P [0 ..< n] = Some i
        \<longleftrightarrow> (\<exists>m < length [0 ..< n]. P ([0 ..< n] ! m) \<and> i = [0 ..< n] ! m
                 \<and> (\<forall>j < m. \<not> P ([0 ..< n] ! j)))"
    by (rule find_Some_iff)
  also have "\<dots> \<longleftrightarrow> (\<exists>m < n. P m \<and> i = m \<and> (\<forall>j < m. \<not> P j))"
    by auto
  finally show ?thesis
    by auto
qed

lemma find_upt_None: "find P [0 ..< n] = None \<longleftrightarrow> (\<forall>j < n. \<not> P j)"
  by (simp add: find_None_iff)

text \<open>Inserting a fresh key between the smaller and the larger keys keeps the order.\<close>

lemma sorted_ins_at:
  assumes "sorted_wrt (<) ks" and "\<forall>x \<in> set (take pos ks). x < key"
    and "\<forall>x \<in> set (drop pos ks). key < (x :: KeyType)"
  shows "sorted_wrt (<) (ins_at pos key ks)"
proof -
  have "sorted_wrt (<) (take pos ks @ drop pos ks)"
    using assms(1) by simp
  then have parts: "sorted_wrt (<) (take pos ks)" "sorted_wrt (<) (drop pos ks)"
    "\<forall>x \<in> set (take pos ks). \<forall>y \<in> set (drop pos ks). x < y"
    unfolding sorted_wrt_append by blast+
  show ?thesis
    unfolding ins_at_def sorted_wrt_append
    using parts assms(2,3) by auto
qed

lemma insort_key_ins_at:
  assumes "\<forall>e \<in> set (take pos es). fst e < k" and "\<forall>e \<in> set (drop pos es). k < fst e"
  shows "insort_key fst (k :: KeyType, v) es = ins_at pos (k, v) es"
  using assms
proof (induction es arbitrary: pos)
  case Nil
  then show ?case by (simp add: ins_at_def)
next
  case (Cons y ys)
  show ?case
  proof (cases pos)
    case 0
    then have "k \<le> fst y"
      using Cons.prems(2) by (simp add: less_imp_le)
    then show ?thesis
      using 0 by (simp add: ins_at_def)
  next
    case (Suc p)
    then have y: "fst y < k"
      using Cons.prems(1) by simp
    have "insort_key fst (k, v) ys = ins_at p (k, v) ys"
      using Cons.prems Suc by (intro Cons.IH) simp_all
    moreover have "\<not> k \<le> fst y"
      using y by (simp add: not_le)
    ultimately show ?thesis
      using Suc by (simp add: ins_at_def)
  qed
qed

lemma zip_ins_at:
  "length ks = length vs \<Longrightarrow> zip (ins_at pos k ks) (ins_at pos v vs) = ins_at pos (k, v) (zip ks vs)"
  by (simp add: ins_at_def take_zip drop_zip)

lemma length_ins_at [simp]: "length (ins_at pos x xs) = Suc (length xs)"
  by (simp add: ins_at_def)

text \<open>Positions in a strictly sorted list of keys.\<close>

lemma sorted_take_less:
  assumes "sorted_wrt (<) (ks :: KeyType list)" and "pos \<le> length ks" and "key \<notin> set ks"
    and "\<forall>j < pos. \<not> key < ks ! j"
  shows "\<forall>x \<in> set (take pos ks). x < key"
proof
  fix x
  assume "x \<in> set (take pos ks)"
  then obtain j where j: "j < pos" "j < length ks" "x = ks ! j"
    by (auto simp: in_set_conv_nth)
  then have "\<not> key < x" "x \<in> set ks"
    using assms(4) by simp_all
  then show "x < key"
    using assms(3) by (metis linorder_neqE)
qed

lemma sorted_drop_greater:
  assumes "sorted_wrt (<) (ks :: KeyType list)" and "pos < length ks \<longrightarrow> key < ks ! pos"
  shows "\<forall>x \<in> set (drop pos ks). key < x"
proof
  fix x
  assume "x \<in> set (drop pos ks)"
  then obtain j where j: "j < length ks - pos" "x = ks ! (pos + j)"
    by (auto simp: in_set_conv_nth)
  then have pos: "pos < length ks" "key < ks ! pos"
    using assms(2) by simp_all
  show "key < x"
  proof (cases j)
    case 0
    then show ?thesis
      using j pos by simp
  next
    case (Suc m)
    then have "ks ! pos < ks ! (pos + j)"
      using sorted_wrt_nth_less [OF assms(1), of pos "pos + j"] j(1) by simp
    then show ?thesis
      using pos(2) j(2) by simp
  qed
qed

lemma ins_at_snoc: "pos \<le> length xs \<Longrightarrow> ins_at pos x (xs @ [y]) = ins_at pos x xs @ [y]"
  by (simp add: ins_at_def)

lemma shift_leaf_spec:
  assumes "shift_leaf key n ks vs = (pos, ks', vs')" and "n < length ks" and "n < length vs"
  shows "pos \<le> n \<and> length ks' = length ks \<and> length vs' = length vs
         \<and> take (Suc n) (ks'[pos := key]) = ins_at pos key (take n ks)
         \<and> take (Suc n) (vs'[pos := val]) = ins_at pos val (take n vs)
         \<and> (\<forall>j. pos \<le> j \<and> j < n \<longrightarrow> key < ks ! j)
         \<and> (0 < pos \<longrightarrow> \<not> key < ks ! (pos - 1))
         \<and> (\<forall>j > n. ks' ! j = ks ! j \<and> vs' ! j = vs ! j)"
  using assms
proof (induction n arbitrary: ks vs)
  case 0
  then show ?case
    by (simp add: ins_at_def take_Suc_conv_app_nth)
next
  case (Suc p)
  show ?case
  proof (cases "ks ! p > key")
    case False
    then have eq: "pos = Suc p" "ks' = ks" "vs' = vs"
      using Suc.prems(1) by simp_all
    have "\<forall>j. Suc p \<le> j \<and> j < Suc p \<longrightarrow> key < ks ! j"
      by auto
    then show ?thesis
      unfolding eq using False Suc.prems(2,3)
      by (simp add: ins_at_def take_Suc_conv_app_nth [of "Suc p"])
  next
    case True
    let ?ks1 = "ks[Suc p := ks ! p]"
    let ?vs1 = "vs[Suc p := vs ! p]"
    have rec: "shift_leaf key p ?ks1 ?vs1 = (pos, ks', vs')"
      using Suc.prems(1) True by simp
    have ih: "pos \<le> p" "length ks' = length ks" "length vs' = length vs"
      "take (Suc p) (ks'[pos := key]) = ins_at pos key (take p ?ks1)"
      "take (Suc p) (vs'[pos := val]) = ins_at pos val (take p ?vs1)"
      "\<forall>j. pos \<le> j \<and> j < p \<longrightarrow> key < ?ks1 ! j"
      "0 < pos \<longrightarrow> \<not> key < ?ks1 ! (pos - 1)"
      "\<forall>j > p. ks' ! j = ?ks1 ! j \<and> vs' ! j = ?vs1 ! j"
      using Suc.IH [OF rec] Suc.prems(2,3) by simp_all
    have last: "ks' ! Suc p = ks ! p" "vs' ! Suc p = vs ! p"
      using ih(8) Suc.prems(2,3) by simp_all
    have tk: "take (Suc (Suc p)) (ks'[pos := key]) = take (Suc p) (ks'[pos := key]) @ [ks ! p]"
      using ih(1,2) Suc.prems(2) last by (simp add: take_Suc_conv_app_nth [of "Suc p"])
    have tv: "take (Suc (Suc p)) (vs'[pos := val]) = take (Suc p) (vs'[pos := val]) @ [vs ! p]"
      using ih(1,3) Suc.prems(3) last by (simp add: take_Suc_conv_app_nth [of "Suc p"])
    have k: "take (Suc (Suc p)) (ks'[pos := key]) = ins_at pos key (take (Suc p) ks)"
      using ih(1,4) Suc.prems(2) unfolding tk
      by (simp add: take_Suc_conv_app_nth [of p] ins_at_snoc)
    have v: "take (Suc (Suc p)) (vs'[pos := val]) = ins_at pos val (take (Suc p) vs)"
      using ih(1,5) Suc.prems(3) unfolding tv
      by (simp add: take_Suc_conv_app_nth [of p] ins_at_snoc)
    have gt: "\<forall>j. pos \<le> j \<and> j < Suc p \<longrightarrow> key < ks ! j"
    proof (intro allI impI)
      fix j
      assume j: "pos \<le> j \<and> j < Suc p"
      show "key < ks ! j"
      proof (cases "j = p")
        case True
        then show ?thesis
          using \<open>ks ! p > key\<close> by simp
      next
        case False
        then have "key < ?ks1 ! j"
          using ih(6) j by simp
        then show ?thesis
          using j by simp
      qed
    qed
    have le: "0 < pos \<longrightarrow> \<not> key < ks ! (pos - 1)"
      using ih(7) ih(1) by simp
    have rest: "\<forall>j > Suc p. ks' ! j = ks ! j \<and> vs' ! j = vs ! j"
      using ih(8) by simp
    show ?thesis
      using ih(1,2,3) k v gt le rest by simp
  qed
qed

section \<open>B+ tree: leaves\<close>

lemma leaf_records_zip: "leaf_records l = zip (lkeys l) (lvals l)"
  by (simp add: leaf_records_def lkeys_def lvals_def)

lemma leaf_ok_lengths:
  assumes "leaf_ok l"
  shows "length (lkeys l) = numKeys l" and "length (lvals l) = numKeys l"
    and "map fst (leaf_records l) = lkeys l" and "distinct (lkeys l)"
    and "length (leaf_records l) = numKeys l"
proof -
  show a: "length (lkeys l) = numKeys l" and b: "length (lvals l) = numKeys l"
    using assms by (simp_all add: leaf_ok_def lkeys_def lvals_def)
  show "map fst (leaf_records l) = lkeys l"
    using a b by (simp add: leaf_records_zip)
  show "distinct (lkeys l)"
    using assms strict_sorted_iff [of "lkeys l"] by (simp add: leaf_ok_def)
  show "length (leaf_records l) = numKeys l"
    using a b by (simp add: leaf_records_zip)
qed

lemma lkeys_nth: "i < numKeys l \<Longrightarrow> lkeys l ! i = keys l ! i"
  by (simp add: lkeys_def)

lemma leaf_search_map_of:
  assumes "leaf_ok l"
  shows "leaf_search l key = map_of (leaf_records l) key"
proof (cases "find (\<lambda>i. keys l ! i = key) [0 ..< numKeys l]")
  case None
  then have "\<forall>j < numKeys l. keys l ! j \<noteq> key"
    by (simp add: find_upt_None)
  then have "key \<notin> set (lkeys l)"
    using leaf_ok_lengths(1) [OF assms] by (auto simp: in_set_conv_nth lkeys_nth)
  then have "map_of (leaf_records l) key = None"
    using leaf_ok_lengths(3) [OF assms] by (metis map_of_eq_None_iff set_map)
  then show ?thesis
    using None by (simp add: leaf_search_def)
next
  case (Some i)
  then have i: "i < numKeys l" "keys l ! i = key"
    by (simp_all add: find_upt_Some)
  have "map_of (zip (lkeys l) (lvals l)) (lkeys l ! i) = Some (lvals l ! i)"
    using leaf_ok_lengths [OF assms] i(1) by (intro map_of_zip_nth) simp_all
  then have "map_of (leaf_records l) key = Some (vals l ! i)"
    using i by (simp add: leaf_records_zip lkeys_nth) (simp add: lvals_def)
  then show ?thesis
    using Some by (simp add: leaf_search_def)
qed

lemma upd_set_fresh: "key \<notin> fst ` S \<Longrightarrow> upd_set key val S = insert (key, val) S"
  by (auto simp: upd_set_def)

lemma insertLeaf_update:
  assumes "leaf_ok l" and "find (\<lambda>i. keys l ! i = key) [0 ..< numKeys l] = Some i"
  shows "insertLeaf t off l key val
         = (t\<lparr>nodes := (nodes t)[off := Leaf (l\<lparr>vals := (vals l)[i := val]\<rparr>)]\<rparr>, no_split)"
    and "leaf_ok (l\<lparr>vals := (vals l)[i := val]\<rparr>)"
    and "lkeys (l\<lparr>vals := (vals l)[i := val]\<rparr>) = lkeys l"
    and "set (leaf_records (l\<lparr>vals := (vals l)[i := val]\<rparr>)) = upd_set key val (set (leaf_records l))"
proof -
  let ?l' = "l\<lparr>vals := (vals l)[i := val]\<rparr>"
  have i: "i < numKeys l" "keys l ! i = key"
    using assms(2) by (simp_all add: find_upt_Some)
  show "insertLeaf t off l key val = (t\<lparr>nodes := (nodes t)[off := Leaf ?l']\<rparr>, no_split)"
    using assms(2) by (simp add: insertLeaf_def)
  show "leaf_ok ?l'"
    using assms(1) by (simp add: leaf_ok_def lkeys_def)
  show lk: "lkeys ?l' = lkeys l"
    by (simp add: lkeys_def)
  have len: "length (lkeys l) = numKeys l" "length (lvals l) = numKeys l"
    and dist: "distinct (lkeys l)" and mf: "map fst (leaf_records l) = lkeys l"
    using leaf_ok_lengths [OF assms(1)] by simp_all
  have lv: "lvals ?l' = (lvals l)[i := val]"
    by (simp add: lvals_def take_update_swap)
  have ki: "lkeys l ! i = key"
    using i by (simp add: lkeys_nth)
  have "(lkeys l)[i := key] = lkeys l"
    using ki by (metis list_update_id)
  then have rec: "leaf_records ?l' = (leaf_records l)[i := (key, val)]"
    by (simp add: leaf_records_zip lk lv update_zip)
  have dr: "distinct (leaf_records l)"
    using dist mf by (metis distinct_map)
  have ilen: "i < length (leaf_records l)"
    using i(1) len by (simp add: leaf_records_zip)
  have ri: "fst (leaf_records l ! i) = key"
    using ki ilen mf by (metis nth_map)
  have "e = leaf_records l ! i" if e: "e \<in> set (leaf_records l)" and fe: "fst e = key" for e
  proof -
    obtain j where j: "j < length (leaf_records l)" "e = leaf_records l ! j"
      using e by (auto simp: in_set_conv_nth)
    then have "lkeys l ! j = lkeys l ! i"
      using fe ki mf by (metis nth_map)
    then have "j = i"
      using dist j(1) ilen len by (simp add: nth_eq_iff_index_eq leaf_records_zip)
    then show ?thesis
      using j(2) by simp
  qed
  then have "{e \<in> set (leaf_records l). fst e \<noteq> key} = set (leaf_records l) - {leaf_records l ! i}"
    using ri by auto
  then show "set (leaf_records ?l') = upd_set key val (set (leaf_records l))"
    using dr ilen by (simp add: rec set_update_distinct upd_set_def)
qed

lemma insertLeaf_room:
  assumes "leaf_ok l" and "find (\<lambda>i. keys l ! i = key) [0 ..< numKeys l] = None"
    and "numKeys l < MAX_KEYS_LEAF"
  obtains l' where
    "insertLeaf t off l key val = (t\<lparr>nodes := (nodes t)[off := Leaf l']\<rparr>, no_split)"
    "leaf_ok l'" "nextLeaf l' = nextLeaf l"
    "set (leaf_records l') = upd_set key val (set (leaf_records l))"
    "set (lkeys l') = insert key (set (lkeys l))"
proof -
  let ?n = "numKeys l"
  obtain pos ks vs where sh: "shift_leaf key ?n (keys l) (vals l) = (pos, ks, vs)"
    by (cases "shift_leaf key ?n (keys l) (vals l)")
  let ?l' = "l\<lparr>keys := ks[pos := key], vals := vs[pos := val], numKeys := Suc ?n\<rparr>"
  have lens: "length (keys l) = MAX_KEYS_LEAF" "length (vals l) = MAX_KEYS_LEAF"
    and srt: "sorted_wrt (<) (lkeys l)"
    using assms(1) by (simp_all add: leaf_ok_def)
  have nlt: "?n < length (keys l)" "?n < length (vals l)"
    using assms(3) lens by simp_all
  note spec = shift_leaf_spec [OF sh nlt, of val]
  have pos: "pos \<le> ?n" and lk: "length ks = length (keys l)" and lv: "length vs = length (vals l)"
    and tk: "take (Suc ?n) (ks[pos := key]) = ins_at pos key (lkeys l)"
    and tv: "take (Suc ?n) (vs[pos := val]) = ins_at pos val (lvals l)"
    and gt: "\<forall>j. pos \<le> j \<and> j < ?n \<longrightarrow> key < keys l ! j"
    and le: "0 < pos \<longrightarrow> \<not> key < keys l ! (pos - 1)"
    using spec by (simp_all add: lkeys_def lvals_def)
  have len: "length (lkeys l) = ?n" "length (lvals l) = ?n"
    using leaf_ok_lengths [OF assms(1)] by simp_all
  have notin: "key \<notin> set (lkeys l)"
  proof -
    have "\<forall>j < ?n. keys l ! j \<noteq> key"
      using assms(2) by (simp add: find_upt_None)
    then show ?thesis
      using len(1) by (auto simp: in_set_conv_nth lkeys_nth)
  qed
  have below: "\<forall>j < pos. \<not> key < lkeys l ! j"
  proof (intro allI impI)
    fix j
    assume j: "j < pos"
    then have p0: "0 < pos" "\<not> key < keys l ! (pos - 1)"
      using le by simp_all
    have "lkeys l ! j \<le> lkeys l ! (pos - 1)"
    proof (cases "j = pos - 1")
      case True
      then show ?thesis by simp
    next
      case False
      then have "lkeys l ! j < lkeys l ! (pos - 1)"
        using sorted_wrt_nth_less [OF srt, of j "pos - 1"] j pos len(1) by simp
      then show ?thesis by simp
    qed
    moreover have "lkeys l ! (pos - 1) \<le> key"
      using p0 pos by (simp add: lkeys_nth not_less)
    ultimately show "\<not> key < lkeys l ! j"
      by (simp add: not_less)
  qed
  have small: "\<forall>x \<in> set (take pos (lkeys l)). x < key"
    using srt _ notin below by (rule sorted_take_less) (simp add: len pos)
  have "pos < length (lkeys l) \<longrightarrow> key < lkeys l ! pos"
    using gt by (simp add: len lkeys_nth)
  then have big: "\<forall>x \<in> set (drop pos (lkeys l)). key < x"
    using srt by (intro sorted_drop_greater) simp_all
  have lk': "lkeys ?l' = ins_at pos key (lkeys l)"
    using tk by (simp add: lkeys_def)
  have lv': "lvals ?l' = ins_at pos val (lvals l)"
    using tv by (simp add: lvals_def)
  have ok: "leaf_ok ?l'"
    using assms(3) lens lk lv sorted_ins_at [OF srt small big]
    by (simp add: leaf_ok_def lk')
  have rec: "leaf_records ?l' = ins_at pos (key, val) (leaf_records l)"
    using len by (simp add: leaf_records_zip lk' lv' zip_ins_at)
  have setr: "set (leaf_records ?l') = insert (key, val) (set (leaf_records l))"
    unfolding rec ins_at_def
    by (metis Un_insert_right append_Cons append_Nil append_take_drop_id list.simps(15) set_append)
  have "key \<notin> fst ` set (leaf_records l)"
    using notin leaf_ok_lengths(3) [OF assms(1)] by (metis set_map)
  then have s1: "set (leaf_records ?l') = upd_set key val (set (leaf_records l))"
    using setr by (simp add: upd_set_fresh)
  have s2: "set (lkeys ?l') = insert key (set (lkeys l))"
    unfolding lk' ins_at_def
    by (metis Un_insert_right append_Cons append_Nil append_take_drop_id list.simps(15) set_append)
  have "insertLeaf t off l key val = (t\<lparr>nodes := (nodes t)[off := Leaf ?l']\<rparr>, no_split)"
    using assms(2,3) sh by (simp add: insertLeaf_def)
  then show thesis
    using ok s1 s2 by (intro that [of ?l']) simp_all
qed

lemma set_ins_at [simp]: "set (ins_at pos x xs) = insert x (set xs)"
proof -
  have "set (take pos xs) \<union> set (drop pos xs) = set xs"
    by (metis append_take_drop_id set_append)
  then show ?thesis
    by (simp add: ins_at_def)
qed

lemma insertLeaf_split:
  assumes "leaf_ok l" and "find (\<lambda>i. keys l ! i = key) [0 ..< numKeys l] = None"
    and "\<not> numKeys l < MAX_KEYS_LEAF"
  obtains old new pk where
    "insertLeaf t off l key val
     = (t\<lparr>nodes := (nodes t @ [Leaf new])[off := Leaf old]\<rparr>,
        \<lparr>splitted = True, newChildOffset = length (nodes t), promotedKey = pk\<rparr>)"
    "leaf_ok old" "leaf_ok new"
    "nextLeaf new = nextLeaf l" "nextLeaf old = Some (length (nodes t))"
    "numKeys old = 15" "numKeys new = 16"
    "leaf_records old = take 15 (insort_key fst (key, val) (leaf_records l))"
    "leaf_records new = drop 15 (insort_key fst (key, val) (leaf_records l))"
    "pk = fst (hd (leaf_records new))"
    "set (lkeys old @ lkeys new) = insert key (set (lkeys l))"
    "sorted_wrt (<) (lkeys old @ lkeys new)"
proof -
  have lens: "length (keys l) = 30" "length (vals l) = 30" and n: "numKeys l = 30"
    and srt: "sorted_wrt (<) (lkeys l)"
    using assms(1,3) by (simp_all add: leaf_ok_def MAX_KEYS_LEAF_def)
  have len: "length (lkeys l) = 30" "length (lvals l) = 30"
    using leaf_ok_lengths [OF assms(1)] n by simp_all
  have notin: "key \<notin> set (lkeys l)"
  proof -
    have "\<forall>j < numKeys l. keys l ! j \<noteq> key"
      using assms(2) by (simp add: find_upt_None)
    then show ?thesis
      using len(1) n by (auto simp: in_set_conv_nth lkeys_nth)
  qed
  define tmpKeys0 where "tmpKeys0 = take (numKeys l) (keys l)"
  define tmpValues0 where "tmpValues0 = take (numKeys l) (vals l)"
  define pos where "pos = (case find (\<lambda>i. key < tmpKeys0 ! i) [0 ..< length tmpKeys0] of
                   Some i \<Rightarrow> i | None \<Rightarrow> length tmpKeys0)"
  define tmpKeys where "tmpKeys = take pos tmpKeys0 @ [key] @ drop pos tmpKeys0"
  define tmpValues where "tmpValues = take pos tmpValues0 @ [val] @ drop pos tmpValues0"
  define split where "split = length tmpKeys div 2"
  define new where "new = new_LeafNode
            \<lparr>numKeys := length tmpKeys - split,
             keys := copy_into (keys new_LeafNode) tmpKeys split (length tmpKeys - split),
             vals := copy_into (vals new_LeafNode) tmpValues split (length tmpKeys - split),
             nextLeaf := nextLeaf l\<rparr>"
  define old where "old = l
            \<lparr>numKeys := split,
             keys := copy_into (keys l) tmpKeys 0 split,
             vals := copy_into (vals l) tmpValues 0 split,
             nextLeaf := Some (length (nodes t))\<rparr>"
  have eq: "insertLeaf t off l key val
     = (t\<lparr>nodes := (nodes t @ [Leaf new])[off := Leaf old]\<rparr>,
        \<lparr>splitted = True, newChildOffset = length (nodes t), promotedKey = keys new ! 0\<rparr>)"
    using assms(2,3)
    unfolding insertLeaf_def splitLeaf_def Let_def new_def old_def split_def tmpKeys_def
      tmpValues_def pos_def tmpKeys0_def tmpValues0_def
    by simp
  have k0: "tmpKeys0 = lkeys l" and v0: "tmpValues0 = lvals l"
    by (simp_all add: tmpKeys0_def tmpValues0_def lkeys_def lvals_def)
  have l0: "length tmpKeys0 = 30"
    using len(1) by (simp add: k0)
  have "pos \<le> 30 \<and> (\<forall>j < pos. \<not> key < tmpKeys0 ! j) \<and> (pos < 30 \<longrightarrow> key < tmpKeys0 ! pos)"
  proof (cases "find (\<lambda>i. key < tmpKeys0 ! i) [0 ..< length tmpKeys0]")
    case None
    have "pos = length tmpKeys0"
      unfolding pos_def None by simp
    moreover have "\<forall>j < 30. \<not> key < tmpKeys0 ! j"
      using None by (simp add: find_upt_None l0)
    ultimately show ?thesis
      by (simp add: l0)
  next
    case (Some i)
    have "pos = i"
      unfolding pos_def Some by simp
    moreover have "i < 30" "key < tmpKeys0 ! i" "\<forall>j < i. \<not> key < tmpKeys0 ! j"
      using Some by (simp_all add: find_upt_Some l0)
    ultimately show ?thesis
      by simp
  qed
  then have posp: "pos \<le> 30 \<and> (\<forall>j < pos. \<not> key < lkeys l ! j) \<and> (pos < 30 \<longrightarrow> key < lkeys l ! pos)"
    by (simp add: k0)
  have small: "\<forall>x \<in> set (take pos (lkeys l)). x < key"
    using srt _ notin by (rule sorted_take_less) (use posp len in simp_all)
  have big: "\<forall>x \<in> set (drop pos (lkeys l)). key < x"
    using srt by (rule sorted_drop_greater) (use posp len in simp)
  have tk: "tmpKeys = ins_at pos key (lkeys l)" and tv: "tmpValues = ins_at pos val (lvals l)"
    by (simp_all add: tmpKeys_def tmpValues_def ins_at_def k0 v0)
  have ltk: "length tmpKeys = 31" "length tmpValues = 31"
    using len by (simp_all add: tk tv)
  have sp: "split = 15"
    by (simp add: split_def ltk)
  have stk: "sorted_wrt (<) tmpKeys"
    unfolding tk using srt small big by (rule sorted_ins_at)
  have lko: "lkeys old = take 15 tmpKeys"
    using lens ltk by (simp add: old_def sp lkeys_def take_copy_into_slice)
  have lvo: "lvals old = take 15 tmpValues"
    using lens ltk by (simp add: old_def sp lvals_def take_copy_into_slice)
  have lkn: "lkeys new = drop 15 tmpKeys"
    using ltk
    by (simp add: new_def sp lkeys_def take_copy_into_slice new_LeafNode_def MAX_KEYS_LEAF_def)
  have lvn: "lvals new = drop 15 tmpValues"
    using ltk
    by (simp add: new_def sp lvals_def take_copy_into_slice new_LeafNode_def MAX_KEYS_LEAF_def)
  have zz: "zip tmpKeys tmpValues = insort_key fst (key, val) (leaf_records l)"
  proof -
    have "zip tmpKeys tmpValues = ins_at pos (key, val) (leaf_records l)"
      using len by (simp add: tk tv zip_ins_at leaf_records_zip)
    moreover have "insort_key fst (key, val) (leaf_records l) = ins_at pos (key, val) (leaf_records l)"
    proof (rule insort_key_ins_at)
      show "\<forall>e \<in> set (take pos (leaf_records l)). fst e < key"
        using small len by (auto simp: leaf_records_zip take_zip dest: set_zip_leftD)
      show "\<forall>e \<in> set (drop pos (leaf_records l)). key < fst e"
        using big len by (auto simp: leaf_records_zip drop_zip dest: set_zip_leftD)
    qed
    ultimately show ?thesis
      by simp
  qed
  have "leaf_records old = take 15 (zip tmpKeys tmpValues)"
    by (simp add: leaf_records_zip [of old] lko lvo take_zip)
  then have ro: "leaf_records old = take 15 (insort_key fst (key, val) (leaf_records l))"
    by (simp only: zz)
  have "leaf_records new = drop 15 (zip tmpKeys tmpValues)"
    by (simp add: leaf_records_zip [of new] lkn lvn drop_zip)
  then have rn: "leaf_records new = drop 15 (insort_key fst (key, val) (leaf_records l))"
    by (simp only: zz)
  have oko: "leaf_ok old"
    using lens stk sorted_wrt_take [of "(<)" tmpKeys 15]
    by (simp add: leaf_ok_def lko) (simp add: old_def sp MAX_KEYS_LEAF_def)
  have okn: "leaf_ok new"
    using stk sorted_wrt_drop [of "(<)" tmpKeys 15] ltk
    by (simp add: leaf_ok_def lkn) (simp add: new_def sp MAX_KEYS_LEAF_def new_LeafNode_def)
  have pk: "keys new ! 0 = fst (hd (leaf_records new))"
  proof -
    have "length (lkeys new) = 16" "length (lvals new) = 16"
      using ltk by (simp_all add: lkn lvn)
    then have "leaf_records new \<noteq> []" "lkeys new \<noteq> []"
      by (auto simp: leaf_records_zip)
    then have "fst (hd (leaf_records new)) = hd (lkeys new)"
      using leaf_ok_lengths(3) [OF okn] by (metis hd_map)
    also have "\<dots> = lkeys new ! 0"
      using \<open>lkeys new \<noteq> []\<close> by (simp add: hd_conv_nth)
    also have "\<dots> = keys new ! 0"
      by (simp add: lkeys_def new_def sp ltk)
    finally show ?thesis
      by simp
  qed
  have app: "set (lkeys old @ lkeys new) = insert key (set (lkeys l))"
    by (simp add: lko lkn tk)
  have sapp: "sorted_wrt (<) (lkeys old @ lkeys new)"
    using stk by (simp add: lko lkn)
  show thesis
    using eq oko okn ro rn app sapp
    by (intro that [of new old "keys new ! 0"]) (simp_all add: pk, simp_all add: new_def old_def sp ltk)
qed

text \<open>
  C4. B+ tree leaf split postcondition: inserting a new key into a full leaf (30 keys in
  use, strictly increasing) forms the sorted union of the 31 records; the original leaf
  keeps the lower 15 records, a leaf appended to the arena receives the upper 16, the new
  leaf's next pointer is the old leaf's former next, the old leaf's next points to the new
  leaf, and the promoted key is the first key of the new leaf.
\<close>

theorem leaf_split_postcondition:
  assumes "leafOffset < length (nodes t)" and "nodes t ! leafOffset = Leaf leaf"
    and "numKeys leaf = MAX_KEYS_LEAF" and "length (keys leaf) = MAX_KEYS_LEAF"
    and "length (vals leaf) = MAX_KEYS_LEAF"
    and "sorted_wrt (<) (take (numKeys leaf) (keys leaf))"
    and "key \<notin> set (take (numKeys leaf) (keys leaf))"
  shows "\<exists>t' res old new.
           insertInternal t (Some leafOffset) key val = Some (t', res)
           \<and> length (nodes t') = length (nodes t) + 1
           \<and> nodes t' ! leafOffset = Leaf old
           \<and> nodes t' ! length (nodes t) = Leaf new
           \<and> leaf_records old = take 15 (insort_key fst (key, val) (leaf_records leaf))
           \<and> leaf_records new = drop 15 (insort_key fst (key, val) (leaf_records leaf))
           \<and> length (leaf_records old) = 15 \<and> length (leaf_records new) = 16
           \<and> nextLeaf new = nextLeaf leaf
           \<and> nextLeaf old = Some (length (nodes t))
           \<and> splitted res \<and> newChildOffset res = length (nodes t)
           \<and> promotedKey res = fst (hd (leaf_records new))"
proof -
  have ok: "leaf_ok leaf"
    using assms(3-6) by (simp add: leaf_ok_def lkeys_def)
  have none: "find (\<lambda>i. keys leaf ! i = key) [0 ..< numKeys leaf] = None"
  proof -
    have "keys leaf ! j \<noteq> key" if "j < numKeys leaf" for j
    proof -
      have "take (numKeys leaf) (keys leaf) ! j \<in> set (take (numKeys leaf) (keys leaf))"
        using that assms(3,4) by (intro nth_mem) simp
      then show ?thesis
        using that assms(7) by auto
    qed
    then show ?thesis
      by (simp add: find_upt_None)
  qed
  have full: "\<not> numKeys leaf < MAX_KEYS_LEAF"
    using assms(3) by simp
  obtain old new pk where r:
    "insertLeaf t leafOffset leaf key val
     = (t\<lparr>nodes := (nodes t @ [Leaf new])[leafOffset := Leaf old]\<rparr>,
        \<lparr>splitted = True, newChildOffset = length (nodes t), promotedKey = pk\<rparr>)"
    "leaf_ok old" "leaf_ok new"
    "nextLeaf new = nextLeaf leaf" "nextLeaf old = Some (length (nodes t))"
    "numKeys old = 15" "numKeys new = 16"
    "leaf_records old = take 15 (insort_key fst (key, val) (leaf_records leaf))"
    "leaf_records new = drop 15 (insort_key fst (key, val) (leaf_records leaf))"
    "pk = fst (hd (leaf_records new))"
    "set (lkeys old @ lkeys new) = insert key (set (lkeys leaf))"
    "sorted_wrt (<) (lkeys old @ lkeys new)"
    by (rule insertLeaf_split [OF ok none full, of t leafOffset val])
  let ?t' = "t\<lparr>nodes := (nodes t @ [Leaf new])[leafOffset := Leaf old]\<rparr>"
  let ?res = "\<lparr>splitted = True, newChildOffset = length (nodes t), promotedKey = pk\<rparr>"
  have call: "insertInternal t (Some leafOffset) key val = Some (?t', ?res)"
    using assms(1,2) r(1) by (subst insertInternal.simps) simp
  have a: "length (nodes ?t') = length (nodes t) + 1"
    by simp
  have b: "nodes ?t' ! leafOffset = Leaf old"
    using assms(1) by simp
  have c: "nodes ?t' ! length (nodes t) = Leaf new"
    using assms(1) by (simp add: nth_append)
  have d: "length (leaf_records old) = 15" "length (leaf_records new) = 16"
    using leaf_ok_lengths(5) [OF r(2)] leaf_ok_lengths(5) [OF r(3)] r(6,7) by simp_all
  have e: "splitted ?res" "newChildOffset ?res = length (nodes t)"
    "promotedKey ?res = fst (hd (leaf_records new))"
    using r(10) by simp_all
  show ?thesis
    apply (rule exI [of _ ?t'])
    apply (rule exI [of _ ?res])
    apply (rule exI [of _ old])
    apply (rule exI [of _ new])
    apply (intro conjI)
    apply (rule call)
    apply (rule a)
    apply (rule b)
    apply (rule c)
    apply (rule r(8))
    apply (rule r(9))
    apply (rule d(1))
    apply (rule d(2))
    apply (rule r(4))
    apply (rule r(5))
    apply (rule e(1))
    apply (rule e(2))
    apply (rule e(3))
    done
qed

theorem leaf_split_postcondition_witness:
  "0 < length (nodes full_leaf_tree) \<and> nodes full_leaf_tree ! 0 = Leaf full_leaf
   \<and> numKeys full_leaf = MAX_KEYS_LEAF \<and> length (keys full_leaf) = MAX_KEYS_LEAF
   \<and> length (vals full_leaf) = MAX_KEYS_LEAF
   \<and> sorted_wrt (<) (take (numKeys full_leaf) (keys full_leaf))
   \<and> 31 \<notin> set (take (numKeys full_leaf) (keys full_leaf))
   \<and> (\<exists>t' res old new.
           insertInternal full_leaf_tree (Some 0) 31 ''w'' = Some (t', res)
           \<and> length (nodes t') = length (nodes full_leaf_tree) + 1
           \<and> nodes t' ! 0 = Leaf old
           \<and> nodes t' ! length (nodes full_leaf_tree) = Leaf new
           \<and> leaf_records old = take 15 (insort_key fst (31, ''w'') (leaf_records full_leaf))
           \<and> leaf_records new = drop 15 (insort_key fst (31, ''w'') (leaf_records full_leaf))
           \<and> length (leaf_records old) = 15 \<and> length (leaf_records new) = 16
           \<and> nextLeaf new = nextLeaf full_leaf
           \<and> nextLeaf old = Some (length (nodes full_leaf_tree))
           \<and> splitted res \<and> newChildOffset res = length (nodes full_leaf_tree)
           \<and> promotedKey res = fst (hd (leaf_records new)))"
proof -
  have h1: "0 < length (nodes full_leaf_tree)" and h2: "nodes full_leaf_tree ! 0 = Leaf full_leaf"
    by (simp_all add: full_leaf_tree_def)
  have h3: "numKeys full_leaf = MAX_KEYS_LEAF" and h4: "length (keys full_leaf) = MAX_KEYS_LEAF"
    and h5: "length (vals full_leaf) = MAX_KEYS_LEAF"
    by (simp_all add: full_leaf_def MAX_KEYS_LEAF_def)
  have h6: "sorted_wrt (<) (take (numKeys full_leaf) (keys full_leaf))"
    by (simp add: full_leaf_def)
  have h7: "31 \<notin> set (take (numKeys full_leaf) (keys full_leaf))"
    by (simp add: full_leaf_def)
  show ?thesis
    using h1 h2 h3 h4 h5 h6 h7 leaf_split_postcondition [OF h1 h2 h3 h4 h5 h6 h7, of "''w''"]
    by (intro conjI)
qed

section \<open>B+ tree: subtrees of the arena\<close>

lemma subtree_leaf:
  "subtree ns 0 off lo hi \<longleftrightarrow>
     off < length ns \<and> (\<exists>l. ns ! off = Leaf l \<and> leaf_ok l
                          \<and> (\<forall>k \<in> set (lkeys l). in_lo lo k \<and> in_hi hi k))"
  by (cases "ns ! off") simp_all

lemma subtree_internal:
  "subtree ns (Suc h) off lo hi \<longleftrightarrow>
     off < length ns \<and> (\<exists>n. ns ! off = Internal n \<and> internal_ok n
        \<and> kids (subtree ns h) (tnodes ns h) lo hi (lkeys n) (ichildren n)
        \<and> (\<forall>c \<in> set (ichildren n). off \<notin> tnodes ns h c))"
  by (cases "ns ! off") simp_all

lemma tnodes_internal:
  "ns ! off = Internal n \<Longrightarrow> tnodes ns (Suc h) off = insert off (\<Union>c \<in> set (ichildren n). tnodes ns h c)"
  by simp

lemma tleaves_internal:
  "ns ! off = Internal n \<Longrightarrow> tleaves ns (Suc h) off = concat (map (tleaves ns h) (ichildren n))"
  by simp

lemma tentries_internal:
  "ns ! off = Internal n \<Longrightarrow> tentries ns (Suc h) off = concat (map (tentries ns h) (ichildren n))"
  by simp

lemma tentries_leaf: "ns ! off = Leaf l \<Longrightarrow> tentries ns 0 off = leaf_records l"
  by simp

lemma tnodes_0: "tnodes ns 0 off = {off}"
  by simp

lemma tleaves_0: "tleaves ns 0 off = [off]"
  by simp

lemma tnodes_Suc_leaf: "ns ! off = Leaf l \<Longrightarrow> tnodes ns (Suc h) off = {off}"
  by simp

lemma tleaves_Suc_leaf: "ns ! off = Leaf l \<Longrightarrow> tleaves ns (Suc h) off = []"
  by simp

lemma tentries_Suc_leaf: "ns ! off = Leaf l \<Longrightarrow> tentries ns (Suc h) off = []"
  by simp

lemma off_in_tnodes: "off \<in> tnodes ns h off"
  by (cases h) simp_all

declare tnodes.simps [simp del] tleaves.simps [simp del] tentries.simps [simp del]
  subtree.simps [simp del]

text \<open>Frame: a subtree only depends on its own nodes.\<close>

lemma frame_tnodes:
  "(\<forall>x \<in> tnodes ns h off. ns' ! x = ns ! x)
   \<Longrightarrow> tnodes ns' h off = tnodes ns h off \<and> tleaves ns' h off = tleaves ns h off
       \<and> tentries ns' h off = tentries ns h off"
proof (induction h arbitrary: off)
  case 0
  then have "ns' ! off = ns ! off"
    by (simp add: tnodes_0)
  then show ?case
    by (simp add: tnodes.simps tleaves.simps tentries.simps)
next
  case (Suc h)
  have same: "ns' ! off = ns ! off"
    using Suc.prems off_in_tnodes by blast
  show ?case
  proof (cases "ns ! off")
    case (Leaf l)
    then show ?thesis
      using same by (simp add: tnodes_Suc_leaf tleaves_Suc_leaf tentries_Suc_leaf)
  next
    case (Internal n)
    have ch: "tnodes ns' h c = tnodes ns h c \<and> tleaves ns' h c = tleaves ns h c
              \<and> tentries ns' h c = tentries ns h c" if c: "c \<in> set (ichildren n)" for c
    proof (rule Suc.IH)
      show "\<forall>x \<in> tnodes ns h c. ns' ! x = ns ! x"
        using Suc.prems c Internal by (auto simp: tnodes_internal)
    qed
    have a: "map (tleaves ns' h) (ichildren n) = map (tleaves ns h) (ichildren n)"
      by (rule map_cong) (simp_all add: ch)
    have b: "map (tentries ns' h) (ichildren n) = map (tentries ns h) (ichildren n)"
      by (rule map_cong) (simp_all add: ch)
    have c: "(\<Union>c \<in> set (ichildren n). tnodes ns' h c) = (\<Union>c \<in> set (ichildren n). tnodes ns h c)"
      using ch by simp
    have same': "ns' ! off = Internal n"
      using same Internal by simp
    show ?thesis
      unfolding tnodes_internal [OF same'] tnodes_internal [OF Internal]
        tleaves_internal [OF same'] tleaves_internal [OF Internal]
        tentries_internal [OF same'] tentries_internal [OF Internal] a b c
      by simp
  qed
qed

lemma subtree_in_arena: "subtree ns h off lo hi \<Longrightarrow> tnodes ns h off \<subseteq> {..< length ns}"
proof (induction h arbitrary: off lo hi)
  case 0
  then show ?case by (simp add: subtree_leaf tnodes_0)
next
  case (Suc h)
  then obtain n where n: "off < length ns" "ns ! off = Internal n"
    "kids (subtree ns h) (tnodes ns h) lo hi (lkeys n) (ichildren n)"
    by (auto simp: subtree_internal)
  have "tnodes ns h c \<subseteq> {..< length ns}" if c: "c \<in> set (ichildren n)" for c
  proof -
    obtain j where j: "j < length (ichildren n)" "c = ichildren n ! j"
      using c by (auto simp: in_set_conv_nth)
    then have "subtree ns h c (blo lo (lkeys n) j) (bhi hi (lkeys n) j)"
      using n(3) by (simp add: kids_def)
    then show ?thesis
      by (rule Suc.IH)
  qed
  then show ?case
    using n(1,2) by (auto simp: tnodes_internal)
qed

lemma frame_subtree:
  assumes "subtree ns h off lo hi" and "\<forall>x \<in> tnodes ns h off. ns' ! x = ns ! x"
    and "length ns \<le> length ns'"
  shows "subtree ns' h off lo hi"
  using assms(1,2)
proof (induction h arbitrary: off lo hi)
  case 0
  then show ?case
    using assms(3) by (auto simp: subtree_leaf tnodes_0)
next
  case (Suc h)
  then obtain n where n: "off < length ns" "ns ! off = Internal n" "internal_ok n"
    "kids (subtree ns h) (tnodes ns h) lo hi (lkeys n) (ichildren n)"
    "\<forall>c \<in> set (ichildren n). off \<notin> tnodes ns h c"
    by (auto simp: subtree_internal)
  have same: "ns' ! off = Internal n"
    using Suc.prems(2) n(2) off_in_tnodes by (metis)
  have sub: "\<forall>x \<in> tnodes ns h c. ns' ! x = ns ! x" if c: "c \<in> set (ichildren n)" for c
    using Suc.prems(2) c n(2) by (auto simp: tnodes_internal)
  have T: "tnodes ns' h c = tnodes ns h c" if c: "c \<in> set (ichildren n)" for c
    using frame_tnodes [OF sub [OF c]] by simp
  have P: "subtree ns' h (ichildren n ! j) (blo lo (lkeys n) j) (bhi hi (lkeys n) j)"
    if j: "j < length (ichildren n)" for j
  proof (rule Suc.IH)
    show "subtree ns h (ichildren n ! j) (blo lo (lkeys n) j) (bhi hi (lkeys n) j)"
      using n(4) j by (simp add: kids_def)
    show "\<forall>x \<in> tnodes ns h (ichildren n ! j). ns' ! x = ns ! x"
      by (rule sub) (use j in simp)
  qed
  have k: "kids (subtree ns' h) (tnodes ns' h) lo hi (lkeys n) (ichildren n)"
    using n(4) P T unfolding kids_def by (simp add: nth_mem)
  have "\<forall>c \<in> set (ichildren n). off \<notin> tnodes ns' h c"
    using n(5) T by simp
  then show ?case
    using n(1,3) assms(3) same k by (simp add: subtree_internal)
qed

section \<open>B+ tree: the records of a subtree\<close>

lemma in_lo_trans: "in_lo lo a \<Longrightarrow> a \<le> b \<Longrightarrow> in_lo lo b"
  by (cases lo) (auto simp: in_lo_def)

lemma in_hi_trans: "a < b \<Longrightarrow> in_hi_le hi b \<Longrightarrow> in_hi hi a"
  by (cases hi) (auto simp: in_hi_def in_hi_le_def)

lemma in_hi_le_trans: "a \<le> b \<Longrightarrow> in_hi_le hi b \<Longrightarrow> in_hi_le hi a"
  by (cases hi) (auto simp: in_hi_le_def)

lemma in_hi_imp_le: "in_hi hi a \<Longrightarrow> in_hi_le hi a"
  by (cases hi) (auto simp: in_hi_def in_hi_le_def)

lemma in_lo_Some [simp]: "in_lo (Some b) k \<longleftrightarrow> b \<le> k"
  by (simp add: in_lo_def)

lemma in_hi_Some [simp]: "in_hi (Some b) k \<longleftrightarrow> k < b"
  by (simp add: in_hi_def)

lemma in_hi_le_Some [simp]: "in_hi_le (Some b) k \<longleftrightarrow> k \<le> b"
  by (simp add: in_hi_le_def)

lemma in_None [simp]: "in_lo None k" "in_hi None k" "in_hi_le None k"
  by (simp_all add: in_lo_def in_hi_def in_hi_le_def)

lemma kids_blo:
  assumes "kids P T lo hi ks cs" and "j < length cs" and "in_lo (blo lo ks j) k"
  shows "in_lo lo k"
proof (cases "j = 0")
  case True
  then show ?thesis
    using assms(3) by (simp add: blo_def)
next
  case False
  then have "ks ! (j - 1) \<in> set ks" "ks ! (j - 1) \<le> k"
    using assms by (simp_all add: blo_def kids_def)
  then show ?thesis
    using assms(1) in_lo_trans unfolding kids_def by blast
qed

lemma kids_bhi:
  assumes "kids P T lo hi ks cs" and "j < length cs" and "in_hi (bhi hi ks j) k"
  shows "in_hi hi k"
proof (cases "j < length ks")
  case False
  then show ?thesis
    using assms(3) by (simp add: bhi_def)
next
  case True
  then have "ks ! j \<in> set ks" "k < ks ! j"
    using assms by (simp_all add: bhi_def)
  then show ?thesis
    using assms(1) in_hi_trans unfolding kids_def by blast
qed

lemma subtree_entries_bounds:
  "subtree ns h off lo hi \<Longrightarrow> e \<in> set (tentries ns h off) \<Longrightarrow> in_lo lo (fst e) \<and> in_hi hi (fst e)"
proof (induction h arbitrary: off lo hi)
  case 0
  then obtain l where l: "ns ! off = Leaf l" "leaf_ok l"
    "\<forall>k \<in> set (lkeys l). in_lo lo k \<and> in_hi hi k"
    by (auto simp: subtree_leaf)
  have "fst e \<in> set (map fst (leaf_records l))"
    using "0.prems"(2) l(1) by (simp add: tentries_leaf)
  then have "fst e \<in> set (lkeys l)"
    using leaf_ok_lengths(3) [OF l(2)] by simp
  then show ?case
    using l(3) by blast
next
  case (Suc h)
  then obtain n where n: "ns ! off = Internal n"
    "kids (subtree ns h) (tnodes ns h) lo hi (lkeys n) (ichildren n)"
    by (auto simp: subtree_internal)
  obtain c where c: "c \<in> set (ichildren n)" "e \<in> set (tentries ns h c)"
    using Suc.prems(2) n(1) by (auto simp: tentries_internal)
  obtain j where j: "j < length (ichildren n)" "c = ichildren n ! j"
    using c(1) by (auto simp: in_set_conv_nth)
  have "subtree ns h c (blo lo (lkeys n) j) (bhi hi (lkeys n) j)"
    using n(2) j by (simp add: kids_def)
  then have "in_lo (blo lo (lkeys n) j) (fst e) \<and> in_hi (bhi hi (lkeys n) j) (fst e)"
    using c(2) by (rule Suc.IH)
  then show ?case
    using kids_blo [OF n(2) j(1)] kids_bhi [OF n(2) j(1)] by blast
qed

lemma sorted_wrt_concat_map:
  assumes "\<forall>x \<in> set xs. sorted_wrt P (f x)"
    and "\<forall>i j. i < j \<and> j < length xs \<longrightarrow> (\<forall>a \<in> set (f (xs ! i)). \<forall>b \<in> set (f (xs ! j)). P a b)"
  shows "sorted_wrt P (concat (map f xs))"
  using assms
proof (induction xs)
  case Nil
  then show ?case by simp
next
  case (Cons x xs)
  have rest: "sorted_wrt P (concat (map f xs))"
  proof (rule Cons.IH)
    show "\<forall>x \<in> set xs. sorted_wrt P (f x)"
      using Cons.prems(1) by simp
    show "\<forall>i j. i < j \<and> j < length xs \<longrightarrow> (\<forall>a \<in> set (f (xs ! i)). \<forall>b \<in> set (f (xs ! j)). P a b)"
    proof (intro allI impI)
      fix i j
      assume "i < j \<and> j < length xs"
      then have "Suc i < Suc j \<and> Suc j < length (x # xs)"
        by simp
      then have "\<forall>a \<in> set (f ((x # xs) ! Suc i)). \<forall>b \<in> set (f ((x # xs) ! Suc j)). P a b"
        using Cons.prems(2) by blast
      then show "\<forall>a \<in> set (f (xs ! i)). \<forall>b \<in> set (f (xs ! j)). P a b"
        by simp
    qed
  qed
  have cross: "P a b" if a: "a \<in> set (f x)" and b: "b \<in> set (concat (map f xs))" for a b
  proof -
    obtain y where y: "y \<in> set xs" "b \<in> set (f y)"
      using b by auto
    then obtain j where j: "j < length xs" "y = xs ! j"
      by (auto simp: in_set_conv_nth)
    have "0 < Suc j \<and> Suc j < length (x # xs)"
      using j(1) by simp
    then have "\<forall>a \<in> set (f ((x # xs) ! 0)). \<forall>b \<in> set (f ((x # xs) ! Suc j)). P a b"
      using Cons.prems(2) by blast
    then show ?thesis
      using a y(2) j(2) by simp
  qed
  show ?case
    using Cons.prems(1) rest cross by (simp add: sorted_wrt_append)
qed

lemma subtree_entries_sorted:
  "subtree ns h off lo hi \<Longrightarrow> sorted_wrt (\<lambda>a b. fst a < fst b) (tentries ns h off)"
proof (induction h arbitrary: off lo hi)
  case 0
  then obtain l where l: "ns ! off = Leaf l" "leaf_ok l"
    by (auto simp: subtree_leaf)
  have "sorted_wrt (<) (map fst (leaf_records l))"
    using l(2) leaf_ok_lengths(3) [OF l(2)] by (simp add: leaf_ok_def)
  then show ?case
    using l(1) by (simp add: tentries_leaf sorted_wrt_map)
next
  case (Suc h)
  then obtain n where n: "ns ! off = Internal n"
    "kids (subtree ns h) (tnodes ns h) lo hi (lkeys n) (ichildren n)"
    by (auto simp: subtree_internal)
  let ?ks = "lkeys n" and ?cs = "ichildren n"
  have sub: "subtree ns h (?cs ! j) (blo lo ?ks j) (bhi hi ?ks j)" if "j < length ?cs" for j
    using n(2) that by (simp add: kids_def)
  have len: "length ?cs = length ?ks + 1" and srt: "sorted ?ks"
    using n(2) by (simp_all add: kids_def)
  have each: "\<forall>c \<in> set ?cs. sorted_wrt (\<lambda>a b. fst a < fst b) (tentries ns h c)"
  proof
    fix c
    assume "c \<in> set ?cs"
    then obtain j where "j < length ?cs" "c = ?cs ! j"
      by (auto simp: in_set_conv_nth)
    then show "sorted_wrt (\<lambda>a b. fst a < fst b) (tentries ns h c)"
      using sub Suc.IH by blast
  qed
  have cross: "\<forall>i j. i < j \<and> j < length ?cs \<longrightarrow>
      (\<forall>a \<in> set (tentries ns h (?cs ! i)). \<forall>b \<in> set (tentries ns h (?cs ! j)). fst a < fst b)"
  proof (intro allI impI ballI)
    fix i j a b
    assume ij: "i < j \<and> j < length ?cs"
      and a: "a \<in> set (tentries ns h (?cs ! i))" and b: "b \<in> set (tentries ns h (?cs ! j))"
    have i: "i < length ?ks" and j: "j - 1 < length ?ks" "i \<le> j - 1" "j \<noteq> 0"
      using ij len by auto
    have "in_hi (bhi hi ?ks i) (fst a)"
      using subtree_entries_bounds [OF sub a] ij by simp
    then have 1: "fst a < ?ks ! i"
      using i by (simp add: bhi_def)
    have "in_lo (blo lo ?ks j) (fst b)"
      using subtree_entries_bounds [OF sub b] ij by simp
    then have 2: "?ks ! (j - 1) \<le> fst b"
      using j(3) by (simp add: blo_def)
    have "?ks ! i \<le> ?ks ! (j - 1)"
      using srt j(1,2) by (simp add: sorted_nth_mono)
    then show "fst a < fst b"
      using 1 2 by simp
  qed
  show ?case
    unfolding tentries_internal [OF n(1)] using each cross by (rule sorted_wrt_concat_map)
qed

lemma subtree_entries_distinct:
  assumes "subtree ns h off lo hi"
  shows "distinct (map fst (tentries ns h off))"
proof -
  have "sorted_wrt (<) (map fst (tentries ns h off))"
    using subtree_entries_sorted [OF assms] by (simp add: sorted_wrt_map)
  then show ?thesis
    using strict_sorted_iff by blast
qed

section \<open>B+ tree: search\<close>

lemma child_index_props:
  shows "child_index n key \<le> length (lkeys n)"
    and "\<forall>m < child_index n key. lkeys n ! m \<le> key"
    and "child_index n key < length (lkeys n) \<longrightarrow> key < lkeys n ! child_index n key"
proof -
  let ?P = "\<lambda>k. key \<ge> k"
  have ci: "child_index n key = length (takeWhile ?P (lkeys n))"
    by (simp add: child_index_def lkeys_def)
  show "child_index n key \<le> length (lkeys n)"
    unfolding ci by (rule length_takeWhile_le)
  show "\<forall>m < child_index n key. lkeys n ! m \<le> key"
  proof (intro allI impI)
    fix m
    assume m: "m < child_index n key"
    then have "takeWhile ?P (lkeys n) ! m \<in> set (takeWhile ?P (lkeys n))"
      unfolding ci by (rule nth_mem)
    then have "?P (takeWhile ?P (lkeys n) ! m)"
      by (blast dest: set_takeWhileD)
    then show "lkeys n ! m \<le> key"
      using m unfolding ci by (simp add: takeWhile_nth)
  qed
  show "child_index n key < length (lkeys n) \<longrightarrow> key < lkeys n ! child_index n key"
  proof
    assume "child_index n key < length (lkeys n)"
    then have "\<not> ?P (lkeys n ! length (takeWhile ?P (lkeys n)))"
      unfolding ci by (rule nth_length_takeWhile)
    then show "key < lkeys n ! child_index n key"
      unfolding ci by (simp add: not_le)
  qed
qed

lemma internal_ok_lengths:
  assumes "internal_ok n"
  shows "length (lkeys n) = numKeys n" and "length (ichildren n) = numKeys n + 1"
    and "\<And>j. j \<le> numKeys n \<Longrightarrow> childIndices n ! j = Some (ichildren n ! j)"
    and "\<And>j. j \<le> numKeys n \<Longrightarrow> j < length (childIndices n)"
proof -
  have l: "numKeys n \<le> 120" "length (keys n) = 120" "length (childIndices n) = 121"
    and nn: "None \<notin> set (take (numKeys n + 1) (childIndices n))"
    using assms by (simp_all add: internal_ok_def MAX_KEYS_INTERNAL_def)
  show "length (lkeys n) = numKeys n"
    using l by (simp add: lkeys_def)
  show "length (ichildren n) = numKeys n + 1"
    using l by (simp add: ichildren_def)
  show "childIndices n ! j = Some (ichildren n ! j)" if j: "j \<le> numKeys n" for j
  proof -
    have "take (numKeys n + 1) (childIndices n) ! j \<in> set (take (numKeys n + 1) (childIndices n))"
      using j l by (intro nth_mem) simp
    then have "take (numKeys n + 1) (childIndices n) ! j \<noteq> None"
      using nn by metis
    then show ?thesis
      using j l by (auto simp: ichildren_def)
  qed
  show "j < length (childIndices n)" if "j \<le> numKeys n" for j
    using that l by simp
qed

text \<open>Among the children of a node only the selected one can hold the key.\<close>

lemma kids_only_child:
  assumes k: "kids (subtree ns h) T lo hi (lkeys n) (ichildren n)"
    and j: "j < length (ichildren n)"
    and e: "e \<in> set (tentries ns h (ichildren n ! j))" "fst e = key"
  shows "j = child_index n key"
proof -
  let ?ks = "lkeys n" and ?i = "child_index n key"
  have len: "length (ichildren n) = length ?ks + 1" and srt: "sorted ?ks"
    using k by (simp_all add: kids_def)
  have sub: "subtree ns h (ichildren n ! j) (blo lo ?ks j) (bhi hi ?ks j)"
    using k j by (simp add: kids_def)
  have b: "in_lo (blo lo ?ks j) key" "in_hi (bhi hi ?ks j) key"
    using subtree_entries_bounds [OF sub e(1)] e(2) by simp_all
  note ci = child_index_props [of n key]
  show ?thesis
  proof (rule ccontr)
    assume "j \<noteq> ?i"
    then consider "j < ?i" | "?i < j"
      by linarith
    then show False
    proof cases
      case 1
      then have jl: "j < length ?ks"
        using ci(1) by simp
      then have "key < ?ks ! j"
        using b(2) by (simp add: bhi_def)
      moreover have "?ks ! j \<le> key"
        using ci(2) 1 by simp
      ultimately show False
        by simp
    next
      case 2
      then have j0: "j \<noteq> 0" "j - 1 < length ?ks" "?i \<le> j - 1" "?i < length ?ks"
        using j len by auto
      then have "?ks ! (j - 1) \<le> key"
        using b(1) by (simp add: blo_def)
      moreover have "key < ?ks ! ?i"
        using ci(3) j0(4) by simp
      moreover have "?ks ! ?i \<le> ?ks ! (j - 1)"
        using srt j0(2,3) by (simp add: sorted_nth_mono)
      ultimately show False
        by simp
    qed
  qed
qed

lemma searchKey_correct:
  "subtree ns h off lo hi
   \<Longrightarrow> \<exists>r. searchKey ns (Some off) key = Some r \<and> (\<forall>v. r = Some v \<longleftrightarrow> (key, v) \<in> set (tentries ns h off))"
proof (induction h arbitrary: off lo hi)
  case 0
  then obtain l where l: "off < length ns" "ns ! off = Leaf l" "leaf_ok l"
    by (auto simp: subtree_leaf)
  have call: "searchKey ns (Some off) key = Some (leaf_search l key)"
    using l(1,2) by (subst searchKey.simps) simp
  have "distinct (map fst (leaf_records l))"
    using leaf_ok_lengths(3,4) [OF l(3)] by simp
  then have "\<forall>v. map_of (leaf_records l) key = Some v \<longleftrightarrow> (key, v) \<in> set (leaf_records l)"
    by simp
  then show ?case
    using call l(2) by (simp add: leaf_search_map_of [OF l(3)] tentries_leaf)
next
  case (Suc h)
  then obtain n where n: "off < length ns" "ns ! off = Internal n" "internal_ok n"
    "kids (subtree ns h) (tnodes ns h) lo hi (lkeys n) (ichildren n)"
    by (auto simp: subtree_internal)
  let ?i = "child_index n key"
  let ?c = "ichildren n ! ?i"
  have len: "length (lkeys n) = numKeys n" "length (ichildren n) = numKeys n + 1"
    using internal_ok_lengths [OF n(3)] by simp_all
  have i: "?i \<le> numKeys n"
    using child_index_props(1) [of n key] len by simp
  have ci: "childIndices n ! ?i = Some ?c" "?i < length (childIndices n)"
    using internal_ok_lengths(3,4) [OF n(3) i] by simp_all
  have call: "searchKey ns (Some off) key = searchKey ns (Some ?c) key"
    using n(1,2) ci by (subst searchKey.simps) (simp add: Let_def)
  have sub: "subtree ns h ?c (blo lo (lkeys n) ?i) (bhi hi (lkeys n) ?i)"
    using n(4) i len by (simp add: kids_def)
  obtain r where r: "searchKey ns (Some ?c) key = Some r"
    "\<forall>v. r = Some v \<longleftrightarrow> (key, v) \<in> set (tentries ns h ?c)"
    using Suc.IH [OF sub] by blast
  have "(key, v) \<in> set (tentries ns (Suc h) off) \<longleftrightarrow> (key, v) \<in> set (tentries ns h ?c)" for v
  proof
    assume "(key, v) \<in> set (tentries ns (Suc h) off)"
    then obtain c where c: "c \<in> set (ichildren n)" "(key, v) \<in> set (tentries ns h c)"
      using n(2) by (auto simp: tentries_internal)
    then obtain j where j: "j < length (ichildren n)" "c = ichildren n ! j"
      by (auto simp: in_set_conv_nth)
    have "j = ?i"
      using kids_only_child [OF n(4) j(1), of "(key, v)" key] c(2) j(2) by simp
    then show "(key, v) \<in> set (tentries ns h ?c)"
      using c(2) j(2) by simp
  next
    assume "(key, v) \<in> set (tentries ns h ?c)"
    moreover have "?c \<in> set (ichildren n)"
      using i len by simp
    ultimately show "(key, v) \<in> set (tentries ns (Suc h) off)"
      using n(2) by (auto simp: tentries_internal)
  qed
  then show ?case
    using call r by simp
qed

section \<open>B+ tree: the children of a node under insertion\<close>

lemma nth_ins_at:
  assumes "i \<le> length xs"
  shows "j < i \<Longrightarrow> ins_at i x xs ! j = xs ! j"
    and "ins_at i x xs ! i = x"
    and "i < j \<Longrightarrow> j \<le> length xs \<Longrightarrow> ins_at i x xs ! j = xs ! (j - 1)"
proof -
  have l: "length (take i xs) = i"
    using assms by simp
  show "j < i \<Longrightarrow> ins_at i x xs ! j = xs ! j"
    using l by (simp add: ins_at_def nth_append)
  show "ins_at i x xs ! i = x"
    using l by (simp add: ins_at_def nth_append)
  show "ins_at i x xs ! j = xs ! (j - 1)" if "i < j" "j \<le> length xs"
  proof -
    have "ins_at i x xs ! j = (x # drop i xs) ! (j - i)"
      using l that by (simp add: ins_at_def nth_append)
    also have "\<dots> = drop i xs ! (j - i - 1)"
      using that by (simp add: nth_Cons')
    also have "\<dots> = xs ! (j - 1)"
      using that assms by simp
    finally show ?thesis .
  qed
qed

lemma kids_frame:
  assumes "kids (subtree ns h) (tnodes ns h) lo hi ks cs"
    and "\<forall>c \<in> set cs. \<forall>x \<in> tnodes ns h c. ns' ! x = ns ! x"
    and "length ns \<le> length ns'"
  shows "kids (subtree ns' h) (tnodes ns' h) lo hi ks cs"
proof -
  have T: "tnodes ns' h c = tnodes ns h c" if "c \<in> set cs" for c
    using frame_tnodes [of ns h c ns'] assms(2) that by simp
  have P: "subtree ns' h (cs ! j) (blo lo ks j) (bhi hi ks j)" if j: "j < length cs" for j
  proof (rule frame_subtree)
    show "subtree ns h (cs ! j) (blo lo ks j) (bhi hi ks j)"
      using assms(1) j by (simp add: kids_def)
    show "\<forall>x \<in> tnodes ns h (cs ! j). ns' ! x = ns ! x"
      using assms(2) nth_mem [OF j] by blast
    show "length ns \<le> length ns'"
      by (rule assms(3))
  qed
  show ?thesis
    using assms(1) P T unfolding kids_def by (simp add: nth_mem)
qed

lemma kids_replace:
  assumes k: "kids P T lo hi ks cs" and i: "i < length cs"
    and Pi: "P' (cs ! i) (blo lo ks i) (bhi hi ks i)"
    and others: "\<forall>j < length cs. j \<noteq> i \<longrightarrow> P' (cs ! j) (blo lo ks j) (bhi hi ks j) \<and> T' (cs ! j) = T (cs ! j)"
    and Ti: "T' (cs ! i) \<subseteq> T (cs ! i) \<union> F"
    and F: "\<forall>j < length cs. F \<inter> T (cs ! j) = {}"
  shows "kids P' T' lo hi ks cs"
proof -
  have P: "\<forall>j < length cs. P' (cs ! j) (blo lo ks j) (bhi hi ks j)"
    using Pi others by metis
  have sub: "T' (cs ! j) \<subseteq> T (cs ! j) \<union> (if j = i then F else {})" if "j < length cs" for j
    using that Ti others by auto
  have D: "T' (cs ! a) \<inter> T' (cs ! b) = {}" if ab: "a < b \<and> b < length cs" for a b
  proof -
    have d: "T (cs ! a) \<inter> T (cs ! b) = {}"
      using k ab by (simp add: kids_def)
    have fa: "F \<inter> T (cs ! a) = {}" and fb: "F \<inter> T (cs ! b) = {}"
      using F ab by simp_all
    have sa: "T' (cs ! a) \<subseteq> T (cs ! a) \<union> (if a = i then F else {})"
      and sb: "T' (cs ! b) \<subseteq> T (cs ! b) \<union> (if b = i then F else {})"
      using sub ab by simp_all
    show ?thesis
    proof (cases "a = i")
      case True
      then have "b \<noteq> i"
        using ab by simp
      then have "T' (cs ! b) \<subseteq> T (cs ! b)" "T' (cs ! a) \<subseteq> T (cs ! a) \<union> F"
        using sa sb True by simp_all
      then show ?thesis
        using d fa fb by blast
    next
      case False
      then have "T' (cs ! a) \<subseteq> T (cs ! a)" "T' (cs ! b) \<subseteq> T (cs ! b) \<union> F"
        using sa sb by (auto split: if_splits)
      then show ?thesis
        using d fa fb by blast
    qed
  qed
  show ?thesis
    using k P D unfolding kids_def by simp
qed

lemma kids_bhi_le:
  assumes "kids P T lo hi ks cs" and "j < length cs" and "in_hi_le (bhi hi ks j) k"
  shows "in_hi_le hi k"
proof (cases "j < length ks")
  case False
  then show ?thesis
    using assms(3) by (simp add: bhi_def)
next
  case True
  then have "ks ! j \<in> set ks" "k \<le> ks ! j"
    using assms by (simp_all add: bhi_def)
  then show ?thesis
    using assms(1) in_hi_le_trans unfolding kids_def by blast
qed

lemma kids_take:
  assumes k: "kids P T lo hi ks cs" and m: "m < length ks"
  shows "kids P T lo (Some (ks ! m)) (take m ks) (take (Suc m) cs)"
proof -
  have len: "length cs = length ks + 1" and srt: "sorted ks"
    using k by (simp_all add: kids_def)
  have bnd: "in_lo lo x \<and> in_hi_le (Some (ks ! m)) x" if x: "x \<in> set (take m ks)" for x
  proof -
    obtain a where a: "a < m" "x = ks ! a"
      using x m by (auto simp: in_set_conv_nth)
    have "x \<in> set ks"
      using x by (rule in_set_takeD)
    then have "in_lo lo x"
      using k by (simp add: kids_def)
    moreover have "ks ! a \<le> ks ! m"
      using srt a(1) m by (simp add: sorted_nth_mono)
    ultimately show ?thesis
      using a(2) by simp
  qed
  have ch: "P (take (Suc m) cs ! j) (blo lo (take m ks) j) (bhi (Some (ks ! m)) (take m ks) j)"
    if j: "j < length (take (Suc m) cs)" for j
  proof -
    have jm: "j \<le> m" "j < length cs"
      using j m len by simp_all
    have 1: "blo lo (take m ks) j = blo lo ks j"
      using jm(1) by (cases j) (simp_all add: blo_def)
    have 2: "bhi (Some (ks ! m)) (take m ks) j = bhi hi ks j"
      using jm(1) m by (cases "j = m") (simp_all add: bhi_def)
    show ?thesis
      using k jm unfolding 1 2 by (simp add: kids_def)
  qed
  have dis: "T (take (Suc m) cs ! a) \<inter> T (take (Suc m) cs ! b) = {}"
    if "a < b \<and> b < length (take (Suc m) cs)" for a b
    using that k by (simp add: kids_def)
  show ?thesis
    unfolding kids_def
    using m len srt bnd ch dis by (simp add: sorted_wrt_take)
qed

lemma kids_drop:
  assumes k: "kids P T lo hi ks cs" and m: "m < length ks"
  shows "kids P T (Some (ks ! m)) hi (drop (Suc m) ks) (drop (Suc m) cs)"
proof -
  have len: "length cs = length ks + 1" and srt: "sorted ks"
    using k by (simp_all add: kids_def)
  have bnd: "in_lo (Some (ks ! m)) x \<and> in_hi_le hi x" if x: "x \<in> set (drop (Suc m) ks)" for x
  proof -
    obtain a where a: "a < length ks - Suc m" "x = ks ! (Suc m + a)"
      using x by (auto simp: in_set_conv_nth)
    have "x \<in> set ks"
      using x by (rule in_set_dropD)
    then have "in_hi_le hi x"
      using k by (simp add: kids_def)
    moreover have "ks ! m \<le> ks ! (Suc m + a)"
      using srt a(1) by (simp add: sorted_nth_mono)
    ultimately show ?thesis
      using a(2) by simp
  qed
  have ch: "P (drop (Suc m) cs ! j) (blo (Some (ks ! m)) (drop (Suc m) ks) j) (bhi hi (drop (Suc m) ks) j)"
    if j: "j < length (drop (Suc m) cs)" for j
  proof -
    have jm: "Suc m + j < length cs"
      using j by simp
    have 1: "blo (Some (ks ! m)) (drop (Suc m) ks) j = blo lo ks (Suc m + j)"
      using jm len by (cases j) (simp_all add: blo_def)
    have 2: "bhi hi (drop (Suc m) ks) j = bhi hi ks (Suc m + j)"
      using jm len by (auto simp: bhi_def)
    have "P (cs ! (Suc m + j)) (blo lo ks (Suc m + j)) (bhi hi ks (Suc m + j))"
      using k jm by (simp add: kids_def)
    then show ?thesis
      using jm unfolding 1 2 by simp
  qed
  have dis: "T (drop (Suc m) cs ! a) \<inter> T (drop (Suc m) cs ! b) = {}"
    if ab: "a < b \<and> b < length (drop (Suc m) cs)" for a b
  proof -
    have "Suc m + a < Suc m + b \<and> Suc m + b < length cs"
      using ab by auto
    then have "T (cs ! (Suc m + a)) \<inter> T (cs ! (Suc m + b)) = {}"
      using k unfolding kids_def by blast
    moreover have "Suc m \<le> length cs"
      using m len by simp
    ultimately show ?thesis
      by simp
  qed
  show ?thesis
    unfolding kids_def
    using m len srt bnd ch dis by (simp add: sorted_wrt_drop)
qed

lemma kids_insert:
  assumes k: "kids P T lo hi ks cs" and i: "i < length cs"
    and Pi: "P' (cs ! i) (blo lo ks i) (Some pk)" and Pn: "P' new (Some pk) (bhi hi ks i)"
    and lo: "in_lo (blo lo ks i) pk" and hi: "in_hi_le (bhi hi ks i) pk"
    and others: "\<forall>j < length cs. j \<noteq> i \<longrightarrow> P' (cs ! j) (blo lo ks j) (bhi hi ks j) \<and> T' (cs ! j) = T (cs ! j)"
    and Ti: "T' (cs ! i) \<union> T' new \<subseteq> T (cs ! i) \<union> F" and dis: "T' (cs ! i) \<inter> T' new = {}"
    and F: "\<forall>j < length cs. F \<inter> T (cs ! j) = {}"
  shows "kids P' T' lo hi (ins_at i pk ks) (ins_at (Suc i) new cs)"
proof -
  let ?ks = "ins_at i pk ks" and ?cs = "ins_at (Suc i) new cs"
  have len: "length cs = length ks + 1" and srt: "sorted ks"
    using k by (simp_all add: kids_def)
  have im: "i \<le> length ks" "Suc i \<le> length cs"
    using i len by simp_all
  note kn = nth_ins_at [OF im(1), where x = pk]
  note cn = nth_ins_at [OF im(2), where x = new]
  have below: "x \<le> pk" if x: "x \<in> set (take i ks)" for x
  proof -
    obtain a where a: "a < i" "x = ks ! a"
      using x im by (auto simp: in_set_conv_nth)
    then have "i \<noteq> 0"
      by simp
    then have "ks ! (i - 1) \<le> pk"
      using lo by (simp add: blo_def)
    moreover have "ks ! a \<le> ks ! (i - 1)"
      using srt a(1) im(1) by (intro sorted_nth_mono) simp_all
    ultimately show ?thesis
      using a(2) by simp
  qed
  have above: "pk \<le> y" if y: "y \<in> set (drop i ks)" for y
  proof -
    obtain b where b: "b < length ks - i" "y = ks ! (i + b)"
      using y by (auto simp: in_set_conv_nth)
    then have "i < length ks"
      by simp
    then have "pk \<le> ks ! i"
      using hi by (simp add: bhi_def)
    moreover have "ks ! i \<le> ks ! (i + b)"
      using srt b(1) by (intro sorted_nth_mono) simp_all
    ultimately show ?thesis
      using b(2) by simp
  qed
  have "sorted (take i ks @ drop i ks)"
    using srt by simp
  then have "sorted (take i ks)" "sorted (drop i ks)"
    unfolding sorted_append by blast+
  moreover have "\<forall>x \<in> set (take i ks). \<forall>y \<in> set (drop i ks). x \<le> y"
    using below above by (meson order_trans)
  ultimately have s1: "sorted ?ks"
    using below above by (simp add: ins_at_def sorted_append)
  have plo: "in_lo lo pk"
    using k i lo by (rule kids_blo)
  have phi: "in_hi_le hi pk"
    using k i hi by (rule kids_bhi_le)
  have s2: "\<forall>x \<in> set ?ks. in_lo lo x \<and> in_hi_le hi x"
    using k plo phi by (simp add: kids_def)
  have old: "P' (cs ! j) (blo lo ks j) (bhi hi ks j)" if "j < length cs" "j \<noteq> i" for j
    using others that by blast
  have s3: "P' (?cs ! j) (blo lo ?ks j) (bhi hi ?ks j)" if j: "j < length ?cs" for j
  proof -
    consider "j < i" | "j = i" | "j = Suc i" | "Suc i < j"
      by linarith
    then show ?thesis
    proof cases
      case 1
      have c: "?cs ! j = cs ! j"
        using 1 by (simp add: cn(1))
      have a: "blo lo ?ks j = blo lo ks j"
        using 1 by (cases j) (simp_all add: blo_def kn(1))
      have b: "bhi hi ?ks j = bhi hi ks j"
        using 1 im(1) by (simp add: bhi_def kn(1))
      show ?thesis
        unfolding c a b using 1 i by (intro old) simp_all
    next
      case 2
      have c: "?cs ! j = cs ! i"
        using 2 by (simp add: cn(1))
      have a: "blo lo ?ks j = blo lo ks i"
        using 2 by (auto simp: blo_def kn(1))
      have b: "bhi hi ?ks j = Some pk"
        using 2 im(1) by (simp add: bhi_def kn(2))
      show ?thesis
        unfolding c a b by (rule Pi)
    next
      case 3
      have c: "?cs ! j = new"
        using 3 by (simp add: cn(2))
      have a: "blo lo ?ks j = Some pk"
        using 3 by (simp add: blo_def kn(2))
      have b: "bhi hi ?ks j = bhi hi ks i"
        using 3 im(1) by (auto simp: bhi_def kn(3))
      show ?thesis
        unfolding c a b by (rule Pn)
    next
      case 4
      then have j1: "j - 1 < length cs" "j - 1 \<noteq> i" "j \<le> length cs" "i < j - 1" "j - 1 \<le> length ks"
        using j len by auto
      have c: "?cs ! j = cs ! (j - 1)"
        using 4 j1(3) by (simp add: cn(3))
      have a: "blo lo ?ks j = blo lo ks (j - 1)"
        using 4 j1 by (simp add: blo_def kn(3))
      have b: "bhi hi ?ks j = bhi hi ks (j - 1)"
      proof (cases "j < length ks + 1")
        case True
        then have "?ks ! j = ks ! (j - 1)"
          using 4 by (intro kn(3)) simp_all
        then show ?thesis
          using True 4 by (auto simp: bhi_def)
      next
        case False
        then show ?thesis
          using 4 by (auto simp: bhi_def)
      qed
      show ?thesis
        unfolding c a b using j1(1,2) by (rule old)
    qed
  qed
  have Tnew: "T' new \<subseteq> T (cs ! i) \<union> F"
    using Ti by blast
  have dj: "T (cs ! x) \<inter> T (cs ! y) = {}" if "x < y" "y < length cs" for x y
    using k that by (simp add: kids_def)
  have dj2: "T (cs ! x) \<inter> T (cs ! y) = {}" if "x \<noteq> y" "x < length cs" "y < length cs" for x y
  proof (cases "x < y")
    case True
    then show ?thesis
      using that(3) by (rule dj)
  next
    case False
    then have "y < x"
      using that(1) by simp
    then have "T (cs ! y) \<inter> T (cs ! x) = {}"
      using that(2) by (rule dj)
    then show ?thesis
      by (simp only: Int_commute)
  qed
  have Fd: "F \<inter> T (cs ! j) = {}" if "j < length cs" for j
    using F that by simp
  have Teq: "T' (cs ! j) = T (cs ! j)" if "j < length cs" "j \<noteq> i" for j
    using others that by simp
  have Ti1: "T' (cs ! i) \<subseteq> T (cs ! i) \<union> F"
    using Ti by simp
  have icross: "T' (cs ! i) \<inter> T' (cs ! b) = {}" if b: "b < length cs" "b \<noteq> i" for b
  proof -
    have "T (cs ! i) \<inter> T (cs ! b) = {}"
      using b(2) i b(1) by (intro dj2) simp_all
    moreover have "F \<inter> T (cs ! b) = {}"
      using b(1) by (rule Fd)
    moreover have "T' (cs ! b) = T (cs ! b)"
      using b by (rule Teq)
    ultimately show ?thesis
      using Ti1 by (simp only: disjoint_iff subset_iff Un_iff) metis
  qed
  have cross: "T' (cs ! a) \<inter> T' (cs ! b) = {}" if ab: "a < length cs" "b < length cs" "a \<noteq> b" for a b
  proof (cases "a = i")
    case True
    then show ?thesis
      using icross [of b] ab by simp
  next
    case False
    note ai = this
    show ?thesis
    proof (cases "b = i")
      case True
      then have "T' (cs ! i) \<inter> T' (cs ! a) = {}"
        using icross [of a] ab ai by simp
      then show ?thesis
        unfolding True by (simp only: Int_commute)
    next
      case False
      have "T' (cs ! a) = T (cs ! a)" "T' (cs ! b) = T (cs ! b)"
        using ab ai False by (simp_all add: Teq)
      then show ?thesis
        using dj2 [of a b] ab by simp
    qed
  qed
  have newcross: "T' new \<inter> T' (cs ! b) = {}" if b: "b < length cs" "b \<noteq> i" for b
  proof -
    have "T (cs ! i) \<inter> T (cs ! b) = {}"
      using b(2) i b(1) by (intro dj2) simp_all
    moreover have "F \<inter> T (cs ! b) = {}"
      using b(1) by (rule Fd)
    moreover have "T' (cs ! b) = T (cs ! b)"
      using b by (rule Teq)
    ultimately show ?thesis
      using Tnew by (simp only: disjoint_iff subset_iff Un_iff) metis
  qed
  have s4: "T' (?cs ! a) \<inter> T' (?cs ! b) = {}" if ab: "a < b \<and> b < length ?cs" for a b
  proof -
    have bl: "b \<le> length cs"
      using ab by simp
    consider "b \<le> i" | "b = Suc i" | "Suc i < b"
      by linarith
    then show ?thesis
    proof cases
      case 1
      then have "?cs ! a = cs ! a" "?cs ! b = cs ! b"
        using ab by (simp_all add: cn(1))
      then show ?thesis
        using cross [of a b] ab 1 i by simp
    next
      case 2
      then have eq: "?cs ! a = cs ! a" "?cs ! b = new"
        using ab by (simp_all add: cn(1) cn(2))
      show ?thesis
      proof (cases "a = i")
        case True
        then show ?thesis
          using dis eq by simp
      next
        case False
        have "a < Suc i"
          using ab 2 by blast
        then have "a < length cs"
          using i by linarith
        then have "T' new \<inter> T' (cs ! a) = {}"
          using False by (rule newcross)
        then show ?thesis
          unfolding eq by (simp only: Int_commute)
      qed
    next
      case 3
      then have eb: "?cs ! b = cs ! (b - 1)" "b - 1 < length cs" "b - 1 \<noteq> i"
        using bl by (simp_all add: cn(3))
      consider "a \<le> i" | "a = Suc i" | "Suc i < a"
        by linarith
      then show ?thesis
      proof cases
        case 1
        then have "?cs ! a = cs ! a"
          by (simp add: cn(1))
        then show ?thesis
          using cross [of a "b - 1"] eb 1 3 i by simp
      next
        case 2
        then have "?cs ! a = new"
          by (simp add: cn(2))
        then show ?thesis
          using newcross [of "b - 1"] eb by simp
      next
        case 3
        then have "?cs ! a = cs ! (a - 1)" "a - 1 < length cs" "a - 1 \<noteq> b - 1"
          using ab bl by (simp_all add: cn(3))
        then show ?thesis
          using cross [of "a - 1" "b - 1"] eb by simp
      qed
    qed
  qed
  have l': "length ?cs = length ?ks + 1"
    using len by simp
  show ?thesis
    unfolding kids_def
  proof (intro conjI allI impI)
    show "length ?cs = length ?ks + 1"
      by (rule l')
    show "sorted ?ks"
      by (rule s1)
    show "\<forall>k \<in> set ?ks. in_lo lo k \<and> in_hi_le hi k"
      by (rule s2)
    show "P' (?cs ! j) (blo lo ?ks j) (bhi hi ?ks j)" if "j < length ?cs" for j
      using that by (rule s3)
    show "T' (?cs ! a) \<inter> T' (?cs ! b) = {}" if "a < b \<and> b < length ?cs" for a b
      using that by (rule s4)
  qed
qed

section \<open>B+ tree: the arrays of an internal node\<close>

lemma fold_pair:
  "fold (\<lambda>j (a, b). (f j a, g j b)) js (a, b) = (fold f js a, fold g js b)"
  by (induction js arbitrary: a b) simp_all

lemma fold_shift:
  "a \<le> b \<Longrightarrow> b < length xs
   \<Longrightarrow> fold (\<lambda>j xs. xs[Suc j := xs ! j]) (rev [a ..< b]) xs
       = take (Suc a) xs @ drop a (take b xs) @ drop (Suc b) xs"
proof (induction b arbitrary: xs)
  case 0
  then show ?case
    by simp
next
  case (Suc b)
  show ?case
  proof (cases "a = Suc b")
    case True
    then show ?thesis
      by simp
  next
    case False
    then have ab: "a \<le> b"
      using Suc.prems(1) by simp
    let ?xs = "xs[Suc b := xs ! b]"
    have b: "b < length ?xs" "b < length xs" "Suc b < length xs"
      using Suc.prems(2) by simp_all
    have "fold (\<lambda>j xs. xs[Suc j := xs ! j]) (rev [a ..< Suc b]) xs
          = fold (\<lambda>j xs. xs[Suc j := xs ! j]) (rev [a ..< b]) ?xs"
      using ab by simp
    also have "\<dots> = take (Suc a) ?xs @ drop a (take b ?xs) @ drop (Suc b) ?xs"
      using ab b(1) by (rule Suc.IH)
    also have "take (Suc a) ?xs = take (Suc a) xs"
      using ab by simp
    also have "take b ?xs = take b xs"
      by simp
    also have "drop (Suc b) ?xs = xs ! b # drop (Suc (Suc b)) xs"
    proof -
      have "drop (Suc b) ?xs = (drop (Suc b) xs)[0 := xs ! b]"
        by (simp add: drop_update_swap)
      also have "drop (Suc b) xs = xs ! Suc b # drop (Suc (Suc b)) xs"
        using b(3) by (simp add: Cons_nth_drop_Suc)
      finally show ?thesis
        by simp
    qed
    also have "take (Suc a) xs @ drop a (take b xs) @ xs ! b # drop (Suc (Suc b)) xs
               = take (Suc a) xs @ drop a (take (Suc b) xs) @ drop (Suc (Suc b)) xs"
      using ab b(2) by (simp add: take_Suc_conv_app_nth)
    finally show ?thesis .
  qed
qed

lemma fold_shift_ins:
  assumes "a \<le> b" and "b < length xs"
  shows "take (Suc b) ((fold (\<lambda>j xs. xs[Suc j := xs ! j]) (rev [a ..< b]) xs)[a := x])
         = ins_at a x (take b xs)"
    and "length (fold (\<lambda>j xs. xs[Suc j := xs ! j]) (rev [a ..< b]) xs) = length xs"
proof -
  let ?r = "fold (\<lambda>j xs. xs[Suc j := xs ! j]) (rev [a ..< b]) xs"
  have r: "?r = take (Suc a) xs @ drop a (take b xs) @ drop (Suc b) xs"
    using assms by (rule fold_shift)
  have a: "a < length xs"
    using assms by simp
  have t: "take (Suc a) xs = take a xs @ [xs ! a]"
    using a by (simp add: take_Suc_conv_app_nth)
  let ?ys = "take a xs @ [x] @ drop a (take b xs)"
  have e: "?r[a := x] = ?ys @ drop (Suc b) xs"
    unfolding r t using a by (simp add: list_update_append)
  have l: "length ?ys = Suc b"
    using assms by simp
  have "take (length ?ys) (?ys @ drop (Suc b) xs) = ?ys"
    by (rule append_eq_conv_conj [THEN iffD1, THEN conjunct1, symmetric]) (rule refl)
  then have "take (Suc b) (?ys @ drop (Suc b) xs) = ?ys"
    unfolding l .
  then have "take (Suc b) (?r[a := x]) = ?ys"
    by (simp only: e)
  also have "\<dots> = ins_at a x (take b xs)"
    using assms(1) by (simp add: ins_at_def min_def)
  finally show "take (Suc b) (?r[a := x]) = ins_at a x (take b xs)" .
  show "length ?r = length xs"
    unfolding r using assms by simp
qed

lemma shift_internal_eq:
  "shift_internal i n (ks, cs)
   = (fold (\<lambda>j xs. xs[Suc j := xs ! j]) (rev [i ..< n]) ks,
      fold (\<lambda>j xs. xs[Suc j := xs ! j]) (rev [Suc i ..< Suc n]) cs)"
proof -
  have m: "[i + 1 ..< n + 1] = map Suc [i ..< n]"
    by (simp add: map_Suc_upt)
  have "shift_internal i n (ks, cs)
        = (fold (\<lambda>j ks. ks[j := ks ! (j - 1)]) (rev [i + 1 ..< n + 1]) ks,
           fold (\<lambda>j cs. cs[j + 1 := cs ! j]) (rev [i + 1 ..< n + 1]) cs)"
    unfolding shift_internal_def by (rule fold_pair)
  moreover have "fold (\<lambda>j ks. ks[j := ks ! (j - 1)]) (rev [i + 1 ..< n + 1]) ks
        = fold (\<lambda>j xs. xs[Suc j := xs ! j]) (rev [i ..< n]) ks"
    unfolding m rev_map fold_map by (simp add: comp_def)
  ultimately show ?thesis
    by simp
qed

lemma map_ins_at: "map f (ins_at p x xs) = ins_at p (f x) (map f xs)"
  by (simp add: ins_at_def take_map drop_map)

lemma take_ins_at: "m \<le> p \<Longrightarrow> p \<le> length xs \<Longrightarrow> take m (ins_at p x xs) = take m xs"
  by (simp add: ins_at_def min_def)

lemma drop_ins_at: "p < m \<Longrightarrow> p \<le> length xs \<Longrightarrow> drop m (ins_at p x xs) = drop (m - 1) xs"
proof -
  assume p: "p < m" "p \<le> length xs"
  have "drop m (ins_at p x xs) = drop (m - p) ([x] @ drop p xs)"
    using p by (simp add: ins_at_def)
  also have "\<dots> = drop (m - p - 1) (drop p xs)"
    using p(1) by (cases "m - p") simp_all
  also have "\<dots> = drop (m - 1) xs"
    using p(1) by simp
  finally show ?thesis .
qed

lemma ichildren_take:
  assumes "internal_ok n"
  shows "take (numKeys n + 1) (childIndices n) = map Some (ichildren n)"
proof -
  have "\<forall>c \<in> set (take (numKeys n + 1) (childIndices n)). c \<noteq> None"
    using assms unfolding internal_ok_def by metis
  then have "map (Some \<circ> the) (take (numKeys n + 1) (childIndices n))
             = take (numKeys n + 1) (childIndices n)"
    by (intro map_idI) auto
  then show ?thesis
    by (simp add: ichildren_def)
qed

text \<open>The promoted key and the new child go into a node that has room.\<close>

lemma insertIntoInternal_room:
  assumes ok: "internal_ok n" and nf: "numKeys n < MAX_KEYS_INTERNAL" and i: "i \<le> numKeys n"
    and sp: "splitted cRes"
  obtains n' where
    "insertIntoInternal_after t off n i cRes = (t\<lparr>nodes := (nodes t)[off := Internal n']\<rparr>, no_split)"
    "internal_ok n'"
    "lkeys n' = ins_at i (promotedKey cRes) (lkeys n)"
    "ichildren n' = ins_at (Suc i) (newChildOffset cRes) (ichildren n)"
proof -
  let ?ks = "fold (\<lambda>j xs. xs[Suc j := xs ! j]) (rev [i ..< numKeys n]) (keys n)"
  let ?cs = "fold (\<lambda>j xs. xs[Suc j := xs ! j]) (rev [Suc i ..< Suc (numKeys n)]) (childIndices n)"
  let ?n' = "n\<lparr>keys := ?ks[i := promotedKey cRes],
                childIndices := ?cs[i + 1 := Some (newChildOffset cRes)],
                numKeys := numKeys n + 1\<rparr>"
  have lk: "length (keys n) = MAX_KEYS_INTERNAL" and lc: "length (childIndices n) = MAX_KEYS_INTERNAL + 1"
    using ok by (simp_all add: internal_ok_def)
  have nk: "numKeys n < length (keys n)" and nc: "Suc (numKeys n) < length (childIndices n)"
    using nf lk lc by simp_all
  have k1: "take (Suc (numKeys n)) (?ks[i := promotedKey cRes]) = ins_at i (promotedKey cRes) (take (numKeys n) (keys n))"
    and k2: "length ?ks = length (keys n)"
    using i nk by (rule fold_shift_ins)+
  have si: "Suc i \<le> Suc (numKeys n)"
    using i by simp
  have c1: "take (Suc (Suc (numKeys n))) (?cs[Suc i := Some (newChildOffset cRes)])
            = ins_at (Suc i) (Some (newChildOffset cRes)) (take (Suc (numKeys n)) (childIndices n))"
    and c2: "length ?cs = length (childIndices n)"
    using si nc by (rule fold_shift_ins)+
  have res: "insertIntoInternal_after t off n i cRes = (t\<lparr>nodes := (nodes t)[off := Internal ?n']\<rparr>, no_split)"
    using sp nf by (simp add: insertIntoInternal_after_def shift_internal_eq)
  have lkeys: "lkeys ?n' = ins_at i (promotedKey cRes) (lkeys n)"
    using k1 by (simp add: lkeys_def)
  have tc: "take (numKeys ?n' + 1) (childIndices ?n')
            = ins_at (Suc i) (Some (newChildOffset cRes)) (map Some (ichildren n))"
    using c1 ichildren_take [OF ok] by simp
  have ich: "ichildren ?n' = ins_at (Suc i) (newChildOffset cRes) (ichildren n)"
    unfolding ichildren_def [of ?n'] tc by (simp add: map_ins_at comp_def)
  have "None \<notin> set (take (numKeys ?n' + 1) (childIndices ?n'))"
    unfolding tc by auto
  then have ok': "internal_ok ?n'"
    using nf lk lc k2 c2 by (simp add: internal_ok_def)
  show thesis
    using res ok' lkeys ich by (rule that)
qed

lemma copy_into_last:
  assumes "n < length dst" and "off + n < length src"
  shows "take (Suc n) ((copy_into dst src off n)[n := src ! (off + n)]) = take (Suc n) (drop off src)"
proof -
  have "(copy_into dst src off n)[n := src ! (off + n)] = copy_into dst src off (Suc n)"
    by (simp only: copy_into_Suc)
  moreover have "take (Suc n) (copy_into dst src off (Suc n)) = take (Suc n) (drop off src)"
    using assms by (intro take_copy_into_slice) simp_all
  ultimately show ?thesis
    by simp
qed

text \<open>The promoted key and the new child go into a full node, which is split.\<close>

lemma splitInternal_spec:
  assumes ok: "internal_ok n" and full: "numKeys n = MAX_KEYS_INTERNAL" and i: "i \<le> numKeys n"
    and sp: "splitted cRes"
    and K: "K = ins_at i (promotedKey cRes) (lkeys n)"
    and C: "C = ins_at (Suc i) (newChildOffset cRes) (ichildren n)"
  obtains n1 n2 where
    "insertIntoInternal_after t off n i cRes
     = (t\<lparr>nodes := (nodes t)[off := Internal n1] @ [Internal n2]\<rparr>,
        \<lparr>splitted = True, newChildOffset = length (nodes t), promotedKey = K ! 60\<rparr>)"
    "internal_ok n1" "lkeys n1 = take 60 K" "ichildren n1 = take 61 C"
    "internal_ok n2" "lkeys n2 = drop 61 K" "ichildren n2 = drop 61 C"
    "length K = 121" "length C = 122"
proof -
  have lk: "length (keys n) = 120" and lc: "length (childIndices n) = 121" and nk: "numKeys n = 120"
    using ok full by (simp_all add: internal_ok_def MAX_KEYS_INTERNAL_def)
  have llk: "length (lkeys n) = 120" and lic: "length (ichildren n) = 121"
    using lk lc nk by (simp_all add: lkeys_def ichildren_def)
  have lK: "length K = 121" and lC: "length C = 122"
    using llk lic by (simp_all add: K C)
  let ?tk = "take i (take (numKeys n) (keys n)) @ [promotedKey cRes] @ drop i (take (numKeys n) (keys n))"
  let ?tc = "take (i + 1) (take (numKeys n + 1) (childIndices n)) @ [Some (newChildOffset cRes)]
             @ drop (i + 1) (take (numKeys n + 1) (childIndices n))"
  have tk: "?tk = K"
    by (simp add: K ins_at_def lkeys_def)
  have tc: "?tc = map Some C"
    unfolding ichildren_take [OF ok] by (simp add: C ins_at_def take_map drop_map)
  let ?n1 = "n\<lparr>numKeys := 60, keys := copy_into (keys n) K 0 60,
               childIndices := (copy_into (childIndices n) (map Some C) 0 60)[60 := map Some C ! 60]\<rparr>"
  let ?n2 = "new_InternalNode\<lparr>numKeys := 60,
               keys := copy_into (keys new_InternalNode) K 61 60,
               childIndices := (copy_into (childIndices new_InternalNode) (map Some C) 61 60)
                                 [60 := map Some C ! 121]\<rparr>"
  have res: "insertIntoInternal_after t off n i cRes
     = (t\<lparr>nodes := (nodes t)[off := Internal ?n1] @ [Internal ?n2]\<rparr>,
        \<lparr>splitted = True, newChildOffset = length (nodes t), promotedKey = K ! 60\<rparr>)"
    unfolding insertIntoInternal_after_def splitInternal_def Let_def tk tc
    using sp nk by (simp add: lK MAX_KEYS_INTERNAL_def)
  have k1: "lkeys ?n1 = take 60 K"
    using take_copy_into_slice [of 60 "keys n" 0 K] lk lK by (simp add: lkeys_def)
  have c1: "take 61 (childIndices ?n1) = take 61 (map Some C)"
    using copy_into_last [of 60 "childIndices n" 0 "map Some C"] lc lC by simp
  have i1: "ichildren ?n1 = take 61 C"
    using c1 by (simp add: ichildren_def take_map comp_def)
  have ok1: "internal_ok ?n1"
    using lk lc c1 by (auto simp: internal_ok_def MAX_KEYS_INTERNAL_def take_map)
  have lnk: "length (keys new_InternalNode) = 120" "length (childIndices new_InternalNode) = 121"
    by (simp_all add: new_InternalNode_def MAX_KEYS_INTERNAL_def)
  have k2: "lkeys ?n2 = drop 61 K"
    using take_copy_into_slice [of 60 "keys new_InternalNode" 61 K] lnk lK by (simp add: lkeys_def)
  have c2: "take 61 (childIndices ?n2) = drop 61 (map Some C)"
    using copy_into_last [of 60 "childIndices new_InternalNode" 61 "map Some C"] lnk lC by simp
  have i2: "ichildren ?n2 = drop 61 C"
    using c2 by (simp add: ichildren_def drop_map comp_def)
  have ok2: "internal_ok ?n2"
    using lnk c2 by (auto simp: internal_ok_def MAX_KEYS_INTERNAL_def drop_map)
  show thesis
    using res ok1 k1 i1 ok2 k2 i2 lK lC by (rule that)
qed

section \<open>B+ tree: insertion into a subtree\<close>

lemma kids_single: "kids P T lo hi [] [a] \<longleftrightarrow> P a lo hi"
  by (simp add: kids_def blo_def bhi_def)

lemma kids_pair:
  "kids P T lo hi [k] [a, b]
   \<longleftrightarrow> in_lo lo k \<and> in_hi_le hi k \<and> P a lo (Some k) \<and> P b (Some k) hi \<and> T a \<inter> T b = {}"
proof -
  have c: "(\<forall>j < 2. Q j) \<longleftrightarrow> Q 0 \<and> Q (Suc 0)" for Q :: "nat \<Rightarrow> bool"
    by (auto simp: less_2_cases_iff)
  have d: "(\<forall>i j. i < j \<and> j < 2 \<longrightarrow> R i j) \<longleftrightarrow> R 0 (Suc 0)" for R :: "nat \<Rightarrow> nat \<Rightarrow> bool"
    by (auto simp: less_2_cases_iff)
  have "kids P T lo hi [k] [a, b]
        \<longleftrightarrow> (in_lo lo k \<and> in_hi_le hi k)
            \<and> (\<forall>j < 2. P ([a, b] ! j) (blo lo [k] j) (bhi hi [k] j))
            \<and> (\<forall>i j. i < j \<and> j < 2 \<longrightarrow> T ([a, b] ! i) \<inter> T ([a, b] ! j) = {})"
    by (simp add: kids_def numeral_2_eq_2)
  then show ?thesis
    unfolding c d by (simp add: blo_def bhi_def)
qed

lemma leaves_in_nodes: "set (tleaves ns h off) \<subseteq> tnodes ns h off"
proof (induction h arbitrary: off)
  case 0
  then show ?case
    by (simp add: tleaves_0 tnodes_0)
next
  case (Suc h)
  show ?case
  proof (cases "ns ! off")
    case (Leaf l)
    then show ?thesis
      by (simp add: tleaves_Suc_leaf)
  next
    case (Internal n)
    show ?thesis
      unfolding tleaves_internal [OF Internal] tnodes_internal [OF Internal]
      using Suc.IH by auto
  qed
qed

text \<open>The other children of a node are not touched by an insertion into one child.\<close>

lemma others_unchanged:
  assumes k: "kids (subtree ns h) (tnodes ns h) lo hi ks cs" and i: "i < length cs"
    and len: "length ns \<le> length ns1"
    and frame: "\<forall>x < length ns. x \<notin> tnodes ns h (cs ! i) \<longrightarrow> ns1 ! x = ns ! x"
    and j: "j < length cs" "j \<noteq> i"
  shows "subtree ns1 h (cs ! j) (blo lo ks j) (bhi hi ks j)"
    and "tnodes ns1 h (cs ! j) = tnodes ns h (cs ! j)"
    and "tleaves ns1 h (cs ! j) = tleaves ns h (cs ! j)"
    and "tentries ns1 h (cs ! j) = tentries ns h (cs ! j)"
    and "\<forall>x \<in> tnodes ns h (cs ! j). ns1 ! x = ns ! x"
proof -
  have st: "subtree ns h (cs ! j) (blo lo ks j) (bhi hi ks j)"
    using k j(1) by (simp add: kids_def)
  have dj: "tnodes ns h (cs ! j) \<inter> tnodes ns h (cs ! i) = {}"
  proof (cases "j < i")
    case True
    then show ?thesis
      using k i by (simp add: kids_def)
  next
    case False
    then have "i < j"
      using j(2) by simp
    then have "tnodes ns h (cs ! i) \<inter> tnodes ns h (cs ! j) = {}"
      using k j(1) by (simp add: kids_def)
    then show ?thesis
      by (simp only: Int_commute)
  qed
  have same: "\<forall>x \<in> tnodes ns h (cs ! j). ns1 ! x = ns ! x"
  proof
    fix x
    assume x: "x \<in> tnodes ns h (cs ! j)"
    then have "x < length ns"
      using subtree_in_arena [OF st] by auto
    moreover have "x \<notin> tnodes ns h (cs ! i)"
      using x dj by auto
    ultimately show "ns1 ! x = ns ! x"
      using frame by simp
  qed
  show "subtree ns1 h (cs ! j) (blo lo ks j) (bhi hi ks j)"
    using st same len by (rule frame_subtree)
  show "tnodes ns1 h (cs ! j) = tnodes ns h (cs ! j)"
    and "tleaves ns1 h (cs ! j) = tleaves ns h (cs ! j)"
    and "tentries ns1 h (cs ! j) = tentries ns h (cs ! j)"
    using frame_tnodes [OF same] by simp_all
  show "\<forall>x \<in> tnodes ns h (cs ! j). ns1 ! x = ns ! x"
    by (rule same)
qed

text \<open>Only the child for the key's range can hold the key.\<close>

lemma kids_key_child:
  assumes k: "kids (subtree ns h) T lo hi ks cs" and i: "i < length cs" and j: "j < length cs"
    and kb: "in_lo (blo lo ks i) key" "in_hi (bhi hi ks i) key"
    and e: "e \<in> set (tentries ns h (cs ! j))" "fst e = key"
  shows "j = i"
proof (rule ccontr)
  assume ne: "j \<noteq> i"
  have len: "length cs = length ks + 1" and srt: "sorted ks"
    using k by (simp_all add: kids_def)
  have "subtree ns h (cs ! j) (blo lo ks j) (bhi hi ks j)"
    using k j by (simp add: kids_def)
  then have jb: "in_lo (blo lo ks j) key" "in_hi (bhi hi ks j) key"
    using subtree_entries_bounds e by blast+
  have sep: False if ab: "a < b" "b < length cs" and lo: "in_lo (blo lo ks b) key"
    and hi: "in_hi (bhi hi ks a) key" for a b
  proof -
    have a: "a < length ks" "b - 1 < length ks" "a \<le> b - 1" "b \<noteq> 0"
      using ab len by simp_all
    have "key < ks ! a"
      using hi a(1) by (simp add: bhi_def)
    moreover have "ks ! (b - 1) \<le> key"
      using lo a(4) by (simp add: blo_def)
    moreover have "ks ! a \<le> ks ! (b - 1)"
      using srt a(3) a(2) by (rule sorted_nth_mono)
    ultimately show False
      by simp
  qed
  show False
  proof (cases "j < i")
    case True
    then show ?thesis
      using sep [of j i] i kb(1) jb(2) by simp
  next
    case False
    then have "i < j"
      using ne by simp
    then show ?thesis
      using sep [of i j] j jb(1) kb(2) by simp
  qed
qed

text \<open>A list of children with one child replaced by one or two, under a map to lists.\<close>

lemma concat_children:
  assumes i: "i < length cs"
    and same: "\<forall>j < length cs. j \<noteq> i \<longrightarrow> g' (cs ! j) = g (cs ! j)"
  shows "concat (map g cs)
         = concat (map g (take i cs)) @ g (cs ! i) @ concat (map g (drop (Suc i) cs))"
    and "concat (map g' cs)
         = concat (map g (take i cs)) @ g' (cs ! i) @ concat (map g (drop (Suc i) cs))"
    and "concat (map g' (ins_at (Suc i) c cs))
         = concat (map g (take i cs)) @ (g' (cs ! i) @ g' c) @ concat (map g (drop (Suc i) cs))"
proof -
  have cs: "cs = take i cs @ [cs ! i] @ drop (Suc i) cs"
    using i by (simp add: id_take_nth_drop [symmetric])
  have a: "map g' (take i cs) = map g (take i cs)"
  proof (rule map_cong [OF refl])
    fix x
    assume "x \<in> set (take i cs)"
    then obtain j where "j < i" "x = cs ! j"
      using i by (auto simp: in_set_conv_nth)
    then show "g' x = g x"
      using same i by simp
  qed
  have b: "map g' (drop (Suc i) cs) = map g (drop (Suc i) cs)"
  proof (rule map_cong [OF refl])
    fix x
    assume "x \<in> set (drop (Suc i) cs)"
    then obtain j where "j < length cs - Suc i" "x = cs ! (Suc i + j)"
      by (auto simp: in_set_conv_nth)
    then show "g' x = g x"
      using same by simp
  qed
  have "concat (map g cs) = concat (map g (take i cs @ [cs ! i] @ drop (Suc i) cs))"
    using cs by simp
  then show "concat (map g cs)
         = concat (map g (take i cs)) @ g (cs ! i) @ concat (map g (drop (Suc i) cs))"
    by simp
  have "concat (map g' cs) = concat (map g' (take i cs @ [cs ! i] @ drop (Suc i) cs))"
    using cs by simp
  then show "concat (map g' cs)
         = concat (map g (take i cs)) @ g' (cs ! i) @ concat (map g (drop (Suc i) cs))"
    by (simp add: a b)
  have "take (Suc i) cs = take i cs @ [cs ! i]"
    using i by (simp add: take_Suc_conv_app_nth)
  then have "ins_at (Suc i) c cs = take i cs @ [cs ! i] @ [c] @ drop (Suc i) cs"
    by (simp add: ins_at_def)
  then show "concat (map g' (ins_at (Suc i) c cs))
         = concat (map g (take i cs)) @ (g' (cs ! i) @ g' c) @ concat (map g (drop (Suc i) cs))"
    by (simp add: a b)
qed

lemma ins_at_context:
  "p < length L \<Longrightarrow> ins_at (Suc (length A + p)) x (A @ L @ B) = A @ ins_at (Suc p) x L @ B"
  by (simp add: ins_at_def)

lemma leaves_post_context:
  assumes lp: "leaves_post ns L ns1 L'"
    and same: "\<forall>l \<in> set A \<union> set B. next_of ns1 l = next_of ns l"
  shows "leaves_post ns (A @ L @ B) ns1 (A @ L' @ B)"
proof -
  consider (same) "L' = L" "\<forall>l \<in> set L. next_of ns1 l = next_of ns l"
    | (split) p where "p < length L" "L' = ins_at (Suc p) (length ns) L"
        "next_of ns1 (L ! p) = Some (length ns)" "next_of ns1 (length ns) = next_of ns (L ! p)"
        "\<forall>l \<in> set L. l \<noteq> L ! p \<longrightarrow> next_of ns1 l = next_of ns l"
    using lp unfolding leaves_post_def by blast
  then show ?thesis
  proof cases
    case same
    have "\<forall>l \<in> set (A @ L @ B). next_of ns1 l = next_of ns l"
      using same(2) assms(2) by auto
    then show ?thesis
      unfolding leaves_post_def same(1) by blast
  next
    case (split p)
    let ?p = "length A + p"
    have p: "?p < length (A @ L @ B)"
      using split(1) by simp
    have nth: "(A @ L @ B) ! ?p = L ! p"
      using split(1) by (simp add: nth_append)
    have l': "A @ L' @ B = ins_at (Suc ?p) (length ns) (A @ L @ B)"
      unfolding split(2) using split(1) by (rule ins_at_context [symmetric])
    have o: "\<forall>l \<in> set (A @ L @ B). l \<noteq> (A @ L @ B) ! ?p \<longrightarrow> next_of ns1 l = next_of ns l"
      unfolding nth using split(5) assms(2) by auto
    have "\<exists>q < length (A @ L @ B). A @ L' @ B = ins_at (Suc q) (length ns) (A @ L @ B)
           \<and> next_of ns1 ((A @ L @ B) ! q) = Some (length ns)
           \<and> next_of ns1 (length ns) = next_of ns ((A @ L @ B) ! q)
           \<and> (\<forall>l \<in> set (A @ L @ B). l \<noteq> (A @ L @ B) ! q \<longrightarrow> next_of ns1 l = next_of ns l)"
      apply (rule exI [of _ ?p])
      apply (intro conjI)
          apply (rule p)
         apply (rule l')
        apply (simp only: nth split(3))
       apply (simp only: nth split(4))
      apply (rule o)
      done
    then show ?thesis
      unfolding leaves_post_def by blast
  qed
qed

lemma leaves_post_frame:
  assumes lp: "leaves_post ns L ns1 L'"
    and same: "\<forall>l \<in> set L'. next_of ns' l = next_of ns1 l"
  shows "leaves_post ns L ns' L'"
proof -
  consider (same) "L' = L" "\<forall>l \<in> set L. next_of ns1 l = next_of ns l"
    | (split) p where "p < length L" "L' = ins_at (Suc p) (length ns) L"
        "next_of ns1 (L ! p) = Some (length ns)" "next_of ns1 (length ns) = next_of ns (L ! p)"
        "\<forall>l \<in> set L. l \<noteq> L ! p \<longrightarrow> next_of ns1 l = next_of ns l"
    using lp unfolding leaves_post_def by blast
  then show ?thesis
  proof cases
    case same
    have "\<forall>l \<in> set L. next_of ns' l = next_of ns l"
      using same assms(2) by simp
    then show ?thesis
      unfolding leaves_post_def same(1) by blast
  next
    case (split p)
    have s: "set L' = insert (length ns) (set L)"
      unfolding split(2) by simp
    have a: "next_of ns' (L ! p) = Some (length ns)"
      using split(1,3) assms(2) s by simp
    have b: "next_of ns' (length ns) = next_of ns (L ! p)"
      using split(4) assms(2) s by simp
    have c: "\<forall>l \<in> set L. l \<noteq> L ! p \<longrightarrow> next_of ns' l = next_of ns l"
      using split(5) assms(2) s by simp
    show ?thesis
      unfolding leaves_post_def using split(1,2) a b c by blast
  qed
qed

lemma concat_others:
  assumes "i < length cs"
    and "y \<in> set (concat (map g (take i cs))) \<union> set (concat (map g (drop (Suc i) cs)))"
  obtains j where "j < length cs" "j \<noteq> i" "y \<in> set (g (cs ! j))"
proof -
  consider x where "x \<in> set (take i cs)" "y \<in> set (g x)"
    | x where "x \<in> set (drop (Suc i) cs)" "y \<in> set (g x)"
    using assms(2) by auto
  then show thesis
  proof cases
    case 1
    then obtain j where "j < i" "x = cs ! j"
      using assms(1) by (auto simp: in_set_conv_nth)
    then show ?thesis
      using assms(1) 1(2) by (intro that [of j]) simp_all
  next
    case 2
    then obtain j where "j < length cs - Suc i" "x = cs ! (Suc i + j)"
      by (auto simp: in_set_conv_nth)
    then show ?thesis
      using 2(2) by (intro that [of "Suc i + j"]) simp_all
  qed
qed

lemma upd_set_Un: "key \<notin> fst ` Y \<Longrightarrow> upd_set key val (X \<union> Y) = upd_set key val X \<union> Y"
  by (auto simp: upd_set_def)

text \<open>
  The children of a node after an insertion into child \<open>i\<close>: the keys \<open>K\<close> and the children
  \<open>C\<close>, with the promoted key and the new child when the child was split.
\<close>

lemma child_step:
  assumes k: "kids (subtree ns h) (tnodes ns h) lo hi ks cs" and i: "i < length cs"
    and post: "ins_post ns h (cs ! i) (blo lo ks i) (bhi hi ks i) key val ns1 cRes"
    and kb: "in_lo (blo lo ks i) key" "in_hi (bhi hi ks i) key"
    and K: "K = (if splitted cRes then ins_at i (promotedKey cRes) ks else ks)"
    and C: "C = (if splitted cRes then ins_at (Suc i) (newChildOffset cRes) cs else cs)"
  shows "kids (subtree ns1 h) (tnodes ns1 h) lo hi K C"
    and "\<forall>c \<in> set C. tnodes ns1 h c \<subseteq> (\<Union>c \<in> set cs. tnodes ns h c) \<union> {length ns ..< length ns1}"
    and "set (concat (map (tentries ns1 h) C))
         = upd_set key val (set (concat (map (tentries ns h) cs)))"
    and "leaves_post ns (concat (map (tleaves ns h) cs)) ns1 (concat (map (tleaves ns1 h) C))"
proof -
  let ?F = "{length ns ..< length ns1}"
  let ?R = "res_kids (cs ! i) cRes"
  have p1: "length ns \<le> length ns1"
    and p2: "\<forall>x < length ns. x \<notin> tnodes ns h (cs ! i) \<longrightarrow> ns1 ! x = ns ! x"
    and p3: "kids (subtree ns1 h) (tnodes ns1 h) (blo lo ks i) (bhi hi ks i) (res_keys cRes) ?R"
    and p4: "\<forall>c \<in> set ?R. tnodes ns1 h c \<subseteq> tnodes ns h (cs ! i) \<union> ?F"
    and p5: "set (concat (map (tentries ns1 h) ?R)) = upd_set key val (set (tentries ns h (cs ! i)))"
    and p6: "leaves_post ns (tleaves ns h (cs ! i)) ns1 (concat (map (tleaves ns1 h) ?R))"
    using post unfolding ins_post_def by blast+
  note ou = others_unchanged [OF k i p1 p2]
  have others: "\<forall>j < length cs. j \<noteq> i \<longrightarrow>
      subtree ns1 h (cs ! j) (blo lo ks j) (bhi hi ks j) \<and> tnodes ns1 h (cs ! j) = tnodes ns h (cs ! j)"
    using ou(1,2) by simp
  have Fd: "\<forall>j < length cs. ?F \<inter> tnodes ns h (cs ! j) = {}"
  proof (intro allI impI)
    fix j
    assume "j < length cs"
    then have "subtree ns h (cs ! j) (blo lo ks j) (bhi hi ks j)"
      using k by (simp add: kids_def)
    then have "tnodes ns h (cs ! j) \<subseteq> {..< length ns}"
      by (rule subtree_in_arena)
    then show "?F \<inter> tnodes ns h (cs ! j) = {}"
      by auto
  qed
  have ci: "cs ! i \<in> set ?R"
    by (simp add: res_kids_def)
  have Ti: "tnodes ns1 h (cs ! i) \<subseteq> tnodes ns h (cs ! i) \<union> ?F"
    using p4 ci by blast
  show "kids (subtree ns1 h) (tnodes ns1 h) lo hi K C"
  proof (cases "splitted cRes")
    case False
    then have Pi: "subtree ns1 h (cs ! i) (blo lo ks i) (bhi hi ks i)"
      using p3 by (simp add: res_keys_def res_kids_def kids_single)
    have "kids (subtree ns1 h) (tnodes ns1 h) lo hi ks cs"
      using k i Pi others Ti Fd by (rule kids_replace)
    then show ?thesis
      using False by (simp add: K C)
  next
    case True
    then have f: "in_lo (blo lo ks i) (promotedKey cRes)" "in_hi_le (bhi hi ks i) (promotedKey cRes)"
      "subtree ns1 h (cs ! i) (blo lo ks i) (Some (promotedKey cRes))"
      "subtree ns1 h (newChildOffset cRes) (Some (promotedKey cRes)) (bhi hi ks i)"
      "tnodes ns1 h (cs ! i) \<inter> tnodes ns1 h (newChildOffset cRes) = {}"
      using p3 by (simp_all add: res_keys_def res_kids_def kids_pair)
    have "newChildOffset cRes \<in> set ?R"
      using True by (simp add: res_kids_def)
    then have "tnodes ns1 h (newChildOffset cRes) \<subseteq> tnodes ns h (cs ! i) \<union> ?F"
      using p4 by blast
    then have Tn: "tnodes ns1 h (cs ! i) \<union> tnodes ns1 h (newChildOffset cRes)
                   \<subseteq> tnodes ns h (cs ! i) \<union> ?F"
      using Ti by simp
    have "kids (subtree ns1 h) (tnodes ns1 h) lo hi (ins_at i (promotedKey cRes) ks)
            (ins_at (Suc i) (newChildOffset cRes) cs)"
      using k i f(3) f(4) f(1) f(2) others Tn f(5) Fd by (rule kids_insert)
    then show ?thesis
      using True by (simp add: K C)
  qed
  show "\<forall>c \<in> set C. tnodes ns1 h c \<subseteq> (\<Union>c \<in> set cs. tnodes ns h c) \<union> ?F"
  proof
    fix c
    assume c: "c \<in> set C"
    have up: "tnodes ns h (cs ! j) \<subseteq> (\<Union>c \<in> set cs. tnodes ns h c)" if "j < length cs" for j
      using that by (meson UN_upper nth_mem)
    have old: "tnodes ns1 h c \<subseteq> (\<Union>c \<in> set cs. tnodes ns h c) \<union> ?F" if cin: "c \<in> set cs"
    proof -
      obtain j where j: "j < length cs" "c = cs ! j"
        using cin by (auto simp: in_set_conv_nth)
      show ?thesis
      proof (cases "j = i")
        case True
        then show ?thesis
          using Ti up [OF i] j(2) by blast
      next
        case False
        then have "tnodes ns1 h c = tnodes ns h (cs ! j)"
          using ou(2) j by simp
        then show ?thesis
          using up [OF j(1)] by blast
      qed
    qed
    show "tnodes ns1 h c \<subseteq> (\<Union>c \<in> set cs. tnodes ns h c) \<union> ?F"
    proof (cases "c \<in> set cs")
      case True
      then show ?thesis
        by (rule old)
    next
      case False
      then have sp: "splitted cRes" and "c = newChildOffset cRes"
        using c by (auto simp: C split: if_splits)
      then have "c \<in> set ?R"
        by (simp add: res_kids_def)
      then have "tnodes ns1 h c \<subseteq> tnodes ns h (cs ! i) \<union> ?F"
        using p4 by blast
      then show ?thesis
        using up [OF i] by blast
    qed
  qed
  have R: "concat (map g' C) = concat (map g (take i cs)) @ concat (map g' ?R)
             @ concat (map g (drop (Suc i) cs))"
    if "\<forall>j < length cs. j \<noteq> i \<longrightarrow> g' (cs ! j) = g (cs ! j)" for g g' :: "nat \<Rightarrow> 'a list"
    using concat_children(2,3) [OF i that] by (simp add: C res_kids_def)
  show "set (concat (map (tentries ns1 h) C))
        = upd_set key val (set (concat (map (tentries ns h) cs)))"
  proof -
    let ?A = "concat (map (tentries ns h) (take i cs))"
    let ?B = "concat (map (tentries ns h) (drop (Suc i) cs))"
    have same: "\<forall>j < length cs. j \<noteq> i \<longrightarrow> tentries ns1 h (cs ! j) = tentries ns h (cs ! j)"
      using ou(4) by simp
    have new: "set (concat (map (tentries ns1 h) C))
               = upd_set key val (set (tentries ns h (cs ! i))) \<union> (set ?A \<union> set ?B)"
      unfolding R [OF same] using p5 by auto
    have old: "set (concat (map (tentries ns h) cs)) = set (tentries ns h (cs ! i)) \<union> (set ?A \<union> set ?B)"
      using concat_children(1) [OF i same] by auto
    have "key \<notin> fst ` (set ?A \<union> set ?B)"
    proof
      assume "key \<in> fst ` (set ?A \<union> set ?B)"
      then obtain e where e: "e \<in> set ?A \<union> set ?B" "fst e = key"
        by auto
      obtain j where j: "j < length cs" "j \<noteq> i" "e \<in> set (tentries ns h (cs ! j))"
        using i e(1) by (rule concat_others)
      have "j = i"
        using k i j(1) kb j(3) e(2) by (rule kids_key_child)
      then show False
        using j(2) by simp
    qed
    then show ?thesis
      unfolding new old by (rule upd_set_Un [symmetric])
  qed
  show "leaves_post ns (concat (map (tleaves ns h) cs)) ns1 (concat (map (tleaves ns1 h) C))"
  proof -
    let ?A = "concat (map (tleaves ns h) (take i cs))"
    let ?B = "concat (map (tleaves ns h) (drop (Suc i) cs))"
    have same: "\<forall>j < length cs. j \<noteq> i \<longrightarrow> tleaves ns1 h (cs ! j) = tleaves ns h (cs ! j)"
      using ou(3) by simp
    have nx: "\<forall>l \<in> set ?A \<union> set ?B. next_of ns1 l = next_of ns l"
    proof
      fix l
      assume "l \<in> set ?A \<union> set ?B"
      with i obtain j where j: "j < length cs" "j \<noteq> i" "l \<in> set (tleaves ns h (cs ! j))"
        by (rule concat_others)
      then have "l \<in> tnodes ns h (cs ! j)"
        using leaves_in_nodes by blast
      then have "ns1 ! l = ns ! l"
        using ou(5) j(1,2) by simp
      then show "next_of ns1 l = next_of ns l"
        by (simp add: next_of_def)
    qed
    have "leaves_post ns (?A @ tleaves ns h (cs ! i) @ ?B) ns1
            (?A @ concat (map (tleaves ns1 h) ?R) @ ?B)"
      using p6 nx by (rule leaves_post_context)
    then show ?thesis
      unfolding R [OF same] concat_children(1) [OF i same] .
  qed
qed

lemma list_all_update: "list_all P xs \<Longrightarrow> P y \<Longrightarrow> list_all P (xs[i := y])"
  unfolding list_all_iff using set_update_subset_insert [of xs i y] by auto

lemma find_None_lkeys:
  "find (\<lambda>i. keys l ! i = key) [0 ..< numKeys l] = None \<Longrightarrow> leaf_ok l \<Longrightarrow> key \<notin> set (lkeys l)"
proof
  assume f: "find (\<lambda>i. keys l ! i = key) [0 ..< numKeys l] = None" and ok: "leaf_ok l"
    and "key \<in> set (lkeys l)"
  then obtain j where j: "j < length (lkeys l)" "lkeys l ! j = key"
    by (auto simp: in_set_conv_nth)
  then have "j < numKeys l"
    using leaf_ok_lengths(1) [OF ok] by simp
  then show False
    using f j(2) by (simp add: find_upt_None lkeys_nth)
qed

text \<open>Insertion at a leaf: the three cases of \<^verbatim>\<open>insertLeaf\<close>.\<close>

lemma leaf_ins_post:
  assumes st: "subtree (nodes t) 0 off lo hi" and kb: "in_lo lo key" "in_hi hi key"
  shows "\<exists>t' res. insertInternal t (Some off) key val = Some (t', res)
           \<and> rootIndex t' = rootIndex t
           \<and> ins_post (nodes t) 0 off lo hi key val (nodes t') res"
proof -
  let ?ns = "nodes t"
  obtain l where off: "off < length ?ns" and l: "?ns ! off = Leaf l" and ok: "leaf_ok l"
    and bnd: "\<forall>k \<in> set (lkeys l). in_lo lo k \<and> in_hi hi k"
    using st unfolding subtree_leaf by blast
  have run: "insertInternal t (Some off) key val = Some (insertLeaf t off l key val)"
    using off l by (subst insertInternal.simps) simp
  have te: "tentries ?ns 0 off = leaf_records l"
    using l by (rule tentries_leaf)
  have nx: "next_of ?ns off = nextLeaf l"
    using l by (simp add: next_of_def)
  show ?thesis
  proof (cases "find (\<lambda>i. keys l ! i = key) [0 ..< numKeys l]")
    case (Some i)
    let ?l = "l\<lparr>vals := (vals l)[i := val]\<rparr>"
    let ?ns' = "?ns[off := Leaf ?l]"
    note u = insertLeaf_update [OF ok Some]
    have res: "insertLeaf t off l key val = (t\<lparr>nodes := ?ns'\<rparr>, no_split)"
      by (rule u(1))
    have l': "?ns' ! off = Leaf ?l"
      using off by simp
    have st': "subtree ?ns' 0 off lo hi"
      unfolding subtree_leaf using off l' u(2) bnd by (simp add: u(3))
    have "ins_post ?ns 0 off lo hi key val ?ns' no_split"
      unfolding ins_post_def
    proof (intro conjI)
      show "length ?ns \<le> length ?ns'"
        by simp
      show "\<forall>x < length ?ns. x \<notin> tnodes ?ns 0 off \<longrightarrow> ?ns' ! x = ?ns ! x"
        by (simp add: tnodes_0)
      show "kids (subtree ?ns' 0) (tnodes ?ns' 0) lo hi (res_keys no_split) (res_kids off no_split)"
        using st' by (simp add: res_keys_def res_kids_def no_split_def kids_single)
      show "\<forall>c \<in> set (res_kids off no_split).
              tnodes ?ns' 0 c \<subseteq> tnodes ?ns 0 off \<union> {length ?ns ..< length ?ns'}"
        by (simp add: res_kids_def no_split_def tnodes_0)
      show "set (concat (map (tentries ?ns' 0) (res_kids off no_split)))
            = upd_set key val (set (tentries ?ns 0 off))"
        using u(4) by (simp add: res_kids_def no_split_def te tentries_leaf [OF l'])
      show "leaves_post ?ns (tleaves ?ns 0 off) ?ns' (concat (map (tleaves ?ns' 0) (res_kids off no_split)))"
        using off by (simp add: leaves_post_def res_kids_def no_split_def tleaves_0 next_of_def l)
      show "list_all node_bounded ?ns \<longrightarrow> list_all node_bounded ?ns'"
      proof
        assume "list_all node_bounded ?ns"
        moreover have "node_bounded (Leaf ?l)"
          using u(2) by (simp add: node_bounded_def leaf_ok_def)
        ultimately show "list_all node_bounded ?ns'"
          by (rule list_all_update)
      qed
    qed
    then show ?thesis
      unfolding run res by simp
  next
    case None
    have fresh: "key \<notin> set (lkeys l)"
      using None ok by (rule find_None_lkeys)
    show ?thesis
    proof (cases "numKeys l < MAX_KEYS_LEAF")
      case True
      obtain l' where r: "insertLeaf t off l key val = (t\<lparr>nodes := ?ns[off := Leaf l']\<rparr>, no_split)"
        "leaf_ok l'" "nextLeaf l' = nextLeaf l"
        "set (leaf_records l') = upd_set key val (set (leaf_records l))"
        "set (lkeys l') = insert key (set (lkeys l))"
        using ok None True by (rule insertLeaf_room)
      let ?ns' = "?ns[off := Leaf l']"
      have l': "?ns' ! off = Leaf l'"
        using off by simp
      have st': "subtree ?ns' 0 off lo hi"
        unfolding subtree_leaf using off l' r(2) bnd kb by (simp add: r(5))
      have "ins_post ?ns 0 off lo hi key val ?ns' no_split"
        unfolding ins_post_def
      proof (intro conjI)
        show "length ?ns \<le> length ?ns'"
          by simp
        show "\<forall>x < length ?ns. x \<notin> tnodes ?ns 0 off \<longrightarrow> ?ns' ! x = ?ns ! x"
          by (simp add: tnodes_0)
        show "kids (subtree ?ns' 0) (tnodes ?ns' 0) lo hi (res_keys no_split) (res_kids off no_split)"
          using st' by (simp add: res_keys_def res_kids_def no_split_def kids_single)
        show "\<forall>c \<in> set (res_kids off no_split).
                tnodes ?ns' 0 c \<subseteq> tnodes ?ns 0 off \<union> {length ?ns ..< length ?ns'}"
          by (simp add: res_kids_def no_split_def tnodes_0)
        show "set (concat (map (tentries ?ns' 0) (res_kids off no_split)))
              = upd_set key val (set (tentries ?ns 0 off))"
          using r(4) by (simp add: res_kids_def no_split_def te tentries_leaf [OF l'])
        show "leaves_post ?ns (tleaves ?ns 0 off) ?ns' (concat (map (tleaves ?ns' 0) (res_kids off no_split)))"
          using off r(3) by (simp add: leaves_post_def res_kids_def no_split_def tleaves_0 next_of_def l)
        show "list_all node_bounded ?ns \<longrightarrow> list_all node_bounded ?ns'"
        proof
          assume "list_all node_bounded ?ns"
          moreover have "node_bounded (Leaf l')"
            using r(2) by (simp add: node_bounded_def leaf_ok_def)
          ultimately show "list_all node_bounded ?ns'"
            by (rule list_all_update)
        qed
      qed
      then show ?thesis
        unfolding run r(1) by simp
    next
      case False
      obtain old new pk where r: "insertLeaf t off l key val
           = (t\<lparr>nodes := (?ns @ [Leaf new])[off := Leaf old]\<rparr>,
              \<lparr>splitted = True, newChildOffset = length ?ns, promotedKey = pk\<rparr>)"
        "leaf_ok old" "leaf_ok new"
        "nextLeaf new = nextLeaf l" "nextLeaf old = Some (length ?ns)"
        "numKeys old = 15" "numKeys new = 16"
        "leaf_records old = take 15 (insort_key fst (key, val) (leaf_records l))"
        "leaf_records new = drop 15 (insort_key fst (key, val) (leaf_records l))"
        "pk = fst (hd (leaf_records new))"
        "set (lkeys old @ lkeys new) = insert key (set (lkeys l))"
        "sorted_wrt (<) (lkeys old @ lkeys new)"
        using ok None False by (rule insertLeaf_split)
      let ?ns' = "(?ns @ [Leaf new])[off := Leaf old]"
      let ?res = "\<lparr>splitted = True, newChildOffset = length ?ns, promotedKey = pk\<rparr>"
      have lo': "?ns' ! off = Leaf old" and ln': "?ns' ! length ?ns = Leaf new"
        using off by (simp_all add: nth_append)
      have len': "length ?ns' = Suc (length ?ns)"
        by simp
      have newne: "lkeys new \<noteq> []"
        using leaf_ok_lengths(1) [OF r(3)] r(7) by auto
      have mf: "map fst (leaf_records new) = lkeys new"
        using r(3) by (rule leaf_ok_lengths(3))
      then have "leaf_records new \<noteq> []"
        using newne by auto
      then have "fst (hd (leaf_records new)) = hd (map fst (leaf_records new))"
        by (rule hd_map [symmetric])
      then have pk: "pk = hd (lkeys new)"
        unfolding mf r(10) .
      have pkin: "pk \<in> set (lkeys new)"
        using newne by (simp add: pk)
      have allb: "\<forall>k \<in> set (lkeys old) \<union> set (lkeys new). in_lo lo k \<and> in_hi hi k"
        using r(11) bnd kb by auto
      have oldlt: "\<forall>k \<in> set (lkeys old). k < pk"
        using r(12) pkin by (auto simp: sorted_wrt_append)
      have "sorted_wrt (<) (lkeys new)"
        using r(12) by (simp add: sorted_wrt_append)
      then have newge: "\<forall>k \<in> set (lkeys new). pk \<le> k"
        using newne unfolding pk by (cases "lkeys new") auto
      have sto: "subtree ?ns' 0 off lo (Some pk)"
        unfolding subtree_leaf using off lo' r(2) allb oldlt by simp
      have stn: "subtree ?ns' 0 (length ?ns) (Some pk) hi"
        unfolding subtree_leaf using ln' r(3) allb newge by simp
      have pkb: "in_lo lo pk" "in_hi_le hi pk"
        using allb pkin in_hi_imp_le by auto
      have recs: "set (leaf_records old) \<union> set (leaf_records new)
                  = set (insort_key fst (key, val) (leaf_records l))"
        unfolding r(8,9) by (metis append_take_drop_id set_append)
      have "key \<notin> fst ` set (leaf_records l)"
        using fresh leaf_ok_lengths(3) [OF ok] by (metis set_map)
      then have ups: "upd_set key val (set (leaf_records l)) = insert (key, val) (set (leaf_records l))"
        by (rule upd_set_fresh)
      have "ins_post ?ns 0 off lo hi key val ?ns' ?res"
        unfolding ins_post_def
      proof (intro conjI)
        show "length ?ns \<le> length ?ns'"
          by simp
        show "\<forall>x < length ?ns. x \<notin> tnodes ?ns 0 off \<longrightarrow> ?ns' ! x = ?ns ! x"
          by (simp add: tnodes_0 nth_append)
        show "kids (subtree ?ns' 0) (tnodes ?ns' 0) lo hi (res_keys ?res) (res_kids off ?res)"
          using sto stn pkb off by (simp add: res_keys_def res_kids_def kids_pair tnodes_0)
        show "\<forall>c \<in> set (res_kids off ?res).
                tnodes ?ns' 0 c \<subseteq> tnodes ?ns 0 off \<union> {length ?ns ..< length ?ns'}"
          by (simp add: res_kids_def tnodes_0)
        show "set (concat (map (tentries ?ns' 0) (res_kids off ?res)))
              = upd_set key val (set (tentries ?ns 0 off))"
          using recs
          by (simp add: res_kids_def te tentries_leaf [OF lo'] tentries_leaf [OF ln'] ups set_insort_key)
        have "leaves_post ?ns [off] ?ns' [off, length ?ns]"
          unfolding leaves_post_def
          using r(4,5) by (simp add: ins_at_def next_of_def lo' ln' l)
        then show "leaves_post ?ns (tleaves ?ns 0 off) ?ns' (concat (map (tleaves ?ns' 0) (res_kids off ?res)))"
          by (simp add: res_kids_def tleaves_0)
        show "list_all node_bounded ?ns \<longrightarrow> list_all node_bounded ?ns'"
        proof
          assume "list_all node_bounded ?ns"
          moreover have "node_bounded (Leaf new)" "node_bounded (Leaf old)"
            using r(2,3) by (simp_all add: node_bounded_def leaf_ok_def)
          ultimately show "list_all node_bounded ?ns'"
            by (intro list_all_update) simp_all
        qed
      qed
      then show ?thesis
        unfolding run r(1) by simp
    qed
  qed
qed

text \<open>An internal node over children that were established in an earlier arena.\<close>

lemma kids_member:
  assumes "kids P T lo hi ks cs" and "c \<in> set cs"
  obtains l u where "P c l u"
proof -
  obtain j where "j < length cs" "c = cs ! j"
    using assms(2) by (auto simp: in_set_conv_nth)
  then have "P c (blo lo ks j) (bhi hi ks j)"
    using assms(1) by (simp add: kids_def)
  then show thesis
    by (rule that)
qed

lemma node_assemble:
  assumes k: "kids (subtree ns1 h) (tnodes ns1 h) lo hi Ks Cs"
    and frame: "\<forall>c \<in> set Cs. \<forall>x \<in> tnodes ns1 h c. ns' ! x = ns1 ! x"
    and len: "length ns1 \<le> length ns'"
    and node: "off < length ns'" "ns' ! off = Internal m" "internal_ok m"
      "lkeys m = Ks" "ichildren m = Cs"
    and notin: "\<forall>c \<in> set Cs. off \<notin> tnodes ns1 h c"
  shows "subtree ns' (Suc h) off lo hi"
    and "tnodes ns' (Suc h) off = insert off (\<Union>c \<in> set Cs. tnodes ns1 h c)"
    and "tentries ns' (Suc h) off = concat (map (tentries ns1 h) Cs)"
    and "tleaves ns' (Suc h) off = concat (map (tleaves ns1 h) Cs)"
proof -
  have fr: "tnodes ns' h c = tnodes ns1 h c \<and> tleaves ns' h c = tleaves ns1 h c
            \<and> tentries ns' h c = tentries ns1 h c" if "c \<in> set Cs" for c
    using frame that by (intro frame_tnodes) simp
  have k': "kids (subtree ns' h) (tnodes ns' h) lo hi Ks Cs"
    using k frame len by (rule kids_frame)
  have "\<forall>c \<in> set (ichildren m). off \<notin> tnodes ns' h c"
    using notin fr by (simp add: node(5))
  then show "subtree ns' (Suc h) off lo hi"
    unfolding subtree_internal using node k' by simp
  show "tnodes ns' (Suc h) off = insert off (\<Union>c \<in> set Cs. tnodes ns1 h c)"
    unfolding tnodes_internal [OF node(2)] node(5) using fr by simp
  have m1: "map (tentries ns' h) Cs = map (tentries ns1 h) Cs"
    by (rule map_cong) (simp_all add: fr)
  show "tentries ns' (Suc h) off = concat (map (tentries ns1 h) Cs)"
    unfolding tentries_internal [OF node(2)] node(5) m1 by (rule refl)
  have m2: "map (tleaves ns' h) Cs = map (tleaves ns1 h) Cs"
    by (rule map_cong) (simp_all add: fr)
  show "tleaves ns' (Suc h) off = concat (map (tleaves ns1 h) Cs)"
    unfolding tleaves_internal [OF node(2)] node(5) m2 by (rule refl)
qed

lemma internal_bounded: "internal_ok m \<Longrightarrow> node_bounded (Internal m)"
  by (simp add: node_bounded_def internal_ok_def)

lemma concat_take_drop:
  "concat (map f (take m xs)) @ concat (map f (drop m xs)) = concat (map f xs)"
proof -
  have "concat (map f (take m xs @ drop m xs)) = concat (map f xs)"
    by simp
  then show ?thesis
    unfolding map_append concat_append .
qed

text \<open>Insertion below an internal node, given the postcondition for the children.\<close>

lemma internal_ins_post:
  assumes st: "subtree (nodes t) (Suc h) off lo hi" and kb: "in_lo lo key" "in_hi hi key"
    and IH: "\<And>t c lo' hi'. subtree (nodes t) h c lo' hi' \<Longrightarrow> in_lo lo' key \<Longrightarrow> in_hi hi' key
       \<Longrightarrow> \<exists>t' res. insertInternal t (Some c) key val = Some (t', res) \<and> rootIndex t' = rootIndex t
             \<and> ins_post (nodes t) h c lo' hi' key val (nodes t') res"
  shows "\<exists>t' res. insertInternal t (Some off) key val = Some (t', res) \<and> rootIndex t' = rootIndex t
           \<and> ins_post (nodes t) (Suc h) off lo hi key val (nodes t') res"
proof -
  let ?ns = "nodes t"
  obtain n where off: "off < length ?ns" and n: "?ns ! off = Internal n" and ok: "internal_ok n"
    and k: "kids (subtree ?ns h) (tnodes ?ns h) lo hi (lkeys n) (ichildren n)"
    and offc: "\<forall>c \<in> set (ichildren n). off \<notin> tnodes ?ns h c"
    using st unfolding subtree_internal by blast
  let ?ks = "lkeys n" and ?cs = "ichildren n"
  define i where "i = child_index n key"
  note il = internal_ok_lengths [OF ok]
  note cp = child_index_props [of n key, folded i_def]
  have i1: "i \<le> numKeys n"
    using cp(1) il(1) by simp
  have i: "i < length ?cs"
    using i1 il(2) by simp
  have ci: "childIndices n ! i = Some (?cs ! i)" "i < length (childIndices n)"
    using il(3) [OF i1] il(4) [OF i1] by simp_all
  have kbl: "in_lo (blo lo ?ks i) key"
  proof (cases "i = 0")
    case True
    then show ?thesis
      using kb(1) by (simp add: blo_def)
  next
    case False
    then have "?ks ! (i - 1) \<le> key"
      using cp(2) by simp
    then show ?thesis
      using False by (simp add: blo_def)
  qed
  have kbh: "in_hi (bhi hi ?ks i) key"
  proof (cases "i < length ?ks")
    case True
    then show ?thesis
      using cp(3) by (simp add: bhi_def)
  next
    case False
    then show ?thesis
      using kb(2) by (simp add: bhi_def)
  qed
  have stc: "subtree ?ns h (?cs ! i) (blo lo ?ks i) (bhi hi ?ks i)"
    using k i by (simp add: kids_def)
  obtain t1 cRes where run1: "insertInternal t (Some (?cs ! i)) key val = Some (t1, cRes)"
    and r1: "rootIndex t1 = rootIndex t"
    and post: "ins_post ?ns h (?cs ! i) (blo lo ?ks i) (bhi hi ?ks i) key val (nodes t1) cRes"
    using IH [OF stc kbl kbh] by blast
  let ?ns1 = "nodes t1"
  have p1: "length ?ns \<le> length ?ns1"
    and p2: "\<forall>x < length ?ns. x \<notin> tnodes ?ns h (?cs ! i) \<longrightarrow> ?ns1 ! x = ?ns ! x"
    and p7: "list_all node_bounded ?ns \<longrightarrow> list_all node_bounded ?ns1"
    using post unfolding ins_post_def by blast+
  have cin: "?cs ! i \<in> set ?cs"
    using i by simp
  have offi: "off \<notin> tnodes ?ns h (?cs ! i)"
    using offc cin by blast
  have n1: "?ns1 ! off = Internal n"
    using p2 off offi n by simp
  have off1: "off < length ?ns1"
    using off p1 by simp
  have run: "insertInternal t (Some off) key val = Some (insertIntoInternal_after t1 off n i cRes)"
    using off n ci run1 n1 by (subst insertInternal.simps) (simp add: Let_def i_def [symmetric])
  define K where "K = (if splitted cRes then ins_at i (promotedKey cRes) ?ks else ?ks)"
  define C where "C = (if splitted cRes then ins_at (Suc i) (newChildOffset cRes) ?cs else ?cs)"
  note cs = child_step [OF k i post kbl kbh K_def C_def]
  have offC: "\<forall>c \<in> set C. off \<notin> tnodes ?ns1 h c"
  proof
    fix c
    assume "c \<in> set C"
    then have "tnodes ?ns1 h c \<subseteq> (\<Union>c \<in> set ?cs. tnodes ?ns h c) \<union> {length ?ns ..< length ?ns1}"
      using cs(2) by blast
    moreover have "off \<notin> (\<Union>c \<in> set ?cs. tnodes ?ns h c)"
      using offc by blast
    moreover have "off \<notin> {length ?ns ..< length ?ns1}"
      using off by simp
    ultimately show "off \<notin> tnodes ?ns1 h c"
      by blast
  qed
  have arena: "\<forall>c \<in> set C. tnodes ?ns1 h c \<subseteq> {..< length ?ns1}"
  proof
    fix c
    assume "c \<in> set C"
    with cs(1) obtain l u where "subtree ?ns1 h c l u"
      by (rule kids_member)
    then show "tnodes ?ns1 h c \<subseteq> {..< length ?ns1}"
      by (rule subtree_in_arena)
  qed
  have tn: "tnodes ?ns (Suc h) off = insert off (\<Union>c \<in> set ?cs. tnodes ?ns h c)"
    using n by (rule tnodes_internal)
  have te: "tentries ?ns (Suc h) off = concat (map (tentries ?ns h) ?cs)"
    using n by (rule tentries_internal)
  have tl: "tleaves ?ns (Suc h) off = concat (map (tleaves ?ns h) ?cs)"
    using n by (rule tleaves_internal)
  have final: "ins_post ?ns (Suc h) off lo hi key val ns' res"
    if len: "length ?ns1 \<le> length ns'"
      and fr: "\<forall>x < length ?ns1. x \<noteq> off \<longrightarrow> ns' ! x = ?ns1 ! x"
      and kd: "kids (subtree ns' (Suc h)) (tnodes ns' (Suc h)) lo hi (res_keys res) (res_kids off res)"
      and tns: "\<forall>c \<in> set (res_kids off res). tnodes ns' (Suc h) c
                  \<subseteq> insert off (\<Union>c \<in> set C. tnodes ?ns1 h c) \<union> {length ?ns1 ..< length ns'}"
      and ents: "concat (map (tentries ns' (Suc h)) (res_kids off res)) = concat (map (tentries ?ns1 h) C)"
      and lvs: "concat (map (tleaves ns' (Suc h)) (res_kids off res)) = concat (map (tleaves ?ns1 h) C)"
      and bd: "list_all node_bounded ?ns1 \<longrightarrow> list_all node_bounded ns'"
    for ns' res
    unfolding ins_post_def
  proof (intro conjI)
    show "length ?ns \<le> length ns'"
      using p1 len by simp
    show "\<forall>x < length ?ns. x \<notin> tnodes ?ns (Suc h) off \<longrightarrow> ns' ! x = ?ns ! x"
    proof (intro allI impI)
      fix x
      assume x: "x < length ?ns" "x \<notin> tnodes ?ns (Suc h) off"
      then have "x \<noteq> off" "x \<notin> tnodes ?ns h (?cs ! i)"
        using cin unfolding tn by blast+
      then have "ns' ! x = ?ns1 ! x" "?ns1 ! x = ?ns ! x"
        using fr p2 x(1) p1 by simp_all
      then show "ns' ! x = ?ns ! x"
        by simp
    qed
    show "kids (subtree ns' (Suc h)) (tnodes ns' (Suc h)) lo hi (res_keys res) (res_kids off res)"
      by (rule kd)
    show "\<forall>c \<in> set (res_kids off res). tnodes ns' (Suc h) c
            \<subseteq> tnodes ?ns (Suc h) off \<union> {length ?ns ..< length ns'}"
    proof
      fix c
      assume "c \<in> set (res_kids off res)"
      then have a: "tnodes ns' (Suc h) c
          \<subseteq> insert off (\<Union>c \<in> set C. tnodes ?ns1 h c) \<union> {length ?ns1 ..< length ns'}"
        using tns by blast
      have b: "(\<Union>c \<in> set C. tnodes ?ns1 h c)
          \<subseteq> (\<Union>c \<in> set ?cs. tnodes ?ns h c) \<union> {length ?ns ..< length ?ns1}"
        using cs(2) by blast
      have c: "{length ?ns ..< length ?ns1} \<union> {length ?ns1 ..< length ns'} \<subseteq> {length ?ns ..< length ns'}"
        using p1 len by auto
      show "tnodes ns' (Suc h) c \<subseteq> tnodes ?ns (Suc h) off \<union> {length ?ns ..< length ns'}"
        unfolding tn using a b c by blast
    qed
    show "set (concat (map (tentries ns' (Suc h)) (res_kids off res)))
          = upd_set key val (set (tentries ?ns (Suc h) off))"
      unfolding ents te by (rule cs(3))
    show "leaves_post ?ns (tleaves ?ns (Suc h) off) ns'
            (concat (map (tleaves ns' (Suc h)) (res_kids off res)))"
      unfolding lvs tl using cs(4)
    proof (rule leaves_post_frame)
      show "\<forall>l \<in> set (concat (map (tleaves ?ns1 h) C)). next_of ns' l = next_of ?ns1 l"
      proof
        fix l
        assume "l \<in> set (concat (map (tleaves ?ns1 h) C))"
        then obtain c where c: "c \<in> set C" "l \<in> set (tleaves ?ns1 h c)"
          by auto
        then have "l \<in> tnodes ?ns1 h c"
          using leaves_in_nodes by blast
        then have "l \<noteq> off" "l < length ?ns1"
          using offC arena c(1) by blast+
        then have "ns' ! l = ?ns1 ! l"
          using fr by simp
        then show "next_of ns' l = next_of ?ns1 l"
          by (simp add: next_of_def)
      qed
    qed
    show "list_all node_bounded ?ns \<longrightarrow> list_all node_bounded ns'"
      using p7 bd by blast
  qed
  show ?thesis
  proof (cases "splitted cRes")
    case False
    have KC: "lkeys n = K" "ichildren n = C"
      using False by (simp_all add: K_def C_def)
    have res: "insertIntoInternal_after t1 off n i cRes = (t1, no_split)"
      using False by (simp add: insertIntoInternal_after_def)
    have frame: "\<forall>c \<in> set C. \<forall>x \<in> tnodes ?ns1 h c. ?ns1 ! x = ?ns1 ! x"
      by simp
    note na = node_assemble [OF cs(1) frame order_refl off1 n1 ok KC offC]
    have "ins_post ?ns (Suc h) off lo hi key val ?ns1 no_split"
    proof (rule final)
      show "length ?ns1 \<le> length ?ns1"
        by simp
      show "\<forall>x < length ?ns1. x \<noteq> off \<longrightarrow> ?ns1 ! x = ?ns1 ! x"
        by simp
      show "kids (subtree ?ns1 (Suc h)) (tnodes ?ns1 (Suc h)) lo hi (res_keys no_split) (res_kids off no_split)"
        using na(1) by (simp add: res_keys_def res_kids_def no_split_def kids_single)
      show "\<forall>c \<in> set (res_kids off no_split). tnodes ?ns1 (Suc h) c
                  \<subseteq> insert off (\<Union>c \<in> set C. tnodes ?ns1 h c) \<union> {length ?ns1 ..< length ?ns1}"
        using na(2) by (simp add: res_kids_def no_split_def)
      show "concat (map (tentries ?ns1 (Suc h)) (res_kids off no_split)) = concat (map (tentries ?ns1 h) C)"
        using na(3) by (simp add: res_kids_def no_split_def)
      show "concat (map (tleaves ?ns1 (Suc h)) (res_kids off no_split)) = concat (map (tleaves ?ns1 h) C)"
        using na(4) by (simp add: res_kids_def no_split_def)
      show "list_all node_bounded ?ns1 \<longrightarrow> list_all node_bounded ?ns1"
        by simp
    qed
    then show ?thesis
      unfolding run res using r1 by simp
  next
    case True
    note sp = this
    have KC: "K = ins_at i (promotedKey cRes) ?ks" "C = ins_at (Suc i) (newChildOffset cRes) ?cs"
      using True by (simp_all add: K_def C_def)
    show ?thesis
    proof (cases "numKeys n < MAX_KEYS_INTERNAL")
      case True
      obtain n' where r: "insertIntoInternal_after t1 off n i cRes
            = (t1\<lparr>nodes := ?ns1[off := Internal n']\<rparr>, no_split)"
        "internal_ok n'"
        "lkeys n' = ins_at i (promotedKey cRes) (lkeys n)"
        "ichildren n' = ins_at (Suc i) (newChildOffset cRes) (ichildren n)"
        using ok True i1 sp by (rule insertIntoInternal_room)
      let ?ns' = "?ns1[off := Internal n']"
      have frame: "\<forall>c \<in> set C. \<forall>x \<in> tnodes ?ns1 h c. ?ns' ! x = ?ns1 ! x"
        using offC by (metis nth_list_update_neq)
      have len: "length ?ns1 \<le> length ?ns'"
        by simp
      have node: "off < length ?ns'" "?ns' ! off = Internal n'"
        using off1 by simp_all
      have KC': "lkeys n' = K" "ichildren n' = C"
        using r(3,4) KC by simp_all
      note na = node_assemble [OF cs(1) frame len node r(2) KC' offC]
      have "ins_post ?ns (Suc h) off lo hi key val ?ns' no_split"
      proof (rule final)
        show "length ?ns1 \<le> length ?ns'"
          by simp
        show "\<forall>x < length ?ns1. x \<noteq> off \<longrightarrow> ?ns' ! x = ?ns1 ! x"
          by simp
        show "kids (subtree ?ns' (Suc h)) (tnodes ?ns' (Suc h)) lo hi (res_keys no_split) (res_kids off no_split)"
          using na(1) by (simp add: res_keys_def res_kids_def no_split_def kids_single)
        show "\<forall>c \<in> set (res_kids off no_split). tnodes ?ns' (Suc h) c
                    \<subseteq> insert off (\<Union>c \<in> set C. tnodes ?ns1 h c) \<union> {length ?ns1 ..< length ?ns'}"
          using na(2) by (simp add: res_kids_def no_split_def)
        show "concat (map (tentries ?ns' (Suc h)) (res_kids off no_split)) = concat (map (tentries ?ns1 h) C)"
          using na(3) by (simp add: res_kids_def no_split_def)
        show "concat (map (tleaves ?ns' (Suc h)) (res_kids off no_split)) = concat (map (tleaves ?ns1 h) C)"
          using na(4) by (simp add: res_kids_def no_split_def)
        show "list_all node_bounded ?ns1 \<longrightarrow> list_all node_bounded ?ns'"
          using internal_bounded [OF r(2)] by (simp add: list_all_update)
      qed
      then show ?thesis
        unfolding run r(1) using r1 by simp
    next
      case False
      then have full: "numKeys n = MAX_KEYS_INTERNAL"
        using ok by (simp add: internal_ok_def)
      obtain n1' n2' where r: "insertIntoInternal_after t1 off n i cRes
           = (t1\<lparr>nodes := ?ns1[off := Internal n1'] @ [Internal n2']\<rparr>,
              \<lparr>splitted = True, newChildOffset = length ?ns1, promotedKey = K ! 60\<rparr>)"
        "internal_ok n1'" "lkeys n1' = take 60 K" "ichildren n1' = take 61 C"
        "internal_ok n2'" "lkeys n2' = drop 61 K" "ichildren n2' = drop 61 C"
        "length K = 121" "length C = 122"
        using ok full i1 sp KC by (rule splitInternal_spec)
      let ?ns' = "?ns1[off := Internal n1'] @ [Internal n2']"
      let ?new = "length ?ns1"
      let ?res = "\<lparr>splitted = True, newChildOffset = ?new, promotedKey = K ! 60\<rparr>"
      have fr: "\<forall>x < length ?ns1. x \<noteq> off \<longrightarrow> ?ns' ! x = ?ns1 ! x"
        by (simp add: nth_append)
      have frame: "\<forall>c \<in> set C. \<forall>x \<in> tnodes ?ns1 h c. ?ns' ! x = ?ns1 ! x"
      proof (intro ballI)
        fix c x
        assume "c \<in> set C" "x \<in> tnodes ?ns1 h c"
        then have "x \<noteq> off" "x < length ?ns1"
          using offC arena by blast+
        then show "?ns' ! x = ?ns1 ! x"
          using fr by simp
      qed
      have len: "length ?ns1 \<le> length ?ns'"
        by simp
      have sub: "set (take 61 C) \<subseteq> set C" "set (drop 61 C) \<subseteq> set C"
        by (simp_all add: set_take_subset set_drop_subset)
      have m: "60 < length K"
        using r(8) by simp
      have kl: "kids (subtree ?ns1 h) (tnodes ?ns1 h) lo (Some (K ! 60)) (take 60 K) (take 61 C)"
        using kids_take [OF cs(1) m] by simp
      have kr: "kids (subtree ?ns1 h) (tnodes ?ns1 h) (Some (K ! 60)) hi (drop 61 K) (drop 61 C)"
        using kids_drop [OF cs(1) m] by simp
      have nodel: "off < length ?ns'" "?ns' ! off = Internal n1'"
        using off1 by (simp_all add: nth_append)
      have noder: "?new < length ?ns'" "?ns' ! ?new = Internal n2'"
        by (simp_all add: nth_append)
      have framel: "\<forall>c \<in> set (take 61 C). \<forall>x \<in> tnodes ?ns1 h c. ?ns' ! x = ?ns1 ! x"
        using frame sub(1) by blast
      have framer: "\<forall>c \<in> set (drop 61 C). \<forall>x \<in> tnodes ?ns1 h c. ?ns' ! x = ?ns1 ! x"
        using frame sub(2) by blast
      have offl: "\<forall>c \<in> set (take 61 C). off \<notin> tnodes ?ns1 h c"
        using offC sub(1) by blast
      have newr: "\<forall>c \<in> set (drop 61 C). ?new \<notin> tnodes ?ns1 h c"
        using arena sub(2) by fastforce
      have newl: "\<forall>c \<in> set (take 61 C). ?new \<notin> tnodes ?ns1 h c"
        using arena sub(1) by fastforce
      have offr: "\<forall>c \<in> set (drop 61 C). off \<notin> tnodes ?ns1 h c"
        using offC sub(2) by blast
      note nl = node_assemble [OF kl framel len nodel r(2) r(3) r(4) offl]
      note nr = node_assemble [OF kr framer len noder r(5) r(6) r(7) newr]
      have pkin: "K ! 60 \<in> set K"
        using m by simp
      have pkb: "in_lo lo (K ! 60)" "in_hi_le hi (K ! 60)"
        using cs(1) pkin unfolding kids_def by blast+
      have cross: "tnodes ?ns1 h a \<inter> tnodes ?ns1 h b = {}"
        if a: "a \<in> set (take 61 C)" and b: "b \<in> set (drop 61 C)" for a b
      proof -
        obtain x where x: "x < 61" "a = C ! x"
          using a r(9) by (auto simp: in_set_conv_nth)
        obtain y where y: "y < length C - 61" "b = C ! (61 + y)"
          using b by (auto simp: in_set_conv_nth)
        have "x < 61 + y \<and> 61 + y < length C"
          using x(1) y(1) by simp
        then have "tnodes ?ns1 h (C ! x) \<inter> tnodes ?ns1 h (C ! (61 + y)) = {}"
          using cs(1) unfolding kids_def by blast
        then show ?thesis
          by (simp only: x(2) y(2))
      qed
      have dis: "tnodes ?ns' (Suc h) off \<inter> tnodes ?ns' (Suc h) ?new = {}"
      proof -
        have "off \<noteq> ?new"
          using off1 by simp
        moreover have "(\<Union>c \<in> set (take 61 C). tnodes ?ns1 h c)
                       \<inter> (\<Union>c \<in> set (drop 61 C). tnodes ?ns1 h c) = {}"
          using cross by blast
        ultimately show ?thesis
          unfolding nl(2) nr(2) using offr newl by blast
      qed
      have "ins_post ?ns (Suc h) off lo hi key val ?ns' ?res"
      proof (rule final)
        show "length ?ns1 \<le> length ?ns'"
          by simp
        show "\<forall>x < length ?ns1. x \<noteq> off \<longrightarrow> ?ns' ! x = ?ns1 ! x"
          by (rule fr)
        show "kids (subtree ?ns' (Suc h)) (tnodes ?ns' (Suc h)) lo hi (res_keys ?res) (res_kids off ?res)"
          using nl(1) nr(1) pkb dis by (simp add: res_keys_def res_kids_def kids_pair)
        show "\<forall>c \<in> set (res_kids off ?res). tnodes ?ns' (Suc h) c
                    \<subseteq> insert off (\<Union>c \<in> set C. tnodes ?ns1 h c) \<union> {length ?ns1 ..< length ?ns'}"
        proof -
          have "tnodes ?ns' (Suc h) off \<subseteq> insert off (\<Union>c \<in> set C. tnodes ?ns1 h c)"
            unfolding nl(2) using sub(1) by blast
          moreover have "tnodes ?ns' (Suc h) ?new
              \<subseteq> (\<Union>c \<in> set C. tnodes ?ns1 h c) \<union> {length ?ns1 ..< length ?ns'}"
            unfolding nr(2) using sub(2) by auto
          ultimately show ?thesis
            by (auto simp: res_kids_def)
        qed
        show "concat (map (tentries ?ns' (Suc h)) (res_kids off ?res)) = concat (map (tentries ?ns1 h) C)"
          by (simp add: res_kids_def nl(3) nr(3) concat_take_drop)
        show "concat (map (tleaves ?ns' (Suc h)) (res_kids off ?res)) = concat (map (tleaves ?ns1 h) C)"
          by (simp add: res_kids_def nl(4) nr(4) concat_take_drop)
        show "list_all node_bounded ?ns1 \<longrightarrow> list_all node_bounded ?ns'"
          using internal_bounded [OF r(2)] internal_bounded [OF r(5)]
          by (simp add: list_all_update)
      qed
      then show ?thesis
        unfolding run r(1) using r1 by simp
    qed
  qed
qed

lemma insertInternal_post:
  "subtree (nodes t) h off lo hi \<Longrightarrow> in_lo lo key \<Longrightarrow> in_hi hi key
   \<Longrightarrow> \<exists>t' res. insertInternal t (Some off) key val = Some (t', res) \<and> rootIndex t' = rootIndex t
         \<and> ins_post (nodes t) h off lo hi key val (nodes t') res"
proof (induction h arbitrary: t off lo hi)
  case 0
  then show ?case
    by (rule leaf_ins_post)
next
  case (Suc h)
  show ?case
    using Suc.prems
  proof (rule internal_ins_post)
    fix t :: BPlusTree and c lo' hi'
    assume "subtree (nodes t) h c lo' hi'" "in_lo lo' key" "in_hi hi' key"
    then show "\<exists>t' res. insertInternal t (Some c) key val = Some (t', res) \<and> rootIndex t' = rootIndex t
         \<and> ins_post (nodes t) h c lo' hi' key val (nodes t') res"
      by (rule Suc.IH)
  qed
qed

section \<open>B+ tree: the leaf chain\<close>

lemma chain_nth:
  "chain ns L nxt
   \<longleftrightarrow> (\<forall>j < length L. next_of ns (L ! j) = (if Suc j < length L then Some (L ! Suc j) else nxt))"
proof (induction ns L nxt rule: chain.induct)
  case (1 ns nxt)
  then show ?case
    by simp
next
  case (2 ns l nxt)
  then show ?case
    by simp
next
  case (3 ns l l' ls nxt)
  show ?case
    unfolding chain.simps(3) 3 length_Cons All_less_Suc2 [of "Suc (length ls)"]
    by simp
qed

lemma subtree_leaves_distinct:
  "subtree ns h off lo hi \<Longrightarrow> distinct (tleaves ns h off)"
proof (induction h arbitrary: off lo hi)
  case 0
  then show ?case
    by (simp add: tleaves_0)
next
  case (Suc h)
  then obtain n where n: "ns ! off = Internal n"
    and k: "kids (subtree ns h) (tnodes ns h) lo hi (lkeys n) (ichildren n)"
    unfolding subtree_internal by blast
  let ?cs = "ichildren n"
  have each: "distinct (tleaves ns h (?cs ! j))" if "j < length ?cs" for j
  proof -
    have "subtree ns h (?cs ! j) (blo lo (lkeys n) j) (bhi hi (lkeys n) j)"
      using k that by (simp add: kids_def)
    then show ?thesis
      by (rule Suc.IH)
  qed
  have dj: "set (tleaves ns h (?cs ! a)) \<inter> set (tleaves ns h (?cs ! b)) = {}"
    if "a < b" "b < length ?cs" for a b
  proof -
    have "tnodes ns h (?cs ! a) \<inter> tnodes ns h (?cs ! b) = {}"
      using k that by (simp add: kids_def)
    then show ?thesis
      using leaves_in_nodes [of ns h "?cs ! a"] leaves_in_nodes [of ns h "?cs ! b"] by blast
  qed
  have "distinct (concat (map (tleaves ns h) cs))"
    if "\<forall>j < length cs. distinct (tleaves ns h (cs ! j))"
      and "\<forall>a b. a < b \<and> b < length cs \<longrightarrow> set (tleaves ns h (cs ! a)) \<inter> set (tleaves ns h (cs ! b)) = {}"
    for cs
    using that
  proof (induction cs)
    case Nil
    then show ?case
      by simp
  next
    case (Cons c cs)
    have d0: "distinct (tleaves ns h c)"
      using Cons.prems(1) by (metis length_greater_0_conv list.discI nth_Cons_0)
    have rest: "\<forall>j < length cs. distinct (tleaves ns h (cs ! j))"
      using Cons.prems(1) by (metis Suc_less_eq length_Cons nth_Cons_Suc)
    have cross: "set (tleaves ns h c) \<inter> set (tleaves ns h (cs ! j)) = {}" if "j < length cs" for j
      using Cons.prems(2) [rule_format, of 0 "Suc j"] that by simp
    have rest2: "\<forall>a b. a < b \<and> b < length cs
        \<longrightarrow> set (tleaves ns h (cs ! a)) \<inter> set (tleaves ns h (cs ! b)) = {}"
    proof (intro allI impI)
      fix a b
      assume "a < b \<and> b < length cs"
      then show "set (tleaves ns h (cs ! a)) \<inter> set (tleaves ns h (cs ! b)) = {}"
        using Cons.prems(2) [rule_format, of "Suc a" "Suc b"] by simp
    qed
    have ih: "distinct (concat (map (tleaves ns h) cs))"
      using rest rest2 by (rule Cons.IH)
    have "set (tleaves ns h c) \<inter> set (concat (map (tleaves ns h) cs)) = {}"
    proof -
      have "set (tleaves ns h c) \<inter> set (tleaves ns h x) = {}" if xin: "x \<in> set cs" for x
      proof -
        obtain j where "j < length cs" "x = cs ! j"
          using xin by (auto simp: in_set_conv_nth)
        then show ?thesis
          using cross by simp
      qed
      then show ?thesis
        by auto
    qed
    then show ?case
      using d0 ih by simp
  qed
  then have "distinct (concat (map (tleaves ns h) ?cs))"
    using each dj by blast
  then show ?case
    by (simp add: tleaves_internal [OF n])
qed

lemma chain_leaves_post:
  assumes ch: "chain ns L nxt" and d: "distinct L" and lp: "leaves_post ns L ns' L'"
  shows "chain ns' L' nxt"
proof -
  note c = ch [unfolded chain_nth, rule_format]
  consider (same) "L' = L" "\<forall>l \<in> set L. next_of ns' l = next_of ns l"
    | (split) p where "p < length L" "L' = ins_at (Suc p) (length ns) L"
        "next_of ns' (L ! p) = Some (length ns)" "next_of ns' (length ns) = next_of ns (L ! p)"
        "\<forall>l \<in> set L. l \<noteq> L ! p \<longrightarrow> next_of ns' l = next_of ns l"
    using lp unfolding leaves_post_def by blast
  then show ?thesis
  proof cases
    case same
    show ?thesis
      unfolding chain_nth same(1) using c same(2) by simp
  next
    case (split p)
    have sp: "Suc p \<le> length L"
      using split(1) by simp
    note ni = nth_ins_at [OF sp, where x = "length ns"]
    have oth: "next_of ns' (L ! j) = next_of ns (L ! j)" if "j < length L" "j \<noteq> p" for j
    proof -
      have "L ! j \<noteq> L ! p"
        using d that split(1) by (simp add: nth_eq_iff_index_eq)
      then show ?thesis
        using split(5) that(1) by simp
    qed
    show ?thesis
      unfolding chain_nth
    proof (intro allI impI)
      fix j
      assume j: "j < length L'"
      then have jl: "j \<le> length L"
        by (simp add: split(2))
      have len: "length L' = Suc (length L)"
        by (simp add: split(2))
      consider "j < p" | "j = p" | "j = Suc p" | "Suc p < j"
        by linarith
      then show "next_of ns' (L' ! j) = (if Suc j < length L' then Some (L' ! Suc j) else nxt)"
      proof cases
        case 1
        then have a: "L' ! j = L ! j" "L' ! Suc j = L ! Suc j" "Suc j < length L" "j < length L"
          using split(1) by (simp_all add: split(2) ni(1))
        have "next_of ns' (L ! j) = next_of ns (L ! j)"
          using a(4) 1 by (intro oth) simp_all
        then show ?thesis
          unfolding a(1,2) len using c [OF a(4)] a(3) by simp
      next
        case 2
        then have a: "L' ! j = L ! p" "L' ! Suc j = length ns"
          by (simp_all add: split(2) ni(1) ni(2))
        show ?thesis
          unfolding a len using split(1,3) 2 by simp
      next
        case 3
        then have a: "L' ! j = length ns"
          by (simp add: split(2) ni(2))
        have b: "L' ! Suc j = L ! Suc p" if "Suc p < length L"
          using that 3 by (simp add: split(2) ni(3))
        show ?thesis
          unfolding a len split(4) using c [OF split(1)] 3 b by auto
      next
        case 4
        then have a: "L' ! j = L ! (j - 1)" "j - 1 < length L" "j - 1 \<noteq> p"
          using jl by (simp_all add: split(2) ni(3))
        have b: "L' ! Suc j = L ! j" if "j < length L"
          using that 4 by (simp add: split(2) ni(3))
        have "next_of ns' (L ! (j - 1)) = next_of ns (L ! (j - 1))"
          using a(2,3) by (rule oth)
        then show ?thesis
          unfolding a(1) len using c [OF a(2)] 4 b by auto
      qed
    qed
  qed
qed

section \<open>B+ tree: put keeps the invariant\<close>

lemma chain_frame:
  assumes "chain ns L nxt" and "\<forall>l \<in> set L. next_of ns' l = next_of ns l"
  shows "chain ns' L nxt"
  using assms unfolding chain_nth by simp

lemma new_BPlusTree_inv: "bt_inv new_BPlusTree 0 0"
  and new_BPlusTree_entries: "tentries (nodes new_BPlusTree) 0 0 = []"
proof -
  have ok: "leaf_ok new_LeafNode" and lk: "lkeys new_LeafNode = []"
    by (simp_all add: leaf_ok_def new_LeafNode_def lkeys_def MAX_KEYS_LEAF_def)
  have n: "nodes new_BPlusTree ! 0 = Leaf new_LeafNode"
    by (simp add: new_BPlusTree_def)
  have "subtree (nodes new_BPlusTree) 0 0 None None"
    unfolding subtree_leaf using n ok lk by (simp add: new_BPlusTree_def)
  moreover have "list_all node_bounded (nodes new_BPlusTree)"
    by (simp add: new_BPlusTree_def node_bounded_def new_LeafNode_def)
  moreover have "chain (nodes new_BPlusTree) (tleaves (nodes new_BPlusTree) 0 0) None"
    by (simp add: tleaves_0 next_of_def new_BPlusTree_def new_LeafNode_def)
  ultimately show "bt_inv new_BPlusTree 0 0"
    by (simp add: bt_inv_def new_BPlusTree_def)
  show "tentries (nodes new_BPlusTree) 0 0 = []"
    by (simp add: tentries_leaf [OF n] leaf_records_def new_LeafNode_def)
qed

lemma put_bt_inv:
  assumes inv: "bt_inv t h r"
  shows "\<exists>t' h' r'. put_bt t key val = Some t' \<and> bt_inv t' h' r'
           \<and> set (tentries (nodes t') h' r') = upd_set key val (set (tentries (nodes t) h r))"
proof -
  let ?ns = "nodes t"
  have root: "rootIndex t = Some r" and st: "subtree ?ns h r None None"
    and bd: "list_all node_bounded ?ns" and ch: "chain ?ns (tleaves ?ns h r) None"
    using inv by (simp_all add: bt_inv_def)
  obtain t1 res where run: "insertInternal t (Some r) key val = Some (t1, res)"
    and r1: "rootIndex t1 = rootIndex t"
    and post: "ins_post ?ns h r None None key val (nodes t1) res"
    using insertInternal_post [OF st, of key val] by auto
  let ?ns1 = "nodes t1"
  let ?R = "res_kids r res"
  have p3: "kids (subtree ?ns1 h) (tnodes ?ns1 h) None None (res_keys res) ?R"
    and p5: "set (concat (map (tentries ?ns1 h) ?R)) = upd_set key val (set (tentries ?ns h r))"
    and p6: "leaves_post ?ns (tleaves ?ns h r) ?ns1 (concat (map (tleaves ?ns1 h) ?R))"
    and p7: "list_all node_bounded ?ns \<longrightarrow> list_all node_bounded ?ns1"
    using post unfolding ins_post_def by blast+
  have bd1: "list_all node_bounded ?ns1"
    using p7 bd by simp
  have "distinct (tleaves ?ns h r)"
    using st by (rule subtree_leaves_distinct)
  with ch have ch1: "chain ?ns1 (concat (map (tleaves ?ns1 h) ?R)) None"
    using p6 by (rule chain_leaves_post)
  show ?thesis
  proof (cases "splitted res")
    case False
    have put: "put_bt t key val = Some t1"
      using root run False by (simp add: put_bt_def)
    have R: "?R = [r]"
      using False by (simp add: res_kids_def)
    have "subtree ?ns1 h r None None"
      using p3 False by (simp add: res_keys_def res_kids_def kids_single)
    then have "bt_inv t1 h r"
      using r1 root bd1 ch1 by (simp add: bt_inv_def R)
    moreover have "set (tentries ?ns1 h r) = upd_set key val (set (tentries ?ns h r))"
      using p5 by (simp add: R)
    ultimately show ?thesis
      using put by blast
  next
    case True
    let ?root = "new_InternalNode
        \<lparr>keys := (keys new_InternalNode)[0 := promotedKey res],
         childIndices := (childIndices new_InternalNode)[0 := rootIndex t1, 1 := Some (newChildOffset res)],
         numKeys := 1\<rparr>"
    let ?new = "length ?ns1"
    let ?ns' = "?ns1 @ [Internal ?root]"
    let ?t' = "t1\<lparr>rootIndex := Some ?new, nodes := ?ns'\<rparr>"
    have put: "put_bt t key val = Some ?t'"
      using root run True by (simp add: put_bt_def Let_def)
    have R: "?R = [r, newChildOffset res]" and Kr: "res_keys res = [promotedKey res]"
      using True by (simp_all add: res_kids_def res_keys_def)
    have ok: "internal_ok ?root"
      by (simp add: internal_ok_def new_InternalNode_def MAX_KEYS_INTERNAL_def r1 root
          numeral_2_eq_2 take_Suc_conv_app_nth)
    have lk: "lkeys ?root = res_keys res"
      by (simp add: lkeys_def new_InternalNode_def MAX_KEYS_INTERNAL_def Kr take_Suc_conv_app_nth)
    have ic: "ichildren ?root = ?R"
      by (simp add: ichildren_def new_InternalNode_def MAX_KEYS_INTERNAL_def R r1 root
          numeral_2_eq_2 take_Suc_conv_app_nth)
    have arena: "tnodes ?ns1 h c \<subseteq> {..< length ?ns1}" if c: "c \<in> set ?R" for c
    proof -
      obtain l u where "subtree ?ns1 h c l u"
        using p3 c by (rule kids_member)
      then show ?thesis
        by (rule subtree_in_arena)
    qed
    have frame: "\<forall>c \<in> set ?R. \<forall>x \<in> tnodes ?ns1 h c. ?ns' ! x = ?ns1 ! x"
      using arena by (fastforce simp: nth_append)
    have notin: "\<forall>c \<in> set ?R. ?new \<notin> tnodes ?ns1 h c"
      using arena by fastforce
    have node: "?new < length ?ns'" "?ns' ! ?new = Internal ?root"
      by simp_all
    have len: "length ?ns1 \<le> length ?ns'"
      by simp
    note na = node_assemble [OF p3 frame len node ok lk ic notin]
    have "\<forall>l \<in> set (concat (map (tleaves ?ns1 h) ?R)). next_of ?ns' l = next_of ?ns1 l"
    proof
      fix l
      assume "l \<in> set (concat (map (tleaves ?ns1 h) ?R))"
      then obtain c where c: "c \<in> set ?R" "l \<in> set (tleaves ?ns1 h c)"
        by auto
      then have "l \<in> tnodes ?ns1 h c"
        using leaves_in_nodes by blast
      then have "l < length ?ns1"
        using arena [OF c(1)] by auto
      then show "next_of ?ns' l = next_of ?ns1 l"
        by (simp add: next_of_def nth_append)
    qed
    with ch1 have ch': "chain ?ns' (tleaves ?ns' (Suc h) ?new) None"
      unfolding na(4) by (rule chain_frame)
    have bd': "list_all node_bounded ?ns'"
      using bd1 internal_bounded [OF ok] by simp
    have nt: "nodes ?t' = ?ns'" "rootIndex ?t' = Some ?new"
      by simp_all
    have "bt_inv ?t' (Suc h) ?new"
      unfolding bt_inv_def nt by (intro conjI refl na(1) bd' ch')
    moreover have "set (tentries (nodes ?t') (Suc h) ?new) = upd_set key val (set (tentries ?ns h r))"
      unfolding nt na(3) by (rule p5)
    ultimately show ?thesis
      using put by blast
  qed
qed

text \<open>The content after a sequence of puts.\<close>

lemma puts_bt_inv:
  assumes "bt_inv t h r"
  shows "\<exists>t' h' r'. puts_bt t kvs = Some t' \<and> bt_inv t' h' r'
           \<and> set (tentries (nodes t') h' r')
               = fold (\<lambda>kv S. upd_set (fst kv) (snd kv) S) kvs (set (tentries (nodes t) h r))"
  using assms
proof (induction kvs arbitrary: t h r)
  case Nil
  then show ?case
    by auto
next
  case (Cons kv kvs)
  obtain t1 h1 r1 where p: "put_bt t (fst kv) (snd kv) = Some t1" "bt_inv t1 h1 r1"
    "set (tentries (nodes t1) h1 r1) = upd_set (fst kv) (snd kv) (set (tentries (nodes t) h r))"
    using put_bt_inv [OF Cons.prems] by blast
  obtain t' h' r' where q: "puts_bt t1 kvs = Some t'" "bt_inv t' h' r'"
    "set (tentries (nodes t') h' r')
       = fold (\<lambda>kv S. upd_set (fst kv) (snd kv) S) kvs (set (tentries (nodes t1) h1 r1))"
    using Cons.IH [OF p(2)] by blast
  have "puts_bt t (kv # kvs) = Some t'"
    using p(1) q(1) by simp
  moreover have "set (tentries (nodes t') h' r')
       = fold (\<lambda>kv S. upd_set (fst kv) (snd kv) S) (kv # kvs) (set (tentries (nodes t) h r))"
    using q(3) p(3) by simp
  ultimately show ?case
    using q(2) by blast
qed

lemma get_bt_inv:
  assumes "bt_inv t h r"
  shows "\<exists>res. get_bt t key = Some res \<and> (\<forall>v. res = Some v \<longleftrightarrow> (key, v) \<in> set (tentries (nodes t) h r))"
proof -
  have root: "rootIndex t = Some r" and st: "subtree (nodes t) h r None None"
    using assms by (simp_all add: bt_inv_def)
  show ?thesis
    using searchKey_correct [OF st, of key] by (simp add: get_bt_def root)
qed

lemma fold_upd_other:
  "k \<notin> fst ` set kvs
   \<Longrightarrow> (k, v) \<in> fold (\<lambda>kv S. upd_set (fst kv) (snd kv) S) kvs S \<longleftrightarrow> (k, v) \<in> S"
proof (induction kvs arbitrary: S)
  case Nil
  then show ?case
    by simp
next
  case (Cons kv kvs)
  then have "k \<noteq> fst kv" "k \<notin> fst ` set kvs"
    by auto
  then show ?case
    using Cons.IH [of "upd_set (fst kv) (snd kv) S"] by (auto simp: upd_set_def)
qed

lemma fold_upd_append:
  "fold (\<lambda>kv S. upd_set (fst kv) (snd kv) S) (xs @ ys) S
   = fold (\<lambda>kv S. upd_set (fst kv) (snd kv) S) ys (fold (\<lambda>kv S. upd_set (fst kv) (snd kv) S) xs S)"
  by simp

lemma fold_upd_last:
  assumes "k \<notin> fst ` set post"
  shows "(k, v) \<in> fold (\<lambda>kv S. upd_set (fst kv) (snd kv) S) (pre @ [(k, v2)] @ post) S \<longleftrightarrow> v = v2"
proof -
  let ?f = "fold (\<lambda>kv S. upd_set (fst kv) (snd kv) S)"
  have "?f (pre @ [(k, v2)] @ post) S = ?f post (upd_set k v2 (?f pre S))"
    by simp
  then have "(k, v) \<in> ?f (pre @ [(k, v2)] @ post) S \<longleftrightarrow> (k, v) \<in> upd_set k v2 (?f pre S)"
    using fold_upd_other [OF assms] by simp
  then show ?thesis
    by (auto simp: upd_set_def)
qed

text \<open>
  C5. B+ tree fan-out: every sequence of puts on the empty tree returns, and in the tree it
  leaves, every leaf of the arena holds at most 30 keys and every internal node at most
  120 keys.
\<close>

theorem btree_fanout_invariant:
  "\<exists>t. puts_bt new_BPlusTree kvs = Some t \<and> list_all node_bounded (nodes t)"
proof -
  obtain t h r where "puts_bt new_BPlusTree kvs = Some t" "bt_inv t h r"
    using puts_bt_inv [OF new_BPlusTree_inv] by blast
  then show ?thesis
    by (auto simp: bt_inv_def)
qed

end
